(* ===== verification/Prelude.thy ===== *)
theory Prelude
  imports Main "HOL-Library.Word" "HOL-Library.Monad_Syntax" "HOL-Library.Multiset"
begin

text \<open>
  The part of the Go language and of its standard library that the components share.

  \<^item> Code that can panic (an index out of range, a failed type assertion, \<^verbatim>\<open>log.Fatalf\<close>) has
    an \<open>option\<close> result: \<open>None\<close> says that the goroutine does not get past that point.
  \<^item> A slice is a list. Indexing, assignment to an element and re-slicing check their bounds as
    Go does (\<open>go_index\<close>, \<open>go_update\<close>, \<open>go_from\<close>, \<open>go_upto\<close>).
  \<^item> A buffered channel is the list of its pending values; \<open>chan_offer\<close> is the non-blocking send
    \<^verbatim>\<open>select { case ch <- v: default: }\<close>.
  \<^item> Go's integer division truncates towards zero (\<open>go_div\<close>).
\<close>

unbundle bit_operations_syntax

named_theorems go_defs \<open>definitions of the Go primitives\<close>
named_theorems go_some \<open>when a Go primitive does not panic\<close>

section \<open>Slices\<close>

definition go_len :: "'a list \<Rightarrow> int" where
  "go_len xs = int (length xs)"

definition go_index :: "'a list \<Rightarrow> int \<Rightarrow> 'a option" where
  "go_index xs i = (if 0 \<le> i \<and> i < go_len xs then Some (xs ! nat i) else None)"

definition go_update :: "'a list \<Rightarrow> int \<Rightarrow> 'a \<Rightarrow> 'a list option" where
  "go_update xs i v = (if 0 \<le> i \<and> i < go_len xs then Some (xs[nat i := v]) else None)"

text \<open>The re-slicings \<^verbatim>\<open>xs[i:]\<close> and \<^verbatim>\<open>xs[:i]\<close>. Go bounds the upper index by the capacity;
  every use in the modelled code stays within the length.\<close>

definition go_from :: "'a list \<Rightarrow> int \<Rightarrow> 'a list option" where
  "go_from xs i = (if 0 \<le> i \<and> i \<le> go_len xs then Some (drop (nat i) xs) else None)"

definition go_upto :: "'a list \<Rightarrow> int \<Rightarrow> 'a list option" where
  "go_upto xs i = (if 0 \<le> i \<and> i \<le> go_len xs then Some (take (nat i) xs) else None)"

text \<open>The loop \<^verbatim>\<open>for j := 0; j < n; j++ { xs[j] = v }\<close>.\<close>

primrec go_fill :: "nat \<Rightarrow> 'a \<Rightarrow> 'a list \<Rightarrow> 'a list option" where
  "go_fill 0 v xs = Some xs"
| "go_fill (Suc n) v xs = do { ys \<leftarrow> go_fill n v xs; go_update ys (int n) v }"

section \<open>Integers and channels\<close>

definition go_div :: "int \<Rightarrow> int \<Rightarrow> int" where
  "go_div a b = sgn a * sgn b * (\<bar>a\<bar> div \<bar>b\<bar>)"

definition chan_offer :: "nat \<Rightarrow> 'a \<Rightarrow> 'a list \<Rightarrow> 'a list" where
  "chan_offer cap v q = (if length q < cap then q @ [v] else q)"

text \<open>A Go map; \<open>None\<close> is the nil map, which reads as an empty one and panics on a write.\<close>

type_synonym ('k, 'v) gomap = "('k \<rightharpoonup> 'v) option"

definition map_get :: "('k, 'v) gomap \<Rightarrow> 'k \<rightharpoonup> 'v" where
  "map_get m k = (case m of None \<Rightarrow> None | Some f \<Rightarrow> f k)"

definition map_set :: "('k, 'v) gomap \<Rightarrow> 'k \<Rightarrow> 'v \<Rightarrow> ('k, 'v) gomap option" where
  "map_set m k v = (case m of None \<Rightarrow> None | Some f \<Rightarrow> Some (Some (f(k \<mapsto> v))))"

definition map_del :: "('k, 'v) gomap \<Rightarrow> 'k \<Rightarrow> ('k, 'v) gomap" where
  "map_del m k = map_option (\<lambda>f. f(k := None)) m"

text \<open>FNV-1a with 32 bits, over the bytes of a string (\<^verbatim>\<open>hash/fnv\<close>).\<close>

definition fnv32a :: "string \<Rightarrow> 32 word" where
  "fnv32a s = foldl (\<lambda>h c. (h XOR of_char c) * 16777619) 2166136261 s"

lemmas [go_defs] = go_len_def go_index_def go_update_def go_from_def go_upto_def chan_offer_def

section \<open>Total correctness of code that can panic\<close>

text \<open>\<open>returns m P\<close>: the code does not panic and its result satisfies \<open>P\<close>. The simplification rules
  compute the condition under which a block written with \<^verbatim>\<open>do\<close> does so.\<close>

definition returns :: "'a option \<Rightarrow> ('a \<Rightarrow> bool) \<Rightarrow> bool" where
  "returns m P \<longleftrightarrow> (\<exists>x. m = Some x \<and> P x)"

lemma returns_code [code]: "returns m P = (case m of None \<Rightarrow> False | Some x \<Rightarrow> P x)"
  by (auto simp: returns_def split: option.splits)

lemma returns_Some [simp]: "returns (Some x) P = P x"
  by (simp add: returns_def)

lemma returns_None [simp]: "\<not> returns None P"
  by (simp add: returns_def)

lemma returns_bind [simp]: "returns (Option.bind m f) P = returns m (\<lambda>x. returns (f x) P)"
  by (cases m) (auto simp: returns_def)

lemma returns_if [simp]:
  "returns (if b then m else m') P = (if b then returns m P else returns m' P)"
  by simp

lemma returns_Let [simp]: "returns (Let v g) P = (let x = v in returns (g x) P)"
  by simp

lemma returns_case_prod [simp]:
  "returns (case_prod h pr) P = (case pr of (a, b) \<Rightarrow> returns (h a b) P)"
  by (cases pr) simp

lemma returns_mono: "returns m P \<Longrightarrow> (\<And>x. m = Some x \<Longrightarrow> P x \<Longrightarrow> Q x) \<Longrightarrow> returns m Q"
  by (auto simp: returns_def)

lemma returnsD: "returns m P \<Longrightarrow> m = Some x \<Longrightarrow> P x"
  by (auto simp: returns_def)

lemma returnsE: "returns m P \<Longrightarrow> (\<And>x. m = Some x \<Longrightarrow> P x \<Longrightarrow> thesis) \<Longrightarrow> thesis"
  by (auto simp: returns_def)

lemma returns_conj: "returns m P \<Longrightarrow> returns m Q \<Longrightarrow> returns m (\<lambda>x. P x \<and> Q x)"
  by (auto simp: returns_def)

section \<open>Generic lemmas\<close>

lemma gomap_simps [simp]:
  "map_get None k = None" "map_get (Some f) k = f k" "map_set None k v = None"
  "map_set (Some f) k v = Some (Some (f(k \<mapsto> v)))" "map_del None k = None"
  "map_del (Some f) k = Some (f(k := None))"
  by (simp_all add: map_get_def map_set_def map_del_def)

lemma go_len_simps [simp]:
  "go_len [] = 0" "go_len (x # xs) = go_len xs + 1" "go_len (xs @ ys) = go_len xs + go_len ys"
  by (simp_all add: go_len_def)

lemma go_len_nonneg [simp]: "0 \<le> go_len xs"
  by (simp add: go_len_def)

lemma go_len_pos_iff [simp]: "0 < go_len xs \<longleftrightarrow> xs \<noteq> []"
  by (simp add: go_len_def)

lemma go_len_ge1_iff: "1 \<le> go_len xs \<longleftrightarrow> xs \<noteq> []"
  using go_len_pos_iff [of xs] by linarith

lemma go_index_Some [go_some]: "0 \<le> i \<Longrightarrow> i < go_len xs \<Longrightarrow> go_index xs i = Some (xs ! nat i)"
  by (simp add: go_index_def)

lemma go_index_eq_None_iff: "go_index xs i = None \<longleftrightarrow> i < 0 \<or> go_len xs \<le> i"
  by (auto simp: go_index_def)

lemma go_index_SomeD: "go_index xs i = Some x \<Longrightarrow> 0 \<le> i \<and> i < go_len xs \<and> x = xs ! nat i"
  by (auto simp: go_index_def split: if_splits)

lemma go_update_Some [go_some]:
  "0 \<le> i \<Longrightarrow> i < go_len xs \<Longrightarrow> go_update xs i v = Some (xs[nat i := v])"
  by (simp add: go_update_def)

lemma go_update_SomeD: "go_update xs i v = Some ys \<Longrightarrow> 0 \<le> i \<and> i < go_len xs \<and> ys = xs[nat i := v]"
  by (auto simp: go_update_def split: if_splits)

lemma go_from_Some [go_some]: "0 \<le> i \<Longrightarrow> i \<le> go_len xs \<Longrightarrow> go_from xs i = Some (drop (nat i) xs)"
  by (simp add: go_from_def)

lemma go_upto_Some [go_some]: "0 \<le> i \<Longrightarrow> i \<le> go_len xs \<Longrightarrow> go_upto xs i = Some (take (nat i) xs)"
  by (simp add: go_upto_def)

lemma returns_go_index [simp]:
  "returns (go_index xs i) P \<longleftrightarrow> 0 \<le> i \<and> i < go_len xs \<and> P (xs ! nat i)"
  by (auto simp: returns_def go_index_def)

lemma returns_go_update [simp]:
  "returns (go_update xs i v) P \<longleftrightarrow> 0 \<le> i \<and> i < go_len xs \<and> P (xs[nat i := v])"
  by (auto simp: returns_def go_update_def)

lemma returns_go_from [simp]:
  "returns (go_from xs i) P \<longleftrightarrow> 0 \<le> i \<and> i \<le> go_len xs \<and> P (drop (nat i) xs)"
  by (auto simp: returns_def go_from_def)

lemma returns_go_upto [simp]:
  "returns (go_upto xs i) P \<longleftrightarrow> 0 \<le> i \<and> i \<le> go_len xs \<and> P (take (nat i) xs)"
  by (auto simp: returns_def go_upto_def)

lemma go_len_list_update [simp]: "go_len (xs[i := v]) = go_len xs"
  by (simp add: go_len_def)

lemma go_len_drop: "0 \<le> i \<Longrightarrow> i \<le> go_len xs \<Longrightarrow> go_len (drop (nat i) xs) = go_len xs - i"
  by (simp add: go_len_def of_nat_diff)

lemma go_len_take: "0 \<le> i \<Longrightarrow> i \<le> go_len xs \<Longrightarrow> go_len (take (nat i) xs) = i"
  by (simp add: go_len_def)

lemma go_fill_eq: "n \<le> length xs \<Longrightarrow> go_fill n v xs = Some (replicate n v @ drop n xs)"
proof (induction n)
  case (Suc n)
  then have "go_fill (Suc n) v xs = Some ((replicate n v @ drop n xs)[n := v])"
    by (simp add: go_update_def go_len_def)
  also have "(replicate n v @ drop n xs)[n := v] = replicate n v @ (drop n xs)[0 := v]"
    by (simp add: list_update_append)
  also have "(drop n xs)[0 := v] = v # drop (Suc n) xs"
    using Suc.prems by (simp add: Cons_nth_drop_Suc [symmetric])
  finally show ?case
    by (simp add: replicate_append_same [symmetric])
qed simp

lemma go_div_nonneg: "0 \<le> a \<Longrightarrow> 0 < b \<Longrightarrow> go_div a b = a div b"
  by (cases "a = 0") (simp_all add: go_div_def)

lemma length_chan_offer: "length q \<le> cap \<Longrightarrow> length (chan_offer cap v q) \<le> cap"
  by (simp add: chan_offer_def)

lemma bind_Some_iff: "Option.bind m f = Some y \<longleftrightarrow> (\<exists>x. m = Some x \<and> f x = Some y)"
  by (cases m) auto


text \<open>The element at position \<open>(n - 1) div 2\<close> of the sorted list is the greatest value that a
  majority of the list reaches.\<close>

lemma median_majority:
  fixes xs :: "'a::linorder list"
  assumes "xs \<noteq> []"
  defines "v \<equiv> sort xs ! ((length xs - 1) div 2)"
  shows "length xs < 2 * length (filter (\<lambda>x. v \<le> x) xs)"
    and "length xs < 2 * length (filter (\<lambda>x. m \<le> x) xs) \<Longrightarrow> m \<le> v"
proof -
  let ?k = "(length xs - 1) div 2" and ?ys = "sort xs"
  have n: "0 < length xs" using assms by simp
  have "?k < length xs" using n by linarith
  then have k: "?k < length ?ys" by simp
  have filt: "length (filter P xs) = length (filter P ?ys)" for P
    by (metis mset_filter mset_sort size_mset)
  have split: "length (filter P ?ys) = length (filter P (take j ?ys)) + length (filter P (drop j ?ys))" for P j
    by (metis append_take_drop_id filter_append length_append)
  have "filter (\<lambda>x. v \<le> x) (drop ?k ?ys) = drop ?k ?ys"
    unfolding filter_id_conv v_def using k by (auto simp: in_set_conv_nth intro!: sorted_nth_mono)
  then have "length xs - ?k \<le> length (filter (\<lambda>x. v \<le> x) xs)"
    using split [of "\<lambda>x. v \<le> x" ?k] by (simp add: filt diff_le_mono)
  then show "length xs < 2 * length (filter (\<lambda>x. v \<le> x) xs)"
    using n by linarith
  show "m \<le> v" if maj: "length xs < 2 * length (filter (\<lambda>x. m \<le> x) xs)"
  proof (rule ccontr)
    assume "\<not> m \<le> v"
    then have "\<not> m \<le> ?ys ! j" if "j \<le> ?k" for j
      using sorted_nth_mono [of ?ys j ?k] that k by (simp add: v_def)
    then have "filter (\<lambda>x. m \<le> x) (take (Suc ?k) ?ys) = []"
      by (auto simp: filter_empty_conv in_set_conv_nth)
    then have "length (filter (\<lambda>x. m \<le> x) xs) \<le> length xs - Suc ?k"
      using split [of "\<lambda>x. m \<le> x" "Suc ?k"] length_filter_le [of "\<lambda>x. m \<le> x" "drop (Suc ?k) ?ys"]
      by (simp add: filt)
    with maj n show False by linarith
  qed
qed

end
