(* ===== verification/Persister.thy ===== *)
theory Persister
  imports Prelude
begin

text \<open>
  \<^verbatim>\<open>lec-2025/src/tester1/persister.go\<close>: the stable storage of one server. The two byte slices are
  lists over the items the encoders of the clients write; a nil slice and an empty one are both
  \<open>[]\<close>, which no client tells apart (\<^verbatim>\<open>clone\<close> turns the first into the second).
\<close>

record ('r, 's) Persister =
  raftstate :: "'r list"
  snapshot :: "'s list"

definition MakePersister :: "('r, 's) Persister" where
  "MakePersister = \<lparr>raftstate = [], snapshot = []\<rparr>"

text \<open>\<^verbatim>\<open>make\<close> followed by \<^verbatim>\<open>copy\<close>: a fresh slice with the same contents.\<close>

definition clone :: "'a list \<Rightarrow> 'a list" where
  "clone orig = map (\<lambda>i. orig ! i) [0..<length orig]"

definition Copy :: "('r, 's) Persister \<Rightarrow> ('r, 's) Persister" where
  "Copy ps = MakePersister\<lparr>raftstate := raftstate ps, snapshot := snapshot ps\<rparr>"

definition ReadRaftState :: "('r, 's) Persister \<Rightarrow> 'r list" where
  "ReadRaftState ps = clone (raftstate ps)"

text \<open>The size in bytes of an encoded state is a matter of the encoder; it is the parameter
  \<open>nbytes\<close>.\<close>

definition RaftStateSize :: "('r list \<Rightarrow> int) \<Rightarrow> ('r, 's) Persister \<Rightarrow> int" where
  "RaftStateSize nbytes ps = nbytes (raftstate ps)"

definition Save :: "'r list \<Rightarrow> 's list \<Rightarrow> ('r, 's) Persister \<Rightarrow> ('r, 's) Persister" where
  "Save rs sn ps = ps\<lparr>raftstate := clone rs, snapshot := clone sn\<rparr>"

definition ReadSnapshot :: "('r, 's) Persister \<Rightarrow> 's list" where
  "ReadSnapshot ps = clone (snapshot ps)"

definition SnapshotSize :: "('s list \<Rightarrow> int) \<Rightarrow> ('r, 's) Persister \<Rightarrow> int" where
  "SnapshotSize nbytes ps = nbytes (snapshot ps)"

lemma clone_id [simp]: "clone xs = xs"
  by (simp add: clone_def map_nth)

lemma Copy_id [simp]: "Copy ps = ps"
  by (simp add: Copy_def MakePersister_def)

lemma Read_Save [simp]:
  "ReadRaftState (Save rs sn ps) = rs" "ReadSnapshot (Save rs sn ps) = sn"
  by (simp_all add: ReadRaftState_def ReadSnapshot_def Save_def)

lemma Save_Save [simp]: "Save rs sn (Save rs' sn' ps) = Save rs sn ps"
  by (simp add: Save_def)

text \<open>What a server relies on: a read after a crash returns what the last \<^verbatim>\<open>Save\<close> wrote, both
  halves of it.\<close>

locale storage =
  fixes save :: "'r list \<Rightarrow> 's list \<Rightarrow> 'd \<Rightarrow> 'd"
    and read_state :: "'d \<Rightarrow> 'r list" and read_snapshot :: "'d \<Rightarrow> 's list"
  assumes read_state_save: "read_state (save rs sn d) = rs"
    and read_snapshot_save: "read_snapshot (save rs sn d) = sn"
begin

lemma last_save_wins:
  "ws \<noteq> [] \<Longrightarrow> read_state (fold (\<lambda>(r, s). save r s) ws d) = fst (last ws) \<and>
                read_snapshot (fold (\<lambda>(r, s). save r s) ws d) = snd (last ws)"
proof (induction ws rule: rev_induct)
  case (snoc w ws)
  then show ?case by (cases w) (simp add: read_state_save read_snapshot_save)
qed simp

end

interpretation disk: storage Save ReadRaftState ReadSnapshot
  by unfold_locales simp_all

end
