(* ===== verification/Raft.thy ===== *)
theory Raft
  imports Persister
begin

text \<open>
  One Raft peer, \<^verbatim>\<open>lec-2025/src/raft1/raft.go\<close>. The record \<open>Raft\<close> holds the fields of the struct;
  every method that takes the lock once is one function from the state to the new state and the
  values it returns or sends. \<open>None\<close> is a run-time panic.

  Terms and log indices are \<^verbatim>\<open>int\<close>s of the source and \<open>int\<close> here: they grow by one per election or
  entry, so their width plays no role. A command is an \<open>'c option\<close>, the \<^verbatim>\<open>nil\<close> command of the
  dummy head being \<open>None\<close>; \<open>'s\<close> is the alphabet of the service's snapshots.
\<close>

section \<open>Types\<close>

record 'c Entry =
  EntryTerm :: int
  EntryCommand :: "'c option"

datatype RaftState = Leader | Follower | Candidate

text \<open>What the encoder writes for the persistent state: a stream of integers and logs.\<close>

datatype 'c raft_item = GobInt int | GobLogs "'c Entry list"

record ('c, 's) Raft =
  npeers :: int
  persister :: "('c raft_item, 's) Persister"
  me :: int
  dead :: int
  currentTerm :: int
  votedFor :: int
  logs :: "'c Entry list"
  state :: RaftState
  heartbeatCh :: "bool list"
  commitIndex :: int
  lastApplied :: int
  applySignal :: "unit list"
  nextIndex :: "int list"
  matchIndex :: "int list"
  startCh :: "bool list"
  lastIncludedIndex :: int
  lastIncludedTerm :: int

record ('c, 's) ApplyMsg =
  CommandValid :: bool
  Command :: "'c option"
  CommandIndex :: int
  CommandTerm :: int
  SnapshotValid :: bool
  Snapshot_data :: "'s list"
  SnapshotTerm :: int
  SnapshotIndex :: int

record RequestVoteArgs =
  rvTerm :: int
  CandidateId :: int
  LastLogIndex :: int
  LastLogTerm :: int

record RequestVoteReply =
  rvrTerm :: int
  VoteGranted :: bool

record 'c AppendEntriesArgs =
  aeTerm :: int
  aeLeaderId :: int
  PrevLogIndex :: int
  PrevLogTerm :: int
  LeaderCommit :: int
  Entries :: "'c Entry list"

record AppendEntriesReply =
  aerTerm :: int
  Success :: bool
  ConflictLogIndex :: int
  ConflictLogTerm :: int

record 's InstallSnapshotArgs =
  isTerm :: int
  isLeaderId :: int
  isLastIncludedIndex :: int
  isLastIncludedTerm :: int
  isData :: "'s list"

record InstallSnapshotReply =
  isrTerm :: int

section \<open>State, log access and persistence\<close>

definition GetState :: "('c, 's) Raft \<Rightarrow> int \<times> bool" where
  "GetState rf = (currentTerm rf, state rf = Leader)"

definition persist :: "('c, 's) Raft \<Rightarrow> ('c, 's) Raft" where
  "persist rf =
     (let raftst = [GobInt (currentTerm rf), GobInt (votedFor rf), GobLogs (logs rf),
                    GobInt (lastIncludedIndex rf), GobInt (lastIncludedTerm rf)]
      in rf\<lparr>persister := Save raftst (ReadSnapshot (persister rf)) (persister rf)\<rparr>)"

text \<open>\<^verbatim>\<open>d.Decode(&v)\<close> for an \<^verbatim>\<open>int\<close> and for a \<^verbatim>\<open>[]Entry\<close>: the value and the rest of the stream.\<close>

fun decodeInt :: "'c raft_item list \<Rightarrow> (int \<times> 'c raft_item list) option" where
  "decodeInt (GobInt n # r) = Some (n, r)"
| "decodeInt _ = None"

fun decodeLogs :: "'c raft_item list \<Rightarrow> ('c Entry list \<times> 'c raft_item list) option" where
  "decodeLogs (GobLogs l # r) = Some (l, r)"
| "decodeLogs _ = None"

definition readPersist :: "'c raft_item list \<Rightarrow> ('c, 's) Raft \<Rightarrow> ('c, 's) Raft" where
  "readPersist data rf =
     (if data = [] then rf
      else case do {
          (ct, d) \<leftarrow> decodeInt data;
          (vf, d) \<leftarrow> decodeInt d;
          (ls, d) \<leftarrow> decodeLogs d;
          (li, d) \<leftarrow> decodeInt d;
          (lt, d) \<leftarrow> decodeInt d;
          Some (ct, vf, ls, li, lt) } of
        None \<Rightarrow> rf
      | Some (ct, vf, ls, li, lt) \<Rightarrow>
          rf\<lparr>currentTerm := ct, votedFor := vf, logs := ls,
             lastIncludedIndex := li, lastIncludedTerm := lt\<rparr>)"

definition PersistBytes :: "('c raft_item list \<Rightarrow> int) \<Rightarrow> ('c, 's) Raft \<Rightarrow> int" where
  "PersistBytes nbytes rf = RaftStateSize nbytes (persister rf)"

definition encodeState :: "('c, 's) Raft \<Rightarrow> 'c raft_item list" where
  "encodeState rf =
     [GobInt (currentTerm rf), GobInt (votedFor rf), GobLogs (logs rf),
      GobInt (lastIncludedIndex rf), GobInt (lastIncludedTerm rf)]"

definition getFirstLogIndex :: "('c, 's) Raft \<Rightarrow> int" where
  "getFirstLogIndex rf = lastIncludedIndex rf"

definition getLastLogIndex :: "('c, 's) Raft \<Rightarrow> int" where
  "getLastLogIndex rf = lastIncludedIndex rf + go_len (logs rf) - 1"

definition getLogTerm :: "int \<Rightarrow> ('c, 's) Raft \<Rightarrow> int option" where
  "getLogTerm raftIndex rf =
     (let firstIndex = getFirstLogIndex rf in
      if raftIndex = firstIndex then do { e \<leftarrow> go_index (logs rf) 0; Some (EntryTerm e) }
      else let sliceIndex = raftIndex - firstIndex in
        if sliceIndex < 0 \<or> sliceIndex \<ge> go_len (logs rf) then Some (-1)
        else do { e \<leftarrow> go_index (logs rf) sliceIndex; Some (EntryTerm e) })"

definition Snapshot :: "int \<Rightarrow> 's list \<Rightarrow> ('c, 's) Raft \<Rightarrow> ('c, 's) Raft option" where
  "Snapshot index snap rf =
     (if index \<le> lastIncludedIndex rf then Some rf
      else do {
        let relativeIndex = index - lastIncludedIndex rf;
        rf1 \<leftarrow> (if relativeIndex < go_len (logs rf) then do {
                  e \<leftarrow> go_index (logs rf) relativeIndex;
                  newLogs \<leftarrow> go_from (logs rf) relativeIndex;
                  Some (rf\<lparr>lastIncludedTerm := EntryTerm e, logs := newLogs\<rparr>) }
                else Some (rf\<lparr>lastIncludedIndex := 0,
                              logs := [\<lparr>EntryTerm = lastIncludedTerm rf, EntryCommand = None\<rparr>]\<rparr>));
        let rf2 = rf1\<lparr>lastIncludedIndex := index\<rparr>;
        newLogs \<leftarrow> go_update (logs rf2) 0 \<lparr>EntryTerm = lastIncludedTerm rf2, EntryCommand = None\<rparr>;
        let rf3 = rf2\<lparr>logs := newLogs\<rparr>;
        let rf4 = (if commitIndex rf3 < lastIncludedIndex rf3
                   then rf3\<lparr>commitIndex := lastIncludedIndex rf3\<rparr> else rf3);
        let rf5 = (if lastApplied rf4 < lastIncludedIndex rf4
                   then rf4\<lparr>lastApplied := lastIncludedIndex rf4\<rparr> else rf4);
        Some (rf5\<lparr>persister := Save (encodeState rf5) snap (persister rf5)\<rparr>)
      })"

section \<open>Channels\<close>

definition beat :: "('c, 's) Raft \<Rightarrow> ('c, 's) Raft" where
  "beat rf = rf\<lparr>heartbeatCh := chan_offer 1 True (heartbeatCh rf)\<rparr>"

definition notifyApplier :: "('c, 's) Raft \<Rightarrow> ('c, 's) Raft" where
  "notifyApplier rf = rf\<lparr>applySignal := chan_offer 1 () (applySignal rf)\<rparr>"

section \<open>RequestVote\<close>

definition RequestVote ::
  "RequestVoteArgs \<Rightarrow> ('c, 's) Raft \<Rightarrow> (('c, 's) Raft \<times> RequestVoteReply) option" where
  "RequestVote args rf =
     (if rvTerm args < currentTerm rf
      then Some (rf, \<lparr>rvrTerm = currentTerm rf, VoteGranted = False\<rparr>)
      else do {
        let rf1 = (if rvTerm args > currentTerm rf
                   then persist (rf\<lparr>votedFor := -1, currentTerm := rvTerm args, state := Follower\<rparr>)
                   else rf);
        (rf2, granted) \<leftarrow>
          (if votedFor rf1 = CandidateId args \<or> votedFor rf1 = -1 then do {
             let lastLogIndex = getLastLogIndex rf1;
             lastLogTerm \<leftarrow> getLogTerm lastLogIndex rf1;
             if lastLogTerm < LastLogTerm args
                \<or> lastLogTerm = LastLogTerm args \<and> lastLogIndex \<le> LastLogIndex args
             then Some (beat (persist (rf1\<lparr>votedFor := CandidateId args,
                                           currentTerm := rvTerm args, state := Follower\<rparr>)), True)
             else Some (rf1, False) }
           else Some (rf1, False));
        Some (rf2, \<lparr>rvrTerm = currentTerm rf2, VoteGranted = granted\<rparr>)
      })"

section \<open>AppendEntries\<close>

text \<open>The commit rule of a successful append, which both success branches run.\<close>

definition follow_commit :: "'c AppendEntriesArgs \<Rightarrow> ('c, 's) Raft \<Rightarrow> ('c, 's) Raft" where
  "follow_commit args rf =
     (let indexOfLastNewEntry = PrevLogIndex args + go_len (Entries args) in
      notifyApplier (rf\<lparr>commitIndex := (if LeaderCommit args < indexOfLastNewEntry
                                        then LeaderCommit args else indexOfLastNewEntry)\<rparr>))"

text \<open>The loop over the overlap with the local log; \<open>es\<close> is \<^verbatim>\<open>args.Entries[entriesIndex:]\<close>.\<close>

fun merge_entries :: "'c Entry list \<Rightarrow> int \<Rightarrow> ('c, 's) Raft \<Rightarrow> ('c, 's) Raft option" where
  "merge_entries [] insertIndex rf = Some rf"
| "merge_entries (e # es) insertIndex rf =
     (if insertIndex > getLastLogIndex rf
      then Some (persist (rf\<lparr>logs := logs rf @ (e # es)\<rparr>))
      else do {
        t \<leftarrow> getLogTerm insertIndex rf;
        if t \<noteq> EntryTerm e then do {
          kept \<leftarrow> go_upto (logs rf) (insertIndex - getFirstLogIndex rf);
          Some (persist (rf\<lparr>logs := kept @ (e # es)\<rparr>)) }
        else merge_entries es (insertIndex + 1) rf })"

text \<open>The loop that looks for the first index of the conflicting term.\<close>

function conflict_scan :: "int \<Rightarrow> int \<Rightarrow> ('c, 's) Raft \<Rightarrow> int option" where
  "conflict_scan conflictTerm tempIndex rf =
     (if tempIndex > lastIncludedIndex rf then do {
        t \<leftarrow> getLogTerm tempIndex rf;
        if t < conflictTerm then Some tempIndex
        else conflict_scan conflictTerm (tempIndex - 1) rf }
      else Some tempIndex)"
  by pat_completeness auto
termination
  by (relation "measure (\<lambda>(c, i, rf). nat (i - lastIncludedIndex rf))") auto

definition AppendEntries ::
  "'c AppendEntriesArgs \<Rightarrow> ('c, 's) Raft \<Rightarrow> (('c, 's) Raft \<times> AppendEntriesReply) option" where
  "AppendEntries args rf =
     (let reply = \<lparr>aerTerm = currentTerm rf, Success = False,
                   ConflictLogIndex = 0, ConflictLogTerm = 0\<rparr> in
      if aeTerm args < currentTerm rf then Some (rf, reply)
      else do {
        let rf1 = beat (persist (rf\<lparr>currentTerm := aeTerm args, state := Follower, votedFor := -1\<rparr>));
        let lastLogIndex = getLastLogIndex rf1;
        lastLogTerm \<leftarrow> getLogTerm lastLogIndex rf1;
        if PrevLogIndex args = lastLogIndex \<and> PrevLogTerm args = lastLogTerm then
          Some (follow_commit args (persist (rf1\<lparr>logs := logs rf1 @ Entries args\<rparr>)),
                reply\<lparr>Success := True\<rparr>)
        else if PrevLogIndex args \<le> getLastLogIndex rf1 \<and> PrevLogIndex args \<ge> getFirstLogIndex rf1
        then do {
          prevTerm \<leftarrow> getLogTerm (PrevLogIndex args) rf1;
          if PrevLogTerm args = prevTerm then do {
            rf2 \<leftarrow> merge_entries (Entries args) (PrevLogIndex args + 1) rf1;
            Some (follow_commit args rf2, reply\<lparr>Success := True\<rparr>) }
          else do {
            tempIndex \<leftarrow> conflict_scan prevTerm (PrevLogIndex args - 1) rf1;
            Some (rf1, reply\<lparr>ConflictLogTerm := prevTerm, ConflictLogIndex := tempIndex + 1\<rparr>) } }
        else if PrevLogIndex args < getFirstLogIndex rf1 then do {
          t \<leftarrow> getLogTerm (getFirstLogIndex rf1) rf1;
          Some (rf1, reply\<lparr>ConflictLogIndex := getFirstLogIndex rf1, ConflictLogTerm := t\<rparr>) }
        else if PrevLogIndex args > getLastLogIndex rf1 then do {
          t \<leftarrow> getLogTerm (getLastLogIndex rf1) rf1;
          Some (rf1, reply\<lparr>ConflictLogIndex := getLastLogIndex rf1 + 1, ConflictLogTerm := t\<rparr>) }
        else Some (rf1, reply)
      })"

section \<open>InstallSnapshot\<close>

definition matchLog :: "int \<Rightarrow> int \<Rightarrow> ('c, 's) Raft \<Rightarrow> bool option" where
  "matchLog index trm rf =
     (if index \<le> getFirstLogIndex rf \<or> index > getLastLogIndex rf then Some False
      else do { t \<leftarrow> getLogTerm index rf; Some (t = trm) })"

text \<open>The reply's \<^verbatim>\<open>Term\<close> is never assigned and stays 0. The third component is the message sent on
  \<^verbatim>\<open>applyCh\<close> after the lock is released.\<close>

definition InstallSnapshot ::
  "'s InstallSnapshotArgs \<Rightarrow> ('c, 's) Raft \<Rightarrow>
   (('c, 's) Raft \<times> InstallSnapshotReply \<times> ('c, 's) ApplyMsg option) option" where
  "InstallSnapshot args rf =
     (let reply = \<lparr>isrTerm = 0\<rparr> in
      if isTerm args < currentTerm rf then Some (rf, reply, None)
      else do {
        let rf1 = (if isTerm args > currentTerm rf
                   then persist (rf\<lparr>currentTerm := isTerm args, state := Follower, votedFor := -1\<rparr>)
                   else rf);
        if isLastIncludedIndex args \<le> commitIndex rf1 then Some (rf1, reply, None)
        else do {
          hasEntry \<leftarrow> matchLog (isLastIncludedIndex args) (isLastIncludedTerm args) rf1;
          rf2 \<leftarrow> (if hasEntry then do {
                    let relativeIndex = isLastIncludedIndex args - lastIncludedIndex rf1;
                    e \<leftarrow> go_index (logs rf1) relativeIndex;
                    newLogs \<leftarrow> go_from (logs rf1) relativeIndex;
                    Some (rf1\<lparr>lastIncludedTerm := EntryTerm e, logs := newLogs\<rparr>) }
                  else Some (rf1\<lparr>logs := [\<lparr>EntryTerm = isLastIncludedTerm args,
                                           EntryCommand = None\<rparr>]\<rparr>));
          e0 \<leftarrow> go_index (logs rf2) 0;
          newLogs \<leftarrow> go_update (logs rf2) 0 (e0\<lparr>EntryCommand := None\<rparr>);
          let rf3 = rf2\<lparr>logs := newLogs, commitIndex := isLastIncludedIndex args,
                        lastApplied := isLastIncludedIndex args,
                        lastIncludedIndex := isLastIncludedIndex args,
                        lastIncludedTerm := isLastIncludedTerm args\<rparr>;
          let rf4 = rf3\<lparr>persister := Save (encodeState rf3) (isData args) (persister rf3)\<rparr>;
          Some (rf4, reply,
                Some \<lparr>CommandValid = False, Command = None, CommandIndex = 0, CommandTerm = 0,
                      SnapshotValid = True, Snapshot_data = isData args,
                      SnapshotTerm = isLastIncludedTerm args,
                      SnapshotIndex = isLastIncludedIndex args\<rparr>) } })"

section \<open>Elections\<close>

text \<open>The locked part of \<^verbatim>\<open>StartElection\<close>: the new state and the arguments that every goroutine it
  starts sends to one other peer.\<close>

definition StartElection :: "('c, 's) Raft \<Rightarrow> (('c, 's) Raft \<times> RequestVoteArgs) option" where
  "StartElection rf =
     do {
       let rf1 = persist (rf\<lparr>state := Candidate, currentTerm := currentTerm rf + 1,
                             votedFor := me rf\<rparr>);
       t \<leftarrow> getLogTerm (getLastLogIndex rf1) rf1;
       Some (rf1, \<lparr>rvTerm = currentTerm rf1, CandidateId = me rf1,
                   LastLogIndex = getLastLogIndex rf1, LastLogTerm = t\<rparr>)
     }"

text \<open>The variables the goroutines of one election share.\<close>

record election =
  votes :: int
  electedFlag :: bool

definition new_election :: election where
  "new_election = \<lparr>votes = 1, electedFlag = False\<rparr>"

text \<open>What a goroutine does with a reply. The last component says that it goes on to call
  \<^verbatim>\<open>BroadcastAppendEntries\<close>.\<close>

definition handleVoteReply ::
  "RequestVoteArgs \<Rightarrow> RequestVoteReply \<Rightarrow> election \<Rightarrow> ('c, 's) Raft \<Rightarrow>
   (('c, 's) Raft \<times> election \<times> bool) option" where
  "handleVoteReply args reply el rf =
     (if state rf \<noteq> Candidate \<or> currentTerm rf \<noteq> rvTerm args then Some (rf, el, False)
      else if rvrTerm reply > currentTerm rf then
        Some (persist (rf\<lparr>currentTerm := rvrTerm reply, state := Follower, votedFor := -1\<rparr>), el, False)
      else if VoteGranted reply then do {
        let el1 = el\<lparr>votes := votes el + 1\<rparr>;
        if votes el1 > go_div (npeers rf) 2 then
          if electedFlag el1 then Some (rf, el1, False)
          else do {
            let el2 = el1\<lparr>electedFlag := True\<rparr>;
            let currentLastIndex = getLastLogIndex rf;
            ni \<leftarrow> go_fill (nat (npeers rf)) (currentLastIndex + 1) (nextIndex rf);
            mi0 \<leftarrow> go_fill (nat (npeers rf)) 0 (matchIndex rf);
            mi \<leftarrow> go_update mi0 (me rf) currentLastIndex;
            Some (rf\<lparr>state := Leader, nextIndex := ni, matchIndex := mi\<rparr>, el2, True) }
        else Some (rf, el1, False) }
      else Some (rf, el, False))"

section \<open>The leader\<close>

definition Start :: "'c \<Rightarrow> ('c, 's) Raft \<Rightarrow> (('c, 's) Raft \<times> int \<times> int \<times> bool) option" where
  "Start command rf =
     (if state rf = Leader then do {
        let index = getLastLogIndex rf + 1;
        let rf1 = persist (rf\<lparr>logs := logs rf @ [\<lparr>EntryTerm = currentTerm rf,
                                                  EntryCommand = Some command\<rparr>]\<rparr>);
        m \<leftarrow> go_index (matchIndex rf1) (me rf1);
        mi \<leftarrow> go_update (matchIndex rf1) (me rf1) (m + 1);
        Some (rf1\<lparr>matchIndex := mi, startCh := chan_offer 1 True (startCh rf1)\<rparr>,
              index, currentTerm rf, True) }
      else Some (rf, -1, currentTerm rf, False))"

definition commit :: "('c, 's) Raft \<Rightarrow> ('c, 's) Raft option" where
  "commit rf =
     (if state rf \<noteq> Leader then Some rf
      else do {
        let newMatchIndex = sort (matchIndex rf);
        let targetIndex = go_div (go_len newMatchIndex - 1) 2;
        n \<leftarrow> go_index newMatchIndex targetIndex;
        if n > commitIndex rf then do {
          t \<leftarrow> getLogTerm n rf;
          if t = currentTerm rf then Some (notifyApplier (rf\<lparr>commitIndex := n\<rparr>)) else Some rf }
        else Some rf })"

definition handleAppendEntriesReply ::
  "int \<Rightarrow> 'c AppendEntriesArgs \<Rightarrow> AppendEntriesReply \<Rightarrow> ('c, 's) Raft \<Rightarrow> ('c, 's) Raft option" where
  "handleAppendEntriesReply server args reply rf =
     (if aerTerm reply > currentTerm rf then
        Some (persist (rf\<lparr>currentTerm := aerTerm reply, state := Follower, votedFor := -1\<rparr>))
      else do {
        next \<leftarrow> go_index (nextIndex rf) server;
        if PrevLogIndex args \<noteq> next - 1 then Some rf
        else if Success reply then do {
          ni \<leftarrow> go_update (nextIndex rf) server (PrevLogIndex args + go_len (Entries args) + 1);
          mi \<leftarrow> go_update (matchIndex rf) server (PrevLogIndex args + go_len (Entries args));
          commit (rf\<lparr>nextIndex := ni, matchIndex := mi\<rparr>) }
        else if ConflictLogIndex reply > 0 then
          if ConflictLogIndex reply < next then do {
            ni \<leftarrow> go_update (nextIndex rf) server (ConflictLogIndex reply);
            Some (rf\<lparr>nextIndex := ni\<rparr>) }
          else Some rf
        else do {
          ni \<leftarrow> go_update (nextIndex rf) server 1;
          Some (rf\<lparr>nextIndex := ni\<rparr>) } })"

definition handleInstallSnapshotReply ::
  "int \<Rightarrow> 's InstallSnapshotArgs \<Rightarrow> InstallSnapshotReply \<Rightarrow> ('c, 's) Raft \<Rightarrow> ('c, 's) Raft option" where
  "handleInstallSnapshotReply server args reply rf =
     (if isrTerm reply > currentTerm rf then
        Some (persist (rf\<lparr>currentTerm := isrTerm reply, state := Follower, votedFor := -1\<rparr>))
      else do {
        m \<leftarrow> go_index (matchIndex rf) server;
        if isLastIncludedIndex args > m then do {
          mi \<leftarrow> go_update (matchIndex rf) server (isLastIncludedIndex args);
          ni \<leftarrow> go_update (nextIndex rf) server (isLastIncludedIndex args + 1);
          Some (rf\<lparr>matchIndex := mi, nextIndex := ni\<rparr>) }
        else Some rf })"

text \<open>The loop that collects the entries of one batch.\<close>

function collect_entries :: "int \<Rightarrow> int \<Rightarrow> ('c, 's) Raft \<Rightarrow> 'c Entry list option" where
  "collect_entries j endIndex rf =
     (if j < endIndex then do {
        e \<leftarrow> go_index (logs rf) (j - lastIncludedIndex rf);
        es \<leftarrow> collect_entries (j + 1) endIndex rf;
        Some (e # es) }
      else Some [])"
  by pat_completeness auto
termination
  by (relation "measure (\<lambda>(j, k, rf). nat (k - j))") auto

datatype ('c, 's) leader_rpc =
  SendAppendEntries "'c AppendEntriesArgs" | SendInstallSnapshot "'s InstallSnapshotArgs"

definition batchSize :: int where
  "batchSize = 200"

text \<open>The locked part of the goroutine of \<^verbatim>\<open>BroadcastAppendEntries\<close> for one server: the state and the
  RPC it sends, if any. \<^verbatim>\<open>make\<close> with a negative capacity panics.\<close>

definition broadcast_to ::
  "int \<Rightarrow> ('c, 's) Raft \<Rightarrow> (('c, 's) Raft \<times> ('c, 's) leader_rpc option) option" where
  "broadcast_to server rf =
     (if state rf \<noteq> Leader then Some (rf, None)
      else do {
        next0 \<leftarrow> go_index (nextIndex rf) server;
        ni \<leftarrow> (if next0 \<le> 0 then go_update (nextIndex rf) server 1 else Some (nextIndex rf));
        let rf1 = rf\<lparr>nextIndex := ni\<rparr>;
        next \<leftarrow> go_index (nextIndex rf1) server;
        if next > getFirstLogIndex rf1 then do {
          t \<leftarrow> getLogTerm (next - 1) rf1;
          let lastLogIndex = getLastLogIndex rf1;
          let endIndex = (if next + batchSize > lastLogIndex + 1
                          then lastLogIndex + 1 else next + batchSize);
          es \<leftarrow> (if endIndex - next < 0 then None else collect_entries next endIndex rf1);
          Some (rf1, Some (SendAppendEntries
            \<lparr>aeTerm = currentTerm rf1, aeLeaderId = me rf1, PrevLogIndex = next - 1,
             PrevLogTerm = t, LeaderCommit = commitIndex rf1, Entries = es\<rparr>)) }
        else Some (rf1, Some (SendInstallSnapshot
            \<lparr>isTerm = currentTerm rf1, isLeaderId = me rf1,
             isLastIncludedIndex = lastIncludedIndex rf1,
             isLastIncludedTerm = lastIncludedTerm rf1,
             isData = ReadSnapshot (persister rf1)\<rparr>)) })"

section \<open>The background goroutines\<close>

definition Kill :: "('c, 's) Raft \<Rightarrow> ('c, 's) Raft" where
  "Kill rf = rf\<lparr>dead := 1\<rparr>"

definition killed :: "('c, 's) Raft \<Rightarrow> bool" where
  "killed rf \<longleftrightarrow> dead rf = 1"

text \<open>\<open>r\<close> is the result of \<^verbatim>\<open>rand.Int63()\<close>; the timeout is in milliseconds.\<close>

definition getRandomTimeout :: "nat \<Rightarrow> int" where
  "getRandomTimeout r = 250 + int r mod 200"

text \<open>The goroutines \<^verbatim>\<open>ticker\<close> and \<^verbatim>\<open>leaderTicker\<close>, one step between two points where they block or
  release the lock. \<open>timer\<close> says which case of the \<^verbatim>\<open>select\<close> fires: the timer, or the channel
  (which then must hold a value; an empty channel leaves the goroutine blocked).\<close>

datatype ticker_pc = TickTop | TickSelect | TickElect | TickExit

fun ticker ::
  "bool \<Rightarrow> ticker_pc \<Rightarrow> ('c, 's) Raft \<Rightarrow>
   (ticker_pc \<times> ('c, 's) Raft \<times> RequestVoteArgs option) option" where
  "ticker timer TickTop rf = Some (if killed rf then TickExit else TickSelect, rf, None)"
| "ticker timer TickSelect rf =
     (if timer then Some (if state rf \<noteq> Leader then TickElect else TickTop, rf, None)
      else case heartbeatCh rf of
        [] \<Rightarrow> Some (TickSelect, rf, None)
      | _ # q \<Rightarrow> Some (TickTop, rf\<lparr>heartbeatCh := q\<rparr>, None))"
| "ticker timer TickElect rf =
     do { (rf1, args) \<leftarrow> StartElection rf; Some (TickTop, rf1, Some args) }"
| "ticker timer TickExit rf = Some (TickExit, rf, None)"

datatype leader_pc = LeadTop | LeadSelect | LeadBroadcast | LeadExit

text \<open>The servers for which \<^verbatim>\<open>BroadcastAppendEntries\<close> starts a goroutine.\<close>

definition BroadcastAppendEntries :: "('c, 's) Raft \<Rightarrow> int list" where
  "BroadcastAppendEntries rf =
     (if state rf \<noteq> Leader then [] else filter (\<lambda>i. i \<noteq> me rf) [0..npeers rf - 1])"

fun leaderTicker ::
  "bool \<Rightarrow> leader_pc \<Rightarrow> ('c, 's) Raft \<Rightarrow> leader_pc \<times> ('c, 's) Raft \<times> int list" where
  "leaderTicker timer LeadTop rf =
     (if killed rf then LeadExit else if state rf \<noteq> Leader then LeadTop else LeadSelect, rf, [])"
| "leaderTicker timer LeadSelect rf =
     (if timer then (LeadBroadcast, rf, [])
      else case startCh rf of
        [] \<Rightarrow> (LeadSelect, rf, [])
      | _ # q \<Rightarrow> (LeadBroadcast, rf\<lparr>startCh := q\<rparr>, []))"
| "leaderTicker timer LeadBroadcast rf = (LeadTop, rf, BroadcastAppendEntries rf)"
| "leaderTicker timer LeadExit rf = (LeadExit, rf, [])"

text \<open>One iteration of \<^verbatim>\<open>applier\<close>: it sends a message on \<^verbatim>\<open>applyCh\<close>, or waits on
  \<^verbatim>\<open>applySignal\<close>, or leaves the loop and closes \<^verbatim>\<open>applyCh\<close>.\<close>

datatype ('c, 's) applier_act = ApplierSend "('c, 's) ApplyMsg" | ApplierWait | ApplierClose

definition applier_step ::
  "('c, 's) Raft \<Rightarrow> (('c, 's) Raft \<times> ('c, 's) applier_act) option" where
  "applier_step rf =
     (if killed rf then Some (rf, ApplierClose)
      else if commitIndex rf > lastApplied rf then do {
        let rf1 = rf\<lparr>lastApplied := lastApplied rf + 1\<rparr>;
        entry \<leftarrow> go_index (logs rf1) (lastApplied rf1 - lastIncludedIndex rf1);
        t \<leftarrow> getLogTerm (lastApplied rf1) rf1;
        Some (rf1, ApplierSend \<lparr>CommandValid = True, Command = EntryCommand entry,
                                CommandIndex = lastApplied rf1, CommandTerm = t,
                                SnapshotValid = False, Snapshot_data = [], SnapshotTerm = 0,
                                SnapshotIndex = 0\<rparr>) }
      else Some (rf, ApplierWait))"

definition Make :: "int \<Rightarrow> int \<Rightarrow> ('c raft_item, 's) Persister \<Rightarrow> ('c, 's) Raft" where
  "Make peers i ps =
     (let rf = \<lparr>npeers = peers, persister = ps, me = i, dead = 0, currentTerm = 0, votedFor = -1,
                logs = [\<lparr>EntryTerm = 0, EntryCommand = None\<rparr>], state = Follower,
                heartbeatCh = [], commitIndex = 0, lastApplied = 0, applySignal = [],
                nextIndex = replicate (nat peers) 1, matchIndex = replicate (nat peers) 0,
                startCh = [], lastIncludedIndex = 0, lastIncludedTerm = 0\<rparr>;
          rf1 = readPersist (ReadRaftState ps) rf
      in rf1\<lparr>commitIndex := lastIncludedIndex rf1, lastApplied := lastIncludedIndex rf1\<rparr>)"

declare conflict_scan.simps [simp del] and collect_entries.simps [simp del]

end
