(* ===== verification/Raft_Inv.thy ===== *)
theory Raft_Inv
  imports Raft
begin

text \<open>
  The well-formedness of one peer, and that every operation keeps it: \<open>raft_wf\<close> relates the
  fields of the struct, \<open>durable\<close> says that what is on disk is what the peer would lose in a
  crash. Both hold whatever the other peers send.
\<close>

section \<open>Field access after the small updates\<close>

named_theorems raft_fields \<open>fields that an update leaves alone\<close>

lemma persist_fields [simp, raft_fields]:
  "npeers (persist rf) = npeers rf" "me (persist rf) = me rf" "dead (persist rf) = dead rf"
  "currentTerm (persist rf) = currentTerm rf" "votedFor (persist rf) = votedFor rf"
  "logs (persist rf) = logs rf" "state (persist rf) = state rf"
  "heartbeatCh (persist rf) = heartbeatCh rf" "commitIndex (persist rf) = commitIndex rf"
  "lastApplied (persist rf) = lastApplied rf" "applySignal (persist rf) = applySignal rf"
  "nextIndex (persist rf) = nextIndex rf" "matchIndex (persist rf) = matchIndex rf"
  "startCh (persist rf) = startCh rf" "lastIncludedIndex (persist rf) = lastIncludedIndex rf"
  "lastIncludedTerm (persist rf) = lastIncludedTerm rf"
  by (simp_all add: persist_def Let_def)

lemma beat_fields [simp, raft_fields]:
  "npeers (beat rf) = npeers rf" "me (beat rf) = me rf" "dead (beat rf) = dead rf"
  "persister (beat rf) = persister rf"
  "currentTerm (beat rf) = currentTerm rf" "votedFor (beat rf) = votedFor rf"
  "logs (beat rf) = logs rf" "state (beat rf) = state rf" "commitIndex (beat rf) = commitIndex rf"
  "lastApplied (beat rf) = lastApplied rf" "applySignal (beat rf) = applySignal rf"
  "nextIndex (beat rf) = nextIndex rf" "matchIndex (beat rf) = matchIndex rf"
  "startCh (beat rf) = startCh rf" "lastIncludedIndex (beat rf) = lastIncludedIndex rf"
  "lastIncludedTerm (beat rf) = lastIncludedTerm rf"
  by (simp_all add: beat_def)

lemma notifyApplier_fields [simp, raft_fields]:
  "npeers (notifyApplier rf) = npeers rf" "me (notifyApplier rf) = me rf"
  "dead (notifyApplier rf) = dead rf" "persister (notifyApplier rf) = persister rf"
  "currentTerm (notifyApplier rf) = currentTerm rf" "votedFor (notifyApplier rf) = votedFor rf"
  "logs (notifyApplier rf) = logs rf" "state (notifyApplier rf) = state rf"
  "heartbeatCh (notifyApplier rf) = heartbeatCh rf"
  "commitIndex (notifyApplier rf) = commitIndex rf"
  "lastApplied (notifyApplier rf) = lastApplied rf"
  "nextIndex (notifyApplier rf) = nextIndex rf" "matchIndex (notifyApplier rf) = matchIndex rf"
  "startCh (notifyApplier rf) = startCh rf"
  "lastIncludedIndex (notifyApplier rf) = lastIncludedIndex rf"
  "lastIncludedTerm (notifyApplier rf) = lastIncludedTerm rf"
  by (simp_all add: notifyApplier_def)

lemma getFirstLogIndex_eq [simp]: "getFirstLogIndex rf = lastIncludedIndex rf"
  by (simp add: getFirstLogIndex_def)

section \<open>The log as a total function\<close>

definition termAt :: "int \<Rightarrow> ('c, 's) Raft \<Rightarrow> int" where
  "termAt i rf =
     (if lastIncludedIndex rf \<le> i \<and> i \<le> getLastLogIndex rf
      then EntryTerm (logs rf ! nat (i - lastIncludedIndex rf)) else -1)"

lemma getLogTerm_eq [simp]: "logs rf \<noteq> [] \<Longrightarrow> getLogTerm i rf = Some (termAt i rf)"
  using go_len_pos_iff [of "logs rf"]
  by (auto simp: getLogTerm_def termAt_def getLastLogIndex_def go_index_def Let_def)

lemma getLogTerm_last_total: "getLogTerm (getLastLogIndex rf) rf \<noteq> None"
proof (cases "logs rf = []")
  case True
  then show ?thesis by (simp add: getLogTerm_def getLastLogIndex_def Let_def)
qed simp

lemma last_index_cong:
  "logs rf' = logs rf \<Longrightarrow> lastIncludedIndex rf' = lastIncludedIndex rf \<Longrightarrow>
   getLastLogIndex rf' = getLastLogIndex rf"
  by (simp add: getLastLogIndex_def)

lemma last_index_simps [simp]:
  "getLastLogIndex (persist rf) = getLastLogIndex rf"
  "getLastLogIndex (beat rf) = getLastLogIndex rf"
  "getLastLogIndex (notifyApplier rf) = getLastLogIndex rf"
  "getLastLogIndex (rf\<lparr>currentTerm := ct\<rparr>) = getLastLogIndex rf"
  "getLastLogIndex (rf\<lparr>votedFor := vf\<rparr>) = getLastLogIndex rf"
  "getLastLogIndex (rf\<lparr>state := st\<rparr>) = getLastLogIndex rf"
  "getLastLogIndex (rf\<lparr>commitIndex := i\<rparr>) = getLastLogIndex rf"
  "getLastLogIndex (rf\<lparr>lastApplied := i\<rparr>) = getLastLogIndex rf"
  "getLastLogIndex (rf\<lparr>nextIndex := ni\<rparr>) = getLastLogIndex rf"
  "getLastLogIndex (rf\<lparr>matchIndex := mi\<rparr>) = getLastLogIndex rf"
  "getLastLogIndex (rf\<lparr>startCh := q\<rparr>) = getLastLogIndex rf"
  by (simp_all add: getLastLogIndex_def)

lemma termAt_simps [simp]:
  "termAt i (persist rf) = termAt i rf"
  "termAt i (beat rf) = termAt i rf"
  "termAt i (notifyApplier rf) = termAt i rf"
  "termAt i (rf\<lparr>currentTerm := ct\<rparr>) = termAt i rf"
  "termAt i (rf\<lparr>votedFor := vf\<rparr>) = termAt i rf"
  "termAt i (rf\<lparr>state := st\<rparr>) = termAt i rf"
  "termAt i (rf\<lparr>commitIndex := c\<rparr>) = termAt i rf"
  "termAt i (rf\<lparr>lastApplied := a\<rparr>) = termAt i rf"
  "termAt i (rf\<lparr>nextIndex := ni\<rparr>) = termAt i rf"
  "termAt i (rf\<lparr>matchIndex := mi\<rparr>) = termAt i rf"
  by (simp_all add: termAt_def)

section \<open>The invariants\<close>

definition raft_wf :: "('c, 's) Raft \<Rightarrow> bool" where
  "raft_wf rf \<longleftrightarrow>
     logs rf \<noteq> [] \<and> 0 \<le> currentTerm rf \<and> 0 \<le> me rf \<and> me rf < npeers rf \<and>
     length (nextIndex rf) = nat (npeers rf) \<and> length (matchIndex rf) = nat (npeers rf) \<and>
     0 \<le> lastIncludedIndex rf \<and> lastIncludedIndex rf \<le> lastApplied rf \<and>
     commitIndex rf \<le> getLastLogIndex rf \<and>
     EntryTerm (logs rf ! 0) = lastIncludedTerm rf \<and> EntryCommand (logs rf ! 0) = None \<and>
     length (heartbeatCh rf) \<le> 1 \<and> length (startCh rf) \<le> 1 \<and> length (applySignal rf) \<le> 1"

definition durable :: "('c, 's) Raft \<Rightarrow> bool" where
  "durable rf \<longleftrightarrow>
     raftstate (persister rf) = encodeState rf \<or>
     raftstate (persister rf) = [] \<and> currentTerm rf = 0 \<and> votedFor rf = -1 \<and>
       logs rf = [\<lparr>EntryTerm = 0, EntryCommand = None\<rparr>] \<and>
       lastIncludedIndex rf = 0 \<and> lastIncludedTerm rf = 0"

lemma raft_wfD:
  assumes "raft_wf rf"
  shows "logs rf \<noteq> []" "0 \<le> currentTerm rf" "0 \<le> me rf" "me rf < npeers rf"
    "go_len (nextIndex rf) = npeers rf" "go_len (matchIndex rf) = npeers rf"
    "commitIndex rf \<le> getLastLogIndex rf" "lastIncludedIndex rf \<le> getLastLogIndex rf"
  using assms go_len_ge1_iff [of "logs rf"]
  by (auto simp: raft_wf_def go_len_def getLastLogIndex_def)

lemma durable_persist [simp]: "durable (persist rf)"
  by (simp add: durable_def persist_def encodeState_def Save_def Let_def)

text \<open>The fields \<open>durable\<close> reads.\<close>

lemma durable_cong:
  "durable rf \<Longrightarrow> persister rf' = persister rf \<Longrightarrow> currentTerm rf' = currentTerm rf \<Longrightarrow>
   votedFor rf' = votedFor rf \<Longrightarrow> logs rf' = logs rf \<Longrightarrow>
   lastIncludedIndex rf' = lastIncludedIndex rf \<Longrightarrow> lastIncludedTerm rf' = lastIncludedTerm rf \<Longrightarrow>
   durable rf'"
  by (simp add: durable_def encodeState_def)


text \<open>Both together, and the shape every operation's lemma has: from a well-formed peer the
  operation returns, and the peer it leaves behind is well-formed, keeps its identity and does not
  go back in time.\<close>

definition raft_inv :: "('c, 's) Raft \<Rightarrow> bool" where
  "raft_inv rf \<longleftrightarrow> raft_wf rf \<and> durable rf"

definition advances :: "('c, 's) Raft \<Rightarrow> ('c, 's) Raft \<Rightarrow> bool" where
  "advances rf rf' \<longleftrightarrow>
     currentTerm rf \<le> currentTerm rf' \<and> lastIncludedIndex rf \<le> lastIncludedIndex rf' \<and>
     lastApplied rf \<le> lastApplied rf' \<and> me rf' = me rf \<and> npeers rf' = npeers rf"

lemma advances_refl [simp, intro]: "advances rf rf"
  by (simp add: advances_def)

lemma advances_trans: "advances rf rf' \<Longrightarrow> advances rf' rf'' \<Longrightarrow> advances rf rf''"
  by (auto simp: advances_def)

definition steps_ok :: "('c, 's) Raft \<Rightarrow> ('c, 's) Raft \<Rightarrow> bool" where
  "steps_ok rf rf' \<longleftrightarrow> raft_inv rf' \<and> advances rf rf'"

lemma steps_ok_refl: "raft_inv rf \<Longrightarrow> steps_ok rf rf"
  by (simp add: steps_ok_def)

text \<open>Adopting a later term as a follower, which six places of the code do.\<close>

lemma wf_adopt_term:
  "raft_wf rf \<Longrightarrow> currentTerm rf \<le> ct \<Longrightarrow>
   raft_wf (persist (rf\<lparr>currentTerm := ct, state := st, votedFor := vf\<rparr>))"
  by (simp add: raft_wf_def)

lemma wf_vote:
  "raft_wf rf \<Longrightarrow> currentTerm rf \<le> ct \<Longrightarrow>
   raft_wf (persist (rf\<lparr>votedFor := vf, currentTerm := ct, state := st\<rparr>))"
  by (simp add: raft_wf_def)

lemma wf_beat [simp]: "raft_wf rf \<Longrightarrow> raft_wf (beat rf)"
  using length_chan_offer [of "heartbeatCh rf" 1 True] by (auto simp: raft_wf_def beat_def getLastLogIndex_def)

lemma wf_notify [simp]: "raft_wf rf \<Longrightarrow> raft_wf (notifyApplier rf)"
  using length_chan_offer [of "applySignal rf" 1 "()"]
  by (auto simp: raft_wf_def notifyApplier_def getLastLogIndex_def)

lemma durable_beat [simp]: "durable (beat rf) = durable rf"
  by (simp add: durable_def encodeState_def)

lemma durable_notify [simp]: "durable (notifyApplier rf) = durable rf"
  by (simp add: durable_def encodeState_def)

section \<open>RequestVote\<close>

lemma RequestVote_ok:
  assumes "raft_inv rf"
  shows "returns (RequestVote args rf) (\<lambda>(rf', reply). steps_ok rf rf')"
proof (cases "rvTerm args < currentTerm rf")
  case True
  with assms show ?thesis by (simp add: RequestVote_def steps_ok_refl)
next
  case False
  define rf1 where "rf1 = (if rvTerm args > currentTerm rf
    then persist (rf\<lparr>votedFor := -1, currentTerm := rvTerm args, state := Follower\<rparr>) else rf)"
  have rf1: "raft_wf rf1" "durable rf1" "advances rf rf1" "currentTerm rf1 \<le> rvTerm args"
    using assms False by (auto simp: rf1_def wf_vote advances_def raft_inv_def)
  then have "steps_ok rf rf1"
    and "steps_ok rf (beat (persist (rf1\<lparr>votedFor := vf, currentTerm := rvTerm args,
                                         state := Follower\<rparr>)))" for vf
    by (auto simp: steps_ok_def raft_inv_def wf_vote advances_def)
  then show ?thesis
    using False raft_wfD(1) [OF rf1(1)] by (simp add: RequestVote_def rf1_def [symmetric] Let_def)
qed

section \<open>AppendEntries\<close>

text \<open>The reference for the overlap loop: where the terms differ, what is left of the local log
  is replaced by what is left of the entries.\<close>

fun log_merge :: "'c Entry list \<Rightarrow> 'c Entry list \<Rightarrow> 'c Entry list" where
  "log_merge old [] = old"
| "log_merge [] (e # es) = e # es"
| "log_merge (x # old) (e # es) =
     (if EntryTerm x = EntryTerm e then x # log_merge old es else e # es)"

lemma length_log_merge: "length es \<le> length (log_merge old es)"
  by (induction old es rule: log_merge.induct) auto

lemma log_merge_terms:
  "i < length es \<Longrightarrow> EntryTerm (log_merge old es ! i) = EntryTerm (es ! i)"
  by (induction old es arbitrary: i rule: log_merge.induct) (auto simp: nth_Cons split: nat.splits)

text \<open>Entries that agree with the local log change nothing.\<close>

lemma log_merge_no_conflict:
  "(\<And>i. i < length old \<Longrightarrow> i < length es \<Longrightarrow> EntryTerm (old ! i) = EntryTerm (es ! i)) \<Longrightarrow>
   log_merge old es = old @ drop (length old) es"
proof (induction old es rule: log_merge.induct)
  case (3 x old e es)
  have "EntryTerm (old ! i) = EntryTerm (es ! i)" if "i < length old" "i < length es" for i
    using "3.prems" [of "Suc i"] that by simp
  moreover have "EntryTerm x = EntryTerm e"
    using "3.prems" [of 0] by simp
  ultimately show ?case using "3.IH" by simp
qed auto

abbreviation merged_logs :: "'c Entry list \<Rightarrow> int \<Rightarrow> ('c, 's) Raft \<Rightarrow> 'c Entry list" where
  "merged_logs es i rf \<equiv>
     take (nat (i - lastIncludedIndex rf)) (logs rf) @
     log_merge (drop (nat (i - lastIncludedIndex rf)) (logs rf)) es"

lemma merge_entries_eq:
  assumes "lastIncludedIndex rf < i" "i \<le> getLastLogIndex rf + 1" "logs rf \<noteq> []"
  shows "merge_entries es i rf =
    Some (if merged_logs es i rf = logs rf then rf else persist (rf\<lparr>logs := merged_logs es i rf\<rparr>))"
  using assms
proof (induction es arbitrary: i)
  case (Cons e es)
  let ?k = "nat (i - lastIncludedIndex rf)"
  show ?case
  proof (cases "i > getLastLogIndex rf")
    case True
    with Cons.prems have "?k = length (logs rf)"
      by (simp add: getLastLogIndex_def go_len_def)
    with True show ?thesis by simp
  next
    case False
    then have k: "?k < length (logs rf)" and kp: "nat (i + 1 - lastIncludedIndex rf) = Suc ?k"
      using Cons.prems by (simp_all add: getLastLogIndex_def go_len_def)
    have split: "drop ?k (logs rf) = logs rf ! ?k # drop (Suc ?k) (logs rf)"
      using k by (simp add: Cons_nth_drop_Suc)
    have t: "termAt i rf = EntryTerm (logs rf ! ?k)"
      using False Cons.prems by (simp add: termAt_def)
    show ?thesis
    proof (cases "EntryTerm (logs rf ! ?k) = EntryTerm e")
      case True
      with Cons.IH [of "i + 1"] Cons.prems False show ?thesis
        by (simp add: t kp split take_Suc_conv_app_nth [OF k])
    next
      case differ: False
      then have "take ?k (logs rf) @ e # es \<noteq> logs rf"
        using k by (auto dest: arg_cong [of _ _ "\<lambda>xs. xs ! ?k"] simp: nth_append)
      with differ False Cons.prems k show ?thesis
        by (simp add: t split go_upto_def go_len_def)
    qed
  qed
qed simp


text \<open>The scan stops right after the first entry, going down from \<open>i\<close>, whose term is below the
  conflicting one.\<close>

lemma conflict_scan_spec:
  assumes "logs rf \<noteq> []"
  shows "returns (conflict_scan ct i rf) (\<lambda>j.
    j \<le> i \<and> min i (lastIncludedIndex rf) \<le> j \<and>
    (\<forall>m. j < m \<and> m \<le> i \<longrightarrow> ct \<le> termAt m rf) \<and>
    (lastIncludedIndex rf < j \<longrightarrow> termAt j rf < ct))"
  using assms
proof (induction ct i rf rule: conflict_scan.induct)
  case (1 ct i rf)
  show ?case
  proof (cases "i > lastIncludedIndex rf \<and> \<not> termAt i rf < ct")
    case True
    with 1 have "returns (conflict_scan ct (i - 1) rf) (\<lambda>j.
        j \<le> i - 1 \<and> min (i - 1) (lastIncludedIndex rf) \<le> j \<and>
        (\<forall>m. j < m \<and> m \<le> i - 1 \<longrightarrow> ct \<le> termAt m rf) \<and>
        (lastIncludedIndex rf < j \<longrightarrow> termAt j rf < ct))"
      by simp
    moreover have "conflict_scan ct i rf = conflict_scan ct (i - 1) rf"
      using True "1.prems" by (simp add: conflict_scan.simps [of ct i])
    moreover have "m = i \<or> m \<le> i - 1" if "m \<le> i" for m
      using that by linarith
    ultimately show ?thesis
      using True by (auto elim!: returns_mono simp del: zle_diff1_eq) (metis not_less)+
  next
    case False
    with "1.prems" show ?thesis by (auto simp: conflict_scan.simps [of ct i])
  qed
qed

lemma last_index_logs: "getLastLogIndex (rf\<lparr>logs := l\<rparr>) = lastIncludedIndex rf + go_len l - 1"
  by (simp add: getLastLogIndex_def)

lemma follow_commit_fields [simp, raft_fields]:
  "npeers (follow_commit a rf) = npeers rf" "me (follow_commit a rf) = me rf"
  "persister (follow_commit a rf) = persister rf"
  "currentTerm (follow_commit a rf) = currentTerm rf" "votedFor (follow_commit a rf) = votedFor rf"
  "logs (follow_commit a rf) = logs rf" "state (follow_commit a rf) = state rf"
  "lastApplied (follow_commit a rf) = lastApplied rf"
  "nextIndex (follow_commit a rf) = nextIndex rf" "matchIndex (follow_commit a rf) = matchIndex rf"
  "lastIncludedIndex (follow_commit a rf) = lastIncludedIndex rf"
  "lastIncludedTerm (follow_commit a rf) = lastIncludedTerm rf"
  by (simp_all add: follow_commit_def Let_def)

lemma follow_commit_min:
  "follow_commit a rf = notifyApplier
     (rf\<lparr>commitIndex := min (LeaderCommit a) (PrevLogIndex a + go_len (Entries a))\<rparr>)"
  by (auto simp: follow_commit_def Let_def min_def)

lemma commitIndex_follow_commit [simp]:
  "commitIndex (follow_commit a rf) = min (LeaderCommit a) (PrevLogIndex a + go_len (Entries a))"
  by (simp add: follow_commit_min)

text \<open>A successful append leaves a peer well-formed when the log reaches the last new entry.\<close>

lemma follow_commit_ok:
  assumes "raft_wf rf" "durable (rf\<lparr>persister := ps, logs := l\<rparr>)" "l \<noteq> []" "l ! 0 = logs rf ! 0"
    and "PrevLogIndex a + go_len (Entries a) \<le> lastIncludedIndex rf + go_len l - 1"
  shows "raft_inv (follow_commit a (rf\<lparr>persister := ps, logs := l\<rparr>))"
proof -
  have "raft_wf (rf\<lparr>persister := ps, logs := l,
          commitIndex := min (LeaderCommit a) (PrevLogIndex a + go_len (Entries a))\<rparr>)"
    using assms by (auto simp: raft_wf_def getLastLogIndex_def)
  moreover have "durable (rf\<lparr>persister := ps, logs := l, commitIndex := c\<rparr>)" for c
    using assms(2) by (simp add: durable_def encodeState_def)
  ultimately show ?thesis
    by (simp add: raft_inv_def follow_commit_min)
qed

lemma persist_logs_eq:
  "\<exists>ps. persist (rf\<lparr>logs := l\<rparr>) = rf\<lparr>persister := ps, logs := l\<rparr> \<and>
        durable (rf\<lparr>persister := ps, logs := l\<rparr>)"
proof -
  have "persist (rf\<lparr>logs := l\<rparr>) = rf\<lparr>persister := persister (persist (rf\<lparr>logs := l\<rparr>)), logs := l\<rparr>"
    by (simp add: persist_def Let_def)
  then show ?thesis by (metis durable_persist)
qed

lemma merged_logs_props:
  assumes "raft_wf rf" "lastIncludedIndex rf < i" "i \<le> getLastLogIndex rf + 1"
  shows "merged_logs es i rf \<noteq> []" "merged_logs es i rf ! 0 = logs rf ! 0"
    "i + go_len es - 1 \<le> lastIncludedIndex rf + go_len (merged_logs es i rf) - 1"
proof -
  let ?k = "nat (i - lastIncludedIndex rf)"
  have k: "0 < ?k" "?k \<le> length (logs rf)"
    using assms by (simp_all add: getLastLogIndex_def go_len_def)
  then show "merged_logs es i rf \<noteq> []" "merged_logs es i rf ! 0 = logs rf ! 0"
    using raft_wfD(1) [OF assms(1)] by (auto simp: nth_append)
  have "?k + length es \<le> length (merged_logs es i rf)"
    using k length_log_merge [of es "drop ?k (logs rf)"] by simp
  then show "i + go_len es - 1 \<le> lastIncludedIndex rf + go_len (merged_logs es i rf) - 1"
    using assms(2) by (simp add: go_len_def)
qed

lemma merge_follow_ok:
  assumes "raft_inv rf" "lastIncludedIndex rf \<le> PrevLogIndex a" "PrevLogIndex a \<le> getLastLogIndex rf"
  shows "returns (merge_entries (Entries a) (PrevLogIndex a + 1) rf)
           (\<lambda>rf'. raft_inv (follow_commit a rf') \<and> advances rf rf')"
proof -
  let ?i = "PrevLogIndex a + 1" and ?es = "Entries a"
  have wf: "raft_wf rf" and dur: "durable rf"
    using assms(1) by (simp_all add: raft_inv_def)
  have i: "lastIncludedIndex rf < ?i" "?i \<le> getLastLogIndex rf + 1"
    using assms by simp_all
  note props = merged_logs_props [OF wf i]
  have "raft_inv (follow_commit a (rf\<lparr>persister := ps, logs := merged_logs ?es ?i rf\<rparr>))"
    if "durable (rf\<lparr>persister := ps, logs := merged_logs ?es ?i rf\<rparr>)" for ps
    using props [of ?es] by (intro follow_commit_ok [OF wf that]) simp_all
  moreover have "raft_inv (follow_commit a rf)" if "merged_logs ?es ?i rf = logs rf"
    using follow_commit_ok [OF wf, where ps = "persister rf" and l = "logs rf" and a = a] dur props [of ?es] that
      raft_wfD(1) [OF wf] by simp
  ultimately show ?thesis
    using merge_entries_eq [OF i raft_wfD(1) [OF wf], of ?es] persist_logs_eq [where rf = rf and l = "merged_logs ?es ?i rf"]
    by (auto simp: advances_def)
qed

lemma AppendEntries_ok:
  assumes "raft_inv rf"
  shows "returns (AppendEntries args rf) (\<lambda>(rf', reply). steps_ok rf rf')"
proof (cases "aeTerm args < currentTerm rf")
  case True
  with assms show ?thesis by (simp add: AppendEntries_def steps_ok_refl Let_def)
next
  case False
  define rf1 where "rf1 = beat (persist (rf\<lparr>currentTerm := aeTerm args, state := Follower,
                                            votedFor := -1\<rparr>))"
  have rf1: "raft_inv rf1" "advances rf rf1"
    using assms False by (auto simp: rf1_def wf_adopt_term advances_def raft_inv_def)
  then have ne: "logs rf1 \<noteq> []" and step1: "steps_ok rf rf1"
    by (auto simp: raft_inv_def steps_ok_def dest: raft_wfD)
  have app: "steps_ok rf (follow_commit args (persist (rf1\<lparr>logs := logs rf1 @ Entries args\<rparr>)))"
    if "PrevLogIndex args = getLastLogIndex rf1"
  proof -
    obtain ps where ps: "persist (rf1\<lparr>logs := logs rf1 @ Entries args\<rparr>) =
        rf1\<lparr>persister := ps, logs := logs rf1 @ Entries args\<rparr>"
      "durable (rf1\<lparr>persister := ps, logs := logs rf1 @ Entries args\<rparr>)"
      using persist_logs_eq [where rf = rf1 and l = "logs rf1 @ Entries args"] by blast
    have "raft_inv (follow_commit args (rf1\<lparr>persister := ps, logs := logs rf1 @ Entries args\<rparr>))"
      using rf1 ne that by (intro follow_commit_ok ps)
        (auto simp: raft_inv_def nth_append getLastLogIndex_def)
    with rf1 ps show ?thesis
      by (simp add: steps_ok_def advances_def)
  qed
  have mrg: "returns (merge_entries (Entries args) (PrevLogIndex args + 1) rf1)
               (\<lambda>rf'. steps_ok rf (follow_commit args rf'))"
    if "PrevLogIndex args \<le> getLastLogIndex rf1" "lastIncludedIndex rf1 \<le> PrevLogIndex args"
    using rf1(2) by (intro returns_mono [OF merge_follow_ok [OF rf1(1) that(2,1)]])
      (auto simp: steps_ok_def advances_def)
  have scan: "returns (conflict_scan ct i rf1) (\<lambda>_. steps_ok rf rf1)" for ct i
    using conflict_scan_spec [OF ne] step1 by (auto intro: returns_mono)
  show ?thesis
    using False ne step1 app mrg scan
    by (simp add: AppendEntries_def rf1_def [symmetric] Let_def)
qed


section \<open>Snapshots\<close>

lemma durable_Save [simp]:
  "durable (rf\<lparr>persister := Save (encodeState rf) sn ps\<rparr>)"
  by (simp add: durable_def encodeState_def Save_def)

text \<open>Keeping the suffix of the log from \<open>i\<close> on leaves the last index where it was.\<close>

lemma last_index_drop:
  assumes "lastIncludedIndex rf \<le> i" "i \<le> getLastLogIndex rf"
  shows "i + go_len (drop (nat (i - lastIncludedIndex rf)) (logs rf)) - 1 = getLastLogIndex rf"
    "drop (nat (i - lastIncludedIndex rf)) (logs rf) \<noteq> []"
    "drop (nat (i - lastIncludedIndex rf)) (logs rf) ! 0 = logs rf ! nat (i - lastIncludedIndex rf)"
  using assms by (auto simp: getLastLogIndex_def go_len_def)

lemma wf_compact:
  assumes "raft_wf rf" "npeers rf' = npeers rf" "me rf' = me rf" "currentTerm rf \<le> currentTerm rf'"
    "nextIndex rf' = nextIndex rf" "matchIndex rf' = matchIndex rf"
    "heartbeatCh rf' = heartbeatCh rf" "startCh rf' = startCh rf" "applySignal rf' = applySignal rf"
    "lastIncludedIndex rf \<le> lastIncludedIndex rf'" "lastIncludedIndex rf' \<le> lastApplied rf'"
    "logs rf' \<noteq> []" "EntryTerm (logs rf' ! 0) = lastIncludedTerm rf'" "EntryCommand (logs rf' ! 0) = None"
    "commitIndex rf' \<le> lastIncludedIndex rf' + go_len (logs rf') - 1"
  shows "raft_wf rf'"
  using assms by (auto simp: raft_wf_def getLastLogIndex_def)

lemma Snapshot_ok:
  assumes "raft_inv rf"
  shows "returns (Snapshot index snap rf) (\<lambda>rf'. steps_ok rf rf')"
proof (cases "index \<le> lastIncludedIndex rf")
  case True
  with assms show ?thesis by (simp add: Snapshot_def steps_ok_refl)
next
  case False
  have wf: "raft_wf rf" using assms by (simp add: raft_inv_def)
  note facts = raft_wfD [OF wf] last_index_drop [of rf index] False
  have rel: "nat (index - lastIncludedIndex rf) < length (logs rf)"
    if "index - lastIncludedIndex rf < go_len (logs rf)"
    using that False by (simp add: go_len_def)
  have "returns (Snapshot index snap rf) (\<lambda>rf'. raft_wf rf' \<and> durable rf')"
    using facts wf go_len_ge1_iff [of "logs rf"]
    by (auto simp: Snapshot_def Let_def getLastLogIndex_def go_len_drop intro!: wf_compact [OF wf])
  moreover have "returns (Snapshot index snap rf) (\<lambda>rf'. advances rf rf')"
    using False rel raft_wfD(1) [OF wf] by (simp add: Snapshot_def Let_def advances_def not_le)
  ultimately have "returns (Snapshot index snap rf)
      (\<lambda>rf'. (raft_wf rf' \<and> durable rf') \<and> advances rf rf')"
    by (rule returns_conj)
  then show ?thesis by (simp add: steps_ok_def raft_inv_def)
qed

text \<open>A snapshot below what the peer has applied is installed too when the commit index has gone
  back, so this operation advances the peer only where the commit index covers what is applied.\<close>

lemma matchLog_eq:
  "logs rf \<noteq> [] \<Longrightarrow> matchLog i t rf =
     Some (lastIncludedIndex rf < i \<and> i \<le> getLastLogIndex rf \<and> termAt i rf = t)"
  by (auto simp: matchLog_def)

lemma install_compact_ok:
  assumes wf: "raft_wf rf" and pos: "0 \<le> isLastIncludedIndex args"
    and fresh: "\<not> isTerm args < currentTerm rf" "\<not> isTerm args > currentTerm rf"
      "\<not> isLastIncludedIndex args \<le> commitIndex rf"
  shows "returns (InstallSnapshot args rf) (\<lambda>(rf', reply, msg). raft_inv rf' \<and>
           currentTerm rf' = currentTerm rf \<and> me rf' = me rf \<and> npeers rf' = npeers rf \<and>
           lastIncludedIndex rf' = isLastIncludedIndex args \<and> lastApplied rf' = isLastIncludedIndex args)"
proof -
  let ?i = "isLastIncludedIndex args"
  note ne = raft_wfD(1) [OF wf]
  show ?thesis
  proof (cases "lastIncludedIndex rf < ?i \<and> ?i \<le> getLastLogIndex rf \<and> termAt ?i rf = isLastIncludedTerm args")
    case True
    then have t: "EntryTerm (logs rf ! nat (?i - lastIncludedIndex rf)) = isLastIncludedTerm args"
      by (auto simp: termAt_def split: if_splits)
    have rel: "0 \<le> ?i - lastIncludedIndex rf" "?i - lastIncludedIndex rf < go_len (logs rf)"
      using True by (simp_all add: getLastLogIndex_def)
    show ?thesis
      using True wf fresh ne t rel pos last_index_drop [of rf ?i]
      by (auto simp: InstallSnapshot_def Let_def matchLog_eq raft_inv_def raft_wf_def getLastLogIndex_def)
  next
    case False
    then show ?thesis
      using wf fresh ne pos
      by (simp add: InstallSnapshot_def Let_def matchLog_eq raft_inv_def raft_wf_def getLastLogIndex_def
          del: de_Morgan_conj)
  qed
qed

lemma InstallSnapshot_ok:
  assumes "raft_inv rf" "0 \<le> isLastIncludedIndex args"
  shows "returns (InstallSnapshot args rf) (\<lambda>(rf', reply, msg).
    raft_inv rf' \<and> (lastApplied rf \<le> commitIndex rf \<longrightarrow> advances rf rf'))"
proof (cases "isTerm args > currentTerm rf")
  case True
  let ?rf = "persist (rf\<lparr>currentTerm := isTerm args, state := Follower, votedFor := -1\<rparr>)"
  have wf: "raft_wf ?rf" "advances rf ?rf"
    using assms True by (auto simp: raft_inv_def wf_adopt_term advances_def)
  have "InstallSnapshot args rf = InstallSnapshot args ?rf"
    using True by (simp add: InstallSnapshot_def Let_def)
  moreover have "returns (InstallSnapshot args ?rf) (\<lambda>(rf', reply, msg).
      raft_inv rf' \<and> (lastApplied rf \<le> commitIndex rf \<longrightarrow> advances rf rf'))"
  proof (cases "isLastIncludedIndex args \<le> commitIndex rf")
    case True
    with wf show ?thesis by (simp add: InstallSnapshot_def Let_def raft_inv_def)
  next
    case False
    with wf assms(1) show ?thesis
      by (intro returns_mono [OF install_compact_ok [OF wf(1) assms(2)]])
        (auto simp: advances_def raft_inv_def raft_wf_def)
  qed
  ultimately show ?thesis by simp
next
  case False
  show ?thesis
  proof (cases "isTerm args < currentTerm rf \<or> isLastIncludedIndex args \<le> commitIndex rf")
    case True
    with False assms show ?thesis by (auto simp: InstallSnapshot_def Let_def)
  next
    case fresh: False
    with False assms show ?thesis
      by (intro returns_mono [OF install_compact_ok [OF _ assms(2)]])
        (auto simp: advances_def raft_inv_def raft_wf_def)
  qed
qed

section \<open>Elections and the leader's replies\<close>

lemma StartElection_ok:
  assumes "raft_inv rf"
  shows "returns (StartElection rf) (\<lambda>(rf', args). steps_ok rf rf')"
proof -
  have "steps_ok rf (persist (rf\<lparr>state := Candidate, currentTerm := currentTerm rf + 1,
                                  votedFor := me rf\<rparr>))"
    using assms by (auto simp: steps_ok_def raft_inv_def raft_wf_def advances_def)
  then show ?thesis
    using assms by (auto simp: StartElection_def Let_def raft_inv_def raft_wf_def)
qed

lemma adopt_term_ok:
  "raft_inv rf \<Longrightarrow> currentTerm rf \<le> ct \<Longrightarrow>
   steps_ok rf (persist (rf\<lparr>currentTerm := ct, state := st, votedFor := vf\<rparr>))"
  by (auto simp: steps_ok_def raft_inv_def wf_adopt_term advances_def)

text \<open>Operations that only touch the volatile fields of a leader.\<close>

lemma volatile_ok:
  assumes "raft_inv rf" "npeers rf' = npeers rf" "me rf' = me rf" "currentTerm rf' = currentTerm rf"
    "votedFor rf' = votedFor rf" "logs rf' = logs rf" "persister rf' = persister rf"
    "commitIndex rf' \<le> getLastLogIndex rf" "lastApplied rf \<le> lastApplied rf'"
    "lastIncludedIndex rf' = lastIncludedIndex rf" "lastIncludedTerm rf' = lastIncludedTerm rf"
    "length (nextIndex rf') = nat (npeers rf)" "length (matchIndex rf') = nat (npeers rf)"
    "length (heartbeatCh rf') \<le> 1" "length (startCh rf') \<le> 1" "length (applySignal rf') \<le> 1"
  shows "steps_ok rf rf'"
  using assms
  by (auto simp: steps_ok_def raft_inv_def raft_wf_def advances_def durable_def encodeState_def
      getLastLogIndex_def)

lemma handleVoteReply_ok:
  assumes "raft_inv rf"
  shows "returns (handleVoteReply args reply el rf) (\<lambda>(rf', el', b). steps_ok rf rf')"
proof -
  have wf: "raft_wf rf" using assms by (simp add: raft_inv_def)
  then show ?thesis
    using assms raft_wfD [OF wf]
    by (auto simp: handleVoteReply_def Let_def go_fill_eq steps_ok_refl adopt_term_ok
        go_len_def raft_wf_def intro!: volatile_ok)
qed

lemma Start_ok:
  assumes "raft_inv rf"
  shows "returns (Start cmd rf) (\<lambda>(rf', index, trm, isLeader). steps_ok rf rf')"
proof (cases "state rf = Leader")
  case True
  let ?rf = "persist (rf\<lparr>logs := logs rf @ [\<lparr>EntryTerm = currentTerm rf, EntryCommand = Some cmd\<rparr>]\<rparr>)"
  have wf: "raft_wf rf" using assms by (simp add: raft_inv_def)
  then have inv: "raft_inv ?rf" and adv: "advances rf ?rf"
    by (auto simp: raft_inv_def raft_wf_def advances_def getLastLogIndex_def nth_append)
  have "steps_ok ?rf (?rf\<lparr>matchIndex := (matchIndex rf)[i := m],
                          startCh := chan_offer 1 True (startCh rf)\<rparr>)" for i m
    using inv wf by (intro volatile_ok)
      (auto simp: raft_wf_def raft_inv_def chan_offer_def)
  then show ?thesis
    using True raft_wfD [OF wf] adv
    by (auto simp: Start_def Let_def steps_ok_def intro: advances_trans)
qed (use assms in \<open>simp add: Start_def steps_ok_refl\<close>)


lemma length_sort_nth: "0 \<le> m \<Longrightarrow> m < go_len xs \<Longrightarrow> returns (go_index (sort xs) m) (\<lambda>n. n \<in> set xs)"
proof -
  assume "0 \<le> m" "m < go_len xs"
  then have "nat m < length (sort xs)" by (simp add: go_len_def)
  then have "sort xs ! nat m \<in> set (sort xs)" by (rule nth_mem)
  with \<open>0 \<le> m\<close> \<open>m < go_len xs\<close> show ?thesis by (simp add: go_len_def)
qed

lemma commit_ok:
  assumes "raft_inv rf"
  shows "returns (commit rf) (\<lambda>rf'. steps_ok rf rf')"
proof -
  have wf: "raft_wf rf" using assms by (simp add: raft_inv_def)
  note facts = raft_wfD [OF wf]
  let ?n = "npeers rf"
  have target: "go_div (?n - 1) 2 = (?n - 1) div 2" "0 \<le> (?n - 1) div 2" "(?n - 1) div 2 < ?n"
    using facts by (auto simp: go_div_nonneg)
  have "steps_ok rf (notifyApplier (rf\<lparr>commitIndex := n\<rparr>))" if "termAt n rf = currentTerm rf" for n
  proof -
    have "n \<le> getLastLogIndex rf"
      using that facts by (simp add: termAt_def split: if_splits)
    with assms wf show ?thesis
      by (intro volatile_ok) (auto simp: raft_wf_def notifyApplier_def chan_offer_def)
  qed
  then show ?thesis
    using assms facts target by (simp add: commit_def Let_def steps_ok_refl go_len_def [of "sort _"])
      (simp add: go_len_def)
qed

lemma handleAppendEntriesReply_ok:
  assumes "raft_inv rf" "0 \<le> server" "server < npeers rf"
  shows "returns (handleAppendEntriesReply server args reply rf) (\<lambda>rf'. steps_ok rf rf')"
proof -
  have wf: "raft_wf rf" using assms by (simp add: raft_inv_def)
  note facts = raft_wfD [OF wf]
  have upd: "steps_ok rf (rf\<lparr>nextIndex := (nextIndex rf)[i := x]\<rparr>)"
    and upd2: "steps_ok rf (rf\<lparr>nextIndex := (nextIndex rf)[i := x], matchIndex := (matchIndex rf)[j := y]\<rparr>)"
    for i j x y
    using assms wf by (auto simp: raft_wf_def intro!: volatile_ok)
  have "returns (commit (rf\<lparr>nextIndex := (nextIndex rf)[i := x], matchIndex := (matchIndex rf)[j := y]\<rparr>))
          (\<lambda>rf'. steps_ok rf rf')" for i j x y
    using upd2 [where i = i and x = x and j = j and y = y] commit_ok by (auto simp: steps_ok_def intro: returns_mono advances_trans)
  then show ?thesis
    using assms facts upd by (simp add: handleAppendEntriesReply_def steps_ok_refl adopt_term_ok)
qed

lemma handleInstallSnapshotReply_ok:
  assumes "raft_inv rf" "0 \<le> server" "server < npeers rf"
  shows "returns (handleInstallSnapshotReply server args reply rf) (\<lambda>rf'. steps_ok rf rf')"
proof -
  have wf: "raft_wf rf" using assms by (simp add: raft_inv_def)
  have "steps_ok rf (rf\<lparr>matchIndex := (matchIndex rf)[j := y], nextIndex := (nextIndex rf)[i := x]\<rparr>)" for i j x y
    using assms wf by (auto simp: raft_wf_def intro!: volatile_ok)
  then show ?thesis
    using assms raft_wfD [OF wf]
    by (simp add: handleInstallSnapshotReply_def steps_ok_refl adopt_term_ok)
qed

section \<open>Broadcast and apply\<close>

lemma collect_entries_eq:
  assumes "lastIncludedIndex rf \<le> j" "j \<le> k" "k \<le> getLastLogIndex rf + 1"
  shows "collect_entries j k rf =
    Some (take (nat (k - j)) (drop (nat (j - lastIncludedIndex rf)) (logs rf)))"
  using assms
proof (induction j k rf rule: collect_entries.induct)
  case (1 j k rf)
  show ?case
  proof (cases "j < k")
    case True
    let ?d = "nat (j - lastIncludedIndex rf)"
    have d: "?d < length (logs rf)" "nat (j + 1 - lastIncludedIndex rf) = Suc ?d"
      "nat (k - j) = Suc (nat (k - (j + 1)))"
      using True "1.prems" by (simp_all add: getLastLogIndex_def go_len_def)
    have "go_index (logs rf) (j - lastIncludedIndex rf) = Some (logs rf ! ?d)"
      using d(1) "1.prems" by (simp add: go_index_def go_len_def)
    moreover have "collect_entries (j + 1) k rf =
        Some (take (nat (k - (j + 1))) (drop (Suc ?d) (logs rf)))"
      using "1.IH" [OF True] calculation True "1.prems" d(2) by simp
    ultimately show ?thesis
      using True d by (simp add: collect_entries.simps [of j k] Cons_nth_drop_Suc [OF d(1), symmetric])
  next
    case False
    with "1.prems" have "j = k" by simp
    then show ?thesis by (simp add: collect_entries.simps [of k k])
  qed
qed

text \<open>A leader whose \<^verbatim>\<open>nextIndex\<close> entry is at most one past its log can broadcast without a panic.\<close>

lemma broadcast_to_ok:
  assumes "raft_inv rf" "0 \<le> server" "server < npeers rf"
    and "nextIndex rf ! nat server \<le> getLastLogIndex rf + 1"
  shows "returns (broadcast_to server rf) (\<lambda>(rf', rpc). steps_ok rf rf')"
proof -
  have wf: "raft_wf rf" using assms by (simp add: raft_inv_def)
  note facts = raft_wfD [OF wf]
  have lii: "0 \<le> lastIncludedIndex rf" using wf by (simp add: raft_wf_def)
  have upd: "steps_ok rf (rf\<lparr>nextIndex := (nextIndex rf)[i := x]\<rparr>)" for i x
    using assms wf by (auto simp: raft_wf_def intro!: volatile_ok)
  have nth: "(nextIndex rf)[nat server := x] ! nat server = x" for x
    using assms facts(5) by (simp add: go_len_def)
  have coll: "returns (collect_entries a b (rf\<lparr>nextIndex := ni\<rparr>)) (\<lambda>_. True)"
    if "lastIncludedIndex rf < a" "a \<le> b" "b \<le> getLastLogIndex rf + 1" for a b ni
    using collect_entries_eq [of "rf\<lparr>nextIndex := ni\<rparr>" a b] that by simp
  have bs: "0 \<le> batchSize" by (simp add: batchSize_def)
  show ?thesis
  proof (cases "nextIndex rf ! nat server \<le> 0")
    case True
    then show ?thesis
      using assms facts upd coll lii bs
      by (auto simp: broadcast_to_def Let_def steps_ok_refl nth intro!: returns_mono [OF coll])
  next
    case False
    then show ?thesis
      using assms facts coll [where ni = "nextIndex rf"] lii bs
      by (auto simp: broadcast_to_def Let_def steps_ok_refl
          intro!: returns_mono [OF coll [where ni = "nextIndex rf"]])
  qed
qed

lemma applier_step_ok:
  assumes "raft_inv rf"
  shows "returns (applier_step rf) (\<lambda>(rf', msg). steps_ok rf rf')"
proof -
  have wf: "raft_wf rf" using assms by (simp add: raft_inv_def)
  have "steps_ok rf (rf\<lparr>lastApplied := lastApplied rf + 1\<rparr>)"
    using assms wf by (auto simp: raft_wf_def intro!: volatile_ok)
  then show ?thesis
    using assms wf raft_wfD [OF wf]
    by (simp add: applier_step_def Let_def steps_ok_refl) (auto simp: getLastLogIndex_def raft_wf_def)
qed

lemma Make_fresh_ok:
  assumes "0 \<le> i" "i < n"
  shows "raft_inv (Make n i MakePersister)"
  using assms by (simp add: Make_def MakePersister_def ReadRaftState_def readPersist_def raft_inv_def
      raft_wf_def durable_def getLastLogIndex_def Let_def)

lemma readPersist_encodeState:
  "readPersist (encodeState rf0) rf =
     rf\<lparr>currentTerm := currentTerm rf0, votedFor := votedFor rf0, logs := logs rf0,
        lastIncludedIndex := lastIncludedIndex rf0, lastIncludedTerm := lastIncludedTerm rf0\<rparr>"
  by (simp add: readPersist_def encodeState_def)

end
