(* ===== verification/Machine.thy ===== *)
theory Machine
  imports Prelude
begin

text \<open>
  Servers as machines. Every server of the repository is a struct guarded by one mutex, so what it
  does is a sequence of critical sections; \<open>run\<close> executes such a sequence and collects what the
  sections report to the outside. The locale \<open>machine\<close> is the contract the servers share: a
  predicate on the reports so far and the state that every admissible section keeps, without a
  panic.
\<close>

fun run :: "('e \<Rightarrow> 's \<Rightarrow> ('s \<times> 'o list) option) \<Rightarrow> 'e list \<Rightarrow> 's \<Rightarrow> ('s \<times> 'o list) option" where
  "run step [] s = Some (s, [])"
| "run step (e # es) s =
     do { (s1, os) \<leftarrow> step e s; (s2, ps) \<leftarrow> run step es s1; Some (s2, os @ ps) }"

fun admissible :: "('e \<Rightarrow> 's \<Rightarrow> ('s \<times> 'o list) option) \<Rightarrow> ('e \<Rightarrow> 's \<Rightarrow> bool) \<Rightarrow> 'e list \<Rightarrow> 's \<Rightarrow> bool" where
  "admissible step ok [] s \<longleftrightarrow> True"
| "admissible step ok (e # es) s \<longleftrightarrow>
     ok e s \<and> (case step e s of None \<Rightarrow> True | Some (s', os) \<Rightarrow> admissible step ok es s')"

lemma run_append:
  "run step (es @ fs) s =
     do { (s1, os) \<leftarrow> run step es s; (s2, ps) \<leftarrow> run step fs s1; Some (s2, os @ ps) }"
proof (induction es arbitrary: s)
  case (Cons e es)
  show ?case
    by (cases "step e s") (auto simp: Cons split: Option.bind_splits)
qed simp

lemma admissible_weaken:
  "admissible step ok es s \<Longrightarrow> (\<And>e s. ok e s \<Longrightarrow> ok' e s) \<Longrightarrow> admissible step ok' es s"
  by (induction es arbitrary: s) (auto split: option.splits)

lemma admissible_conj:
  "admissible step ok es s \<Longrightarrow> admissible step ok' es s \<Longrightarrow>
   admissible step (\<lambda>e s. ok e s \<and> ok' e s) es s"
  by (induction es arbitrary: s) (auto split: option.splits)

lemma admissible_True: "(\<And>e s. ok e s) \<Longrightarrow> admissible step ok es s"
  by (induction es arbitrary: s) (auto split: option.splits)

locale machine =
  fixes step :: "'e \<Rightarrow> 's \<Rightarrow> ('s \<times> 'o list) option"
    and ok :: "'e \<Rightarrow> 's \<Rightarrow> bool"
    and keeps :: "'o list \<Rightarrow> 's \<Rightarrow> bool"
  assumes step_keeps:
    "keeps H s \<Longrightarrow> ok e s \<Longrightarrow> returns (step e s) (\<lambda>(s', os). keeps (H @ os) s')"
begin

lemma run_keeps:
  "keeps H s \<Longrightarrow> admissible step ok es s \<Longrightarrow>
   returns (run step es s) (\<lambda>(s', os). keeps (H @ os) s')"
proof (induction es arbitrary: H s)
  case (Cons e es)
  from step_keeps [of H s e] Cons.prems obtain s1 os
    where st: "step e s = Some (s1, os)" and k: "keeps (H @ os) s1"
    by (auto elim!: returnsE)
  with Cons.prems have "admissible step ok es s1" by simp
  with Cons.IH [OF k] show ?case
    by (auto simp: st elim!: returns_mono)
qed simp

lemma run_from_start:
  "keeps [] s \<Longrightarrow> admissible step ok es s \<Longrightarrow>
   returns (run step es s) (\<lambda>(s', os). keeps os s')"
  using run_keeps [of "[]" s es] by simp

end

end
