(* ===== verification/Raft_Peer.thy ===== *)
theory Raft_Peer
  imports Raft_Inv Machine
begin

text \<open>
  What one peer promises whatever happens around it. An \<open>event\<close> is one critical section of
  \<^verbatim>\<open>raft.go\<close>: a handler, a reply, a step of a background goroutine, a call by the service, or a crash
  followed by \<^verbatim>\<open>Make\<close> on the saved state. A run of the machine \<open>peer_step\<close> is any sequence of
  them; it reports the votes the peer casts.
\<close>

datatype ('c, 's) event =
    EvRequestVote RequestVoteArgs
  | EvAppendEntries "'c AppendEntriesArgs"
  | EvInstallSnapshot "'s InstallSnapshotArgs"
  | EvStartElection
  | EvVoteReply RequestVoteArgs RequestVoteReply election
  | EvAppendReply int "'c AppendEntriesArgs" AppendEntriesReply
  | EvSnapshotReply int "'s InstallSnapshotArgs" InstallSnapshotReply
  | EvBroadcast int
  | EvStart 'c
  | EvApply
  | EvSnapshot int "'s list"
  | EvRestart

definition restart :: "('c, 's) Raft \<Rightarrow> ('c, 's) Raft" where
  "restart rf = Make (npeers rf) (me rf) (Copy (persister rf))"

fun peer_step :: "('c, 's) event \<Rightarrow> ('c, 's) Raft \<Rightarrow> (('c, 's) Raft \<times> (int \<times> int) list) option" where
  "peer_step (EvRequestVote a) rf =
     do { (rf', r) \<leftarrow> RequestVote a rf;
          Some (rf', if VoteGranted r then [(rvTerm a, CandidateId a)] else []) }"
| "peer_step (EvAppendEntries a) rf = do { (rf', r) \<leftarrow> AppendEntries a rf; Some (rf', []) }"
| "peer_step (EvInstallSnapshot a) rf = do { (rf', r, m) \<leftarrow> InstallSnapshot a rf; Some (rf', []) }"
| "peer_step EvStartElection rf =
     do { (rf', a) \<leftarrow> StartElection rf; Some (rf', [(rvTerm a, CandidateId a)]) }"
| "peer_step (EvVoteReply a r el) rf =
     do { (rf', el', b) \<leftarrow> handleVoteReply a r el rf; Some (rf', []) }"
| "peer_step (EvAppendReply i a r) rf =
     do { rf' \<leftarrow> handleAppendEntriesReply i a r rf; Some (rf', []) }"
| "peer_step (EvSnapshotReply i a r) rf =
     do { rf' \<leftarrow> handleInstallSnapshotReply i a r rf; Some (rf', []) }"
| "peer_step (EvBroadcast i) rf = do { (rf', m) \<leftarrow> broadcast_to i rf; Some (rf', []) }"
| "peer_step (EvStart c) rf = do { (rf', i, t, l) \<leftarrow> Start c rf; Some (rf', []) }"
| "peer_step EvApply rf = do { (rf', m) \<leftarrow> applier_step rf; Some (rf', []) }"
| "peer_step (EvSnapshot i sn) rf = do { rf' \<leftarrow> Snapshot i sn rf; Some (rf', []) }"
| "peer_step EvRestart rf = Some (restart rf, [])"

text \<open>What the environment owes the peer: server numbers are indices into \<^verbatim>\<open>peers\<close>, a snapshot's index
  is not negative, and a broadcast happens while \<^verbatim>\<open>nextIndex\<close> is at most one past the log.\<close>

fun event_ok :: "('c, 's) event \<Rightarrow> ('c, 's) Raft \<Rightarrow> bool" where
  "event_ok (EvInstallSnapshot a) rf \<longleftrightarrow> 0 \<le> isLastIncludedIndex a"
| "event_ok (EvAppendReply i a r) rf \<longleftrightarrow> 0 \<le> i \<and> i < npeers rf"
| "event_ok (EvSnapshotReply i a r) rf \<longleftrightarrow> 0 \<le> i \<and> i < npeers rf"
| "event_ok (EvBroadcast i) rf \<longleftrightarrow>
     0 \<le> i \<and> i < npeers rf \<and> nextIndex rf ! nat i \<le> getLastLogIndex rf + 1"
| "event_ok _ rf \<longleftrightarrow> True"

section \<open>Recovery from a crash\<close>

lemma restart_fields:
  assumes "durable rf"
  shows "currentTerm (restart rf) = currentTerm rf" "votedFor (restart rf) = votedFor rf"
    "logs (restart rf) = logs rf" "lastIncludedIndex (restart rf) = lastIncludedIndex rf"
    "lastIncludedTerm (restart rf) = lastIncludedTerm rf"
    "commitIndex (restart rf) = lastIncludedIndex rf" "lastApplied (restart rf) = lastIncludedIndex rf"
    "state (restart rf) = Follower" "persister (restart rf) = persister rf"
    "me (restart rf) = me rf" "npeers (restart rf) = npeers rf"
    "nextIndex (restart rf) = replicate (nat (npeers rf)) 1"
    "matchIndex (restart rf) = replicate (nat (npeers rf)) 0"
    "heartbeatCh (restart rf) = []" "startCh (restart rf) = []" "applySignal (restart rf) = []"
  using assms
  by (auto simp: restart_def Make_def ReadRaftState_def durable_def readPersist_encodeState Let_def)
    (simp_all add: readPersist_def)

lemma restart_ok: "raft_inv rf \<Longrightarrow> raft_inv (restart rf)"
  using go_len_ge1_iff [of "logs rf"]
  by (auto simp: raft_inv_def raft_wf_def restart_fields getLastLogIndex_def durable_def encodeState_def)

section \<open>Runs\<close>

lemma peer_step_inv:
  assumes "raft_inv rf" "event_ok e rf"
  shows "returns (peer_step e rf) (\<lambda>(rf', vs). raft_inv rf')"
proof -
  have sub: "steps_ok rf rf' \<Longrightarrow> raft_inv rf'" for rf'
    by (simp add: steps_ok_def)
  show ?thesis
  proof (cases e)
    case (EvRequestVote a)
    with sub returns_mono [OF RequestVote_ok [OF assms(1)]] show ?thesis by (fastforce)
  next
    case (EvAppendEntries a)
    with sub returns_mono [OF AppendEntries_ok [OF assms(1)]] show ?thesis by fastforce
  next
    case (EvInstallSnapshot a)
    with assms show ?thesis by (auto intro!: returns_mono [OF InstallSnapshot_ok])
  next
    case EvStartElection
    with sub show ?thesis by (auto intro!: returns_mono [OF StartElection_ok [OF assms(1)]])
  next
    case (EvVoteReply a r el)
    with sub show ?thesis by (auto intro!: returns_mono [OF handleVoteReply_ok [OF assms(1)]])
  next
    case (EvAppendReply i a r)
    with sub assms show ?thesis by (auto intro!: returns_mono [OF handleAppendEntriesReply_ok])
  next
    case (EvSnapshotReply i a r)
    with sub assms show ?thesis by (auto intro!: returns_mono [OF handleInstallSnapshotReply_ok])
  next
    case (EvBroadcast i)
    with sub assms show ?thesis by (auto intro!: returns_mono [OF broadcast_to_ok])
  next
    case (EvStart c)
    with sub show ?thesis by (auto intro!: returns_mono [OF Start_ok [OF assms(1)]])
  next
    case EvApply
    with sub show ?thesis by (auto intro!: returns_mono [OF applier_step_ok [OF assms(1)]])
  next
    case (EvSnapshot i sn)
    with sub show ?thesis by (auto intro!: returns_mono [OF Snapshot_ok [OF assms(1)]])
  next
    case EvRestart
    with assms show ?thesis by (simp add: restart_ok)
  qed
qed

interpretation peer: machine peer_step event_ok "\<lambda>H rf. raft_inv rf"
  by unfold_locales (use peer_step_inv in auto)

section \<open>Terms and votes\<close>

text \<open>How one step treats term and vote: the term never falls, within a term a vote is not taken
  back, and a vote that is cast is for the new term and is remembered.\<close>

definition vote_step :: "('c, 's) Raft \<Rightarrow> ('c, 's) Raft \<Rightarrow> (int \<times> int) list \<Rightarrow> bool" where
  "vote_step rf rf' vs \<longleftrightarrow>
     currentTerm rf \<le> currentTerm rf' \<and>
     (currentTerm rf' = currentTerm rf \<longrightarrow> votedFor rf' = votedFor rf \<or> votedFor rf = -1) \<and>
     (vs = [] \<or> vs = [(currentTerm rf', votedFor rf')] \<and> 0 \<le> votedFor rf')"

text \<open>An event that keeps votes: not an accepted \<^verbatim>\<open>AppendEntries\<close> of the current term, which resets
  \<^verbatim>\<open>votedFor\<close> to -1. Candidates are peers, so their numbers are not negative.\<close>

fun keeps_vote :: "('c, 's) event \<Rightarrow> ('c, 's) Raft \<Rightarrow> bool" where
  "keeps_vote (EvAppendEntries a) rf \<longleftrightarrow> aeTerm a \<noteq> currentTerm rf"
| "keeps_vote (EvRequestVote a) rf \<longleftrightarrow> 0 \<le> CandidateId a"
| "keeps_vote _ rf \<longleftrightarrow> True"

lemma merge_entries_fields:
  "merge_entries es i rf = Some rf' \<Longrightarrow>
   currentTerm rf' = currentTerm rf \<and> votedFor rf' = votedFor rf \<and> state rf' = state rf \<and>
   lastIncludedIndex rf' = lastIncludedIndex rf \<and> commitIndex rf' = commitIndex rf"
  by (induction es i rf rule: merge_entries.induct)
    (auto simp: bind_Some_iff split: if_splits)

lemma AppendEntries_term:
  assumes "AppendEntries a rf = Some (rf', r)"
  shows "if aeTerm a < currentTerm rf then rf' = rf \<and> \<not> Success r
         else currentTerm rf' = aeTerm a \<and> votedFor rf' = -1 \<and> state rf' = Follower"
proof -
  have "state rf1 = Follower \<Longrightarrow> merge_entries es i rf1 = Some rf2 \<Longrightarrow> state rf2 = Follower"
    for es i and rf1 rf2 :: "('a, 'b) Raft"
    using merge_entries_fields [of es i rf1 rf2] by simp
  with assms show ?thesis
    by (auto simp: AppendEntries_def Let_def bind_Some_iff dest!: merge_entries_fields split: if_splits)
qed

lemma commit_fields:
  "commit rf = Some rf' \<Longrightarrow> currentTerm rf' = currentTerm rf \<and> votedFor rf' = votedFor rf"
  by (auto simp: commit_def Let_def bind_Some_iff split: if_splits)

lemma peer_step_votes:
  assumes "raft_inv rf" "keeps_vote e rf" "peer_step e rf = Some (rf', vs)"
  shows "vote_step rf rf' vs"
proof (cases e)
  case (EvRequestVote a)
  with assms show ?thesis
    by (auto simp: vote_step_def RequestVote_def Let_def bind_Some_iff split: if_splits)
next
  case (EvAppendEntries a)
  then obtain r where "AppendEntries a rf = Some (rf', r)" and "vs = []"
    using assms(3) by (auto simp: bind_Some_iff)
  from AppendEntries_term [OF this(1)] \<open>vs = []\<close> show ?thesis
    using assms(2) EvAppendEntries by (auto simp: vote_step_def split: if_splits)
next
  case (EvInstallSnapshot a)
  with assms show ?thesis
    by (auto simp: vote_step_def InstallSnapshot_def Let_def bind_Some_iff split: if_splits)
next
  case EvStartElection
  with assms show ?thesis
    by (auto simp: vote_step_def StartElection_def Let_def bind_Some_iff raft_inv_def raft_wf_def)
next
  case (EvVoteReply a r el)
  with assms show ?thesis
    by (auto simp: vote_step_def handleVoteReply_def Let_def bind_Some_iff split: if_splits)
next
  case (EvAppendReply i a r)
  with assms show ?thesis
    by (auto simp: vote_step_def handleAppendEntriesReply_def bind_Some_iff
        dest!: commit_fields split: if_splits)
next
  case (EvSnapshotReply i a r)
  with assms show ?thesis
    by (auto simp: vote_step_def handleInstallSnapshotReply_def bind_Some_iff split: if_splits)
next
  case (EvBroadcast i)
  with assms show ?thesis
    by (auto simp: vote_step_def broadcast_to_def Let_def bind_Some_iff split: if_splits)
next
  case (EvStart c)
  with assms show ?thesis
    by (auto simp: vote_step_def Start_def Let_def bind_Some_iff split: if_splits)
next
  case EvApply
  with assms show ?thesis
    by (auto simp: vote_step_def applier_step_def Let_def bind_Some_iff split: if_splits)
next
  case (EvSnapshot i sn)
  with assms show ?thesis
    by (auto simp: vote_step_def Snapshot_def Let_def bind_Some_iff split: if_splits)
next
  case EvRestart
  with assms show ?thesis
    by (auto simp: vote_step_def raft_inv_def restart_fields)
qed

text \<open>The votes cast so far, as far as the current state remembers them.\<close>

definition votes_remembered :: "(int \<times> int) list \<Rightarrow> ('c, 's) Raft \<Rightarrow> bool" where
  "votes_remembered H rf \<longleftrightarrow>
     (\<forall>(t, c) \<in> set H. 0 \<le> c \<and> t \<le> currentTerm rf \<and> (t = currentTerm rf \<longrightarrow> votedFor rf = c)) \<and>
     (\<forall>t c c'. (t, c) \<in> set H \<longrightarrow> (t, c') \<in> set H \<longrightarrow> c = c')"

lemma votes_remembered_Nil: "votes_remembered [] rf"
  by (simp add: votes_remembered_def)

lemma votes_remembered_step:
  assumes rem: "votes_remembered H rf" and st: "vote_step rf rf' vs"
  shows "votes_remembered (H @ vs) rf'"
proof -
  have old: "0 \<le> c \<and> t \<le> currentTerm rf' \<and> (t = currentTerm rf' \<longrightarrow> votedFor rf' = c)"
    if "(t, c) \<in> set H" for t c
  proof -
    have "0 \<le> c" "t \<le> currentTerm rf" "t = currentTerm rf \<longrightarrow> votedFor rf = c"
      using rem that by (auto simp: votes_remembered_def)
    with st show ?thesis unfolding vote_step_def by auto
  qed
  have new: "t = currentTerm rf' \<and> c = votedFor rf' \<and> 0 \<le> c" if "(t, c) \<in> set vs" for t c
    using st that by (auto simp: vote_step_def)
  have "c = c'" if "(t, c) \<in> set (H @ vs)" "(t, c') \<in> set (H @ vs)" for t c c'
  proof (cases "(t, c) \<in> set H \<and> (t, c') \<in> set H")
    case True
    with rem show ?thesis by (auto simp: votes_remembered_def)
  next
    case False
    with that have "t = currentTerm rf'" using new by auto
    with that old new show ?thesis by (metis Un_iff set_append)
  qed
  moreover have "0 \<le> c \<and> t \<le> currentTerm rf' \<and> (t = currentTerm rf' \<longrightarrow> votedFor rf' = c)"
    if "(t, c) \<in> set (H @ vs)" for t c
    using that old [of t c] new [of t c] by auto
  ultimately show ?thesis unfolding votes_remembered_def by blast
qed

interpretation voter: machine peer_step "\<lambda>e rf. event_ok e rf \<and> keeps_vote e rf"
  "\<lambda>H rf. raft_inv rf \<and> votes_remembered H rf"
proof
  fix H e and rf :: "('a, 'b) Raft"
  assume "raft_inv rf \<and> votes_remembered H rf" and "event_ok e rf \<and> keeps_vote e rf"
  with peer_step_inv [of rf e] show "returns (peer_step e rf)
      (\<lambda>(rf', vs). raft_inv rf' \<and> votes_remembered (H @ vs) rf')"
    by (auto elim!: returnsE intro!: votes_remembered_step [OF _ peer_step_votes])
qed

end
