(* ===== verification/Raft_Props.thy ===== *)
theory Raft_Props
  imports Raft_Peer
begin

text \<open>
  The functional behaviour of the operations of one peer: what an accepted \<^verbatim>\<open>AppendEntries\<close> leaves in
  the log, when a vote is granted, which index \<^verbatim>\<open>commit\<close> chooses, what \<^verbatim>\<open>applier\<close> delivers, and that
  compaction does not change the log above the snapshot.
\<close>

section \<open>The applier loop\<close>

lemma applier_step_progress:
  "applier_step rf = Some (rf1, ApplierSend m) \<Longrightarrow>
   lastApplied rf < commitIndex rf \<and> rf1 = rf\<lparr>lastApplied := lastApplied rf + 1\<rparr>"
  by (auto simp: applier_step_def Let_def bind_Some_iff split: if_splits)

text \<open>\<^verbatim>\<open>applier\<close> up to the point where it waits for \<^verbatim>\<open>applySignal\<close> or closes the channel, and the
  messages it sends.\<close>

function applier :: "('c, 's) Raft \<Rightarrow> (('c, 's) Raft \<times> ('c, 's) ApplyMsg list) option" where
  "applier rf =
     do { (rf1, act) \<leftarrow> applier_step rf;
          case act of
            ApplierSend m \<Rightarrow> do { (rf2, ms) \<leftarrow> applier rf1; Some (rf2, m # ms) }
          | ApplierWait \<Rightarrow> Some (rf1, [])
          | ApplierClose \<Rightarrow> Some (rf1, []) }"
  by pat_completeness auto
termination
  by (relation "measure (\<lambda>rf. nat (commitIndex rf - lastApplied rf))")
    (auto dest: applier_step_progress)

declare applier.simps [simp del]

lemma applier_spec:
  assumes "raft_inv rf" "lastApplied rf \<le> commitIndex rf" "\<not> killed rf"
  shows "returns (applier rf) (\<lambda>(rf', ms).
    rf' = rf\<lparr>lastApplied := commitIndex rf\<rparr> \<and>
    ms = map (\<lambda>i. \<lparr>CommandValid = True,
                   Command = EntryCommand (logs rf ! nat (i - lastIncludedIndex rf)),
                   CommandIndex = i, CommandTerm = termAt i rf, SnapshotValid = False,
                   Snapshot_data = [], SnapshotTerm = 0, SnapshotIndex = 0\<rparr>)
           [lastApplied rf + 1..commitIndex rf])"
  using assms
proof (induction rf rule: applier.induct)
  case (1 rf)
  show ?case
  proof (cases "lastApplied rf < commitIndex rf")
    case True
    let ?rf = "rf\<lparr>lastApplied := lastApplied rf + 1\<rparr>" and ?i = "lastApplied rf + 1"
    let ?m = "\<lparr>CommandValid = True, Command = EntryCommand (logs rf ! nat (?i - lastIncludedIndex rf)),
               CommandIndex = ?i, CommandTerm = termAt ?i rf, SnapshotValid = False,
               Snapshot_data = [], SnapshotTerm = 0, SnapshotIndex = 0\<rparr>"
    have wf: "raft_wf rf" using "1.prems" by (simp add: raft_inv_def)
    have bounds: "0 \<le> ?i - lastIncludedIndex rf" "?i - lastIncludedIndex rf < go_len (logs rf)"
      using wf True by (auto simp: raft_wf_def getLastLogIndex_def)
    have step: "applier_step rf = Some (?rf, ApplierSend ?m)"
      using True "1.prems"(3) raft_wfD(1) [OF wf] bounds by (simp add: applier_step_def Let_def go_index_def)
    have "raft_inv ?rf"
      using applier_step_ok [OF "1.prems"(1)] step by (simp add: steps_ok_def)
    moreover have "\<not> killed ?rf" using "1.prems"(3) by (simp add: killed_def)
    ultimately have "returns (applier ?rf) (\<lambda>(rf', ms).
        rf' = ?rf\<lparr>lastApplied := commitIndex ?rf\<rparr> \<and>
        ms = map (\<lambda>i. \<lparr>CommandValid = True,
                   Command = EntryCommand (logs ?rf ! nat (i - lastIncludedIndex ?rf)),
                   CommandIndex = i, CommandTerm = termAt i ?rf, SnapshotValid = False,
                   Snapshot_data = [], SnapshotTerm = 0, SnapshotIndex = 0\<rparr>)
               [lastApplied ?rf + 1..commitIndex ?rf])"
      using "1.IH" [OF step refl] True by simp
    then show ?thesis
      using True by (auto simp: applier.simps [of rf] step upto_rec1 elim!: returns_mono)
  next
    case False
    then have "applier_step rf = Some (rf, ApplierWait)"
      using "1.prems"(3) by (simp add: applier_step_def)
    then have "applier rf = Some (rf, [])" by (subst applier.simps) simp
    then show ?thesis using False "1.prems" by simp
  qed
qed

section \<open>AppendEntries\<close>

lemma AppendEntries_spec:
  assumes inv: "raft_inv rf"
  defines "fits a \<equiv> currentTerm rf \<le> aeTerm a \<and> lastIncludedIndex rf \<le> PrevLogIndex a \<and>
                     PrevLogIndex a \<le> getLastLogIndex rf \<and> termAt (PrevLogIndex a) rf = PrevLogTerm a"
  shows "returns (AppendEntries a rf) (\<lambda>(rf', r).
    Success r = fits a \<and>
    logs rf' = (if fits a then merged_logs (Entries a) (PrevLogIndex a + 1) rf else logs rf) \<and>
    commitIndex rf' = (if fits a then min (LeaderCommit a) (PrevLogIndex a + go_len (Entries a))
                       else commitIndex rf) \<and>
    lastIncludedIndex rf' = lastIncludedIndex rf)"
proof -
  have wf: "raft_wf rf" using inv by (simp add: raft_inv_def)
  note facts = raft_wfD [OF wf]
  define rf1 where "rf1 = beat (persist (rf\<lparr>currentTerm := aeTerm a, state := Follower, votedFor := -1\<rparr>))"
  have rf1 [simp]: "logs rf1 = logs rf" "lastIncludedIndex rf1 = lastIncludedIndex rf"
    "commitIndex rf1 = commitIndex rf" "getLastLogIndex rf1 = getLastLogIndex rf"
    "termAt i rf1 = termAt i rf" for i
    by (simp_all add: rf1_def)
  have scan: "returns (conflict_scan ct i rf1) (\<lambda>_. True)" for ct i
    using conflict_scan_spec [of rf1] facts(1) by (auto intro: returns_mono)
  have atend: "merged_logs (Entries a) (getLastLogIndex rf + 1) rf = logs rf @ Entries a"
    by (cases "Entries a") (simp_all add: getLastLogIndex_def go_len_def)
  have mrg: "returns (merge_entries (Entries a) (PrevLogIndex a + 1) rf1)
      (\<lambda>rf'. logs rf' = merged_logs (Entries a) (PrevLogIndex a + 1) rf \<and>
             lastIncludedIndex rf' = lastIncludedIndex rf)"
    if "lastIncludedIndex rf \<le> PrevLogIndex a" "PrevLogIndex a \<le> getLastLogIndex rf"
    using merge_entries_eq [of rf1 "PrevLogIndex a + 1" "Entries a"] that facts(1) by auto
  show ?thesis
  proof (cases "aeTerm a < currentTerm rf")
    case True
    then show ?thesis by (simp add: AppendEntries_def fits_def Let_def)
  next
    case False
    then show ?thesis
      using facts scan mrg atend
      by (auto simp: AppendEntries_def rf1_def [symmetric] fits_def Let_def min_def)
  qed
qed

section \<open>commit\<close>

lemma commit_spec:
  assumes inv: "raft_inv rf" and lead: "state rf = Leader"
  defines "n \<equiv> sort (matchIndex rf) ! ((length (matchIndex rf) - 1) div 2)"
  shows "commit rf = Some (if n > commitIndex rf \<and> termAt n rf = currentTerm rf
                           then notifyApplier (rf\<lparr>commitIndex := n\<rparr>) else rf)"
proof -
  have wf: "raft_wf rf" using inv by (simp add: raft_inv_def)
  note facts = raft_wfD [OF wf]
  let ?k = "(length (matchIndex rf) - 1) div 2"
  have pos: "0 < length (matchIndex rf)"
    using facts by (auto simp: go_len_def)
  have "go_div (go_len (sort (matchIndex rf)) - 1) 2 = int ?k"
    using pos by (cases "length (matchIndex rf)") (simp_all add: go_len_def go_div_nonneg zdiv_int)
  moreover have "?k < length (matchIndex rf)" using pos by linarith
  ultimately have "go_index (sort (matchIndex rf)) (go_div (go_len (sort (matchIndex rf)) - 1) 2) = Some n"
    by (simp add: go_index_def go_len_def n_def)
  then show ?thesis
    using lead facts(1) by (simp add: commit_def Let_def)
qed

section \<open>Compaction\<close>

lemma Snapshot_log_view:
  assumes inv: "raft_inv rf" and i: "lastIncludedIndex rf < index" "index \<le> getLastLogIndex rf"
  shows "returns (Snapshot index snap rf) (\<lambda>rf'.
    lastIncludedIndex rf' = index \<and> getLastLogIndex rf' = getLastLogIndex rf \<and>
    (\<forall>m \<ge> index. termAt m rf' = termAt m rf) \<and>
    drop 1 (logs rf') = drop (nat (index - lastIncludedIndex rf) + 1) (logs rf) \<and>
    ReadSnapshot (persister rf') = snap)"
proof -
  let ?k = "nat (index - lastIncludedIndex rf)"
  have k: "?k < length (logs rf)" "index - lastIncludedIndex rf < go_len (logs rf)"
    using i by (simp_all add: getLastLogIndex_def go_len_def)
  have nth: "(drop ?k (logs rf))[0 := x] ! nat (m - index) =
      (if m = index then x else logs rf ! nat (m - lastIncludedIndex rf))"
    if "index \<le> m" for m x
    using that k i by (auto simp: nth_list_update nat_diff_distrib [symmetric] nat_add_distrib [symmetric])
  have dr: "drop (Suc 0) ((drop ?k (logs rf))[0 := x]) = drop (Suc ?k) (logs rf)" for x
    by simp
  show ?thesis
    using i k inv
    by (auto simp: Snapshot_def Let_def termAt_def getLastLogIndex_def go_len_drop nth dr
        raft_inv_def raft_wf_def)
qed

section \<open>Runs of one peer\<close>


definition sample_run :: "(nat, nat) event list" where
  "sample_run =
     [EvStartElection,
      EvVoteReply \<lparr>rvTerm = 1, CandidateId = 0, LastLogIndex = 0, LastLogTerm = 0\<rparr>
        \<lparr>rvrTerm = 1, VoteGranted = True\<rparr> new_election,
      EvStart 7, EvStart 8, EvBroadcast 1,
      EvAppendReply 1 \<lparr>aeTerm = 1, aeLeaderId = 0, PrevLogIndex = 0, PrevLogTerm = 0, LeaderCommit = 0,
          Entries = [\<lparr>EntryTerm = 1, EntryCommand = Some 7\<rparr>, \<lparr>EntryTerm = 1, EntryCommand = Some 8\<rparr>]\<rparr>
        \<lparr>aerTerm = 1, Success = True, ConflictLogIndex = 0, ConflictLogTerm = 0\<rparr>,
      EvApply, EvSnapshot 1 [42], EvRestart,
      EvRequestVote \<lparr>rvTerm = 2, CandidateId = 2, LastLogIndex = 2, LastLogTerm = 1\<rparr>]"


text \<open>C17. A peer that crashes at any point of such a run and restarts from its disk has its term, its
  vote, its log and its snapshot back, is a follower, and resumes at the snapshot's index.\<close>

theorem crash_recovery:
  assumes "0 \<le> i" "i < n" "admissible peer_step event_ok es (Make n i MakePersister)"
    and "run peer_step es (Make n i MakePersister) = Some (rf, vs)"
  shows "currentTerm (restart rf) = currentTerm rf \<and> votedFor (restart rf) = votedFor rf \<and>
    logs (restart rf) = logs rf \<and> lastIncludedIndex (restart rf) = lastIncludedIndex rf \<and>
    lastIncludedTerm (restart rf) = lastIncludedTerm rf \<and>
    ReadSnapshot (persister (restart rf)) = ReadSnapshot (persister rf) \<and>
    state (restart rf) = Follower \<and> commitIndex (restart rf) = lastIncludedIndex rf \<and>
    lastApplied (restart rf) = lastIncludedIndex rf"
proof -
  have "durable rf"
    using peer.run_from_start [OF Make_fresh_ok [OF assms(1,2)] assms(3)] assms(4)
    by (simp add: raft_inv_def)
  then show ?thesis by (simp add: restart_fields)
qed

theorem crash_recovery_witness:
  "logs (restart (fst (the (run peer_step sample_run (Make 3 0 MakePersister))))) =
     [\<lparr>EntryTerm = 1, EntryCommand = None\<rparr>, \<lparr>EntryTerm = 1, EntryCommand = Some 8\<rparr>]"
proof -
  let ?r = "run peer_step sample_run (Make 3 0 MakePersister)"
  have adm: "admissible peer_step event_ok sample_run (Make 3 0 MakePersister)"
    by code_simp
  have "?r \<noteq> None" by code_simp
  then obtain rf vs where r: "?r = Some (rf, vs)" by auto
  have "logs (fst (the ?r)) = [\<lparr>EntryTerm = 1, EntryCommand = None\<rparr>, \<lparr>EntryTerm = 1, EntryCommand = Some 8\<rparr>]"
    by code_simp
  with crash_recovery [OF _ _ adm r] show ?thesis by (simp add: r)
qed

text \<open>C18. A peer votes for at most one candidate in a term, over any run with crashes, as long as no
  \<^verbatim>\<open>AppendEntries\<close> of its current term reaches it (\<open>keeps_vote\<close>).\<close>

theorem one_vote_per_term:
  assumes "0 \<le> i" "i < n"
    and "admissible peer_step (\<lambda>e rf. event_ok e rf \<and> keeps_vote e rf) es (Make n i MakePersister)"
    and "run peer_step es (Make n i MakePersister) = Some (rf, vs)"
    and "(t, c) \<in> set vs" "(t, c') \<in> set vs"
  shows "c = c'"
proof -
  have "votes_remembered vs rf"
    using voter.run_from_start [OF conjI [OF Make_fresh_ok [OF assms(1,2)] votes_remembered_Nil] assms(3)]
      assms(4) by simp
  with assms(5,6) show ?thesis by (auto simp: votes_remembered_def)
qed

theorem one_vote_per_term_witness:
  "\<exists>rf vs. run peer_step sample_run (Make 3 0 MakePersister) = Some (rf, vs) \<and>
     vs = [(1, 0), (2, 2)] \<and> (\<forall>c. (2, c) \<in> set vs \<longrightarrow> c = 2)"
proof -
  let ?r = "run peer_step sample_run (Make 3 0 MakePersister)"
  have adm: "admissible peer_step (\<lambda>e rf. event_ok e rf \<and> keeps_vote e rf) sample_run
      (Make 3 0 MakePersister)"
    by code_simp
  have "map_option snd ?r = Some [(1, 0), (2, 2)]" by code_simp
  then obtain rf where r: "?r = Some (rf, [(1, 0), (2, 2)])" by auto
  with one_vote_per_term [OF _ _ adm r, of 2 _ 2] show ?thesis by auto
qed

text \<open>Without that condition the promise fails: an \<^verbatim>\<open>AppendEntries\<close> of the current term clears
  \<^verbatim>\<open>votedFor\<close>, and the peer votes again, for another candidate, in the same term.\<close>

lemma heartbeat_forgets_vote:
  "map_option snd (run peer_step
      [EvRequestVote \<lparr>rvTerm = 1, CandidateId = 0, LastLogIndex = 0, LastLogTerm = 0\<rparr>,
       EvAppendEntries \<lparr>aeTerm = 1, aeLeaderId = 0, PrevLogIndex = 0, PrevLogTerm = 0,
                        LeaderCommit = 0, Entries = []\<rparr>,
       EvRequestVote \<lparr>rvTerm = 1, CandidateId = 1, LastLogIndex = 0, LastLogTerm = 0\<rparr>]
      (Make 3 2 MakePersister :: (nat, nat) Raft)) = Some [(1, 0), (1, 1)]"
  by code_simp

section \<open>RequestVote\<close>

text \<open>C20. A vote is granted exactly when the candidate's term is not old, the peer has no other vote in
  that term, and the candidate's log is at least as up to date as the peer's; a granted vote is
  recorded on disk before the reply, and the log is never touched.\<close>

theorem RequestVote_grants:
  assumes "raft_inv rf"
  shows "returns (RequestVote a rf) (\<lambda>(rf', r).
    (VoteGranted r \<longleftrightarrow>
       (currentTerm rf < rvTerm a \<or>
        currentTerm rf = rvTerm a \<and> (votedFor rf = CandidateId a \<or> votedFor rf = -1)) \<and>
       (termAt (getLastLogIndex rf) rf < LastLogTerm a \<or>
        termAt (getLastLogIndex rf) rf = LastLogTerm a \<and> getLastLogIndex rf \<le> LastLogIndex a)) \<and>
    (VoteGranted r \<longrightarrow> votedFor rf' = CandidateId a \<and> state rf' = Follower) \<and>
    currentTerm rf' = max (currentTerm rf) (rvTerm a) \<and> rvrTerm r = currentTerm rf' \<and>
    durable rf' \<and> logs rf' = logs rf)"
proof -
  have "raft_wf rf" "durable rf" using assms by (simp_all add: raft_inv_def)
  then show ?thesis
    using raft_wfD(1) [of rf] by (auto simp: RequestVote_def Let_def max_def)
qed

theorem RequestVote_grants_witness:
  "\<exists>rf' r. RequestVote \<lparr>rvTerm = 3, CandidateId = 1, LastLogIndex = 0, LastLogTerm = 0\<rparr>
     (Make 3 2 MakePersister :: (nat, nat) Raft) = Some (rf', r) \<and> VoteGranted r \<and> votedFor rf' = 1"
proof -
  let ?rf = "Make 3 2 MakePersister :: (nat, nat) Raft"
  let ?a = "\<lparr>rvTerm = 3, CandidateId = 1, LastLogIndex = 0, LastLogTerm = 0\<rparr>"
  have "raft_inv ?rf" by (rule Make_fresh_ok) simp_all
  moreover have "currentTerm ?rf < 3" "termAt (getLastLogIndex ?rf) ?rf = 0" "getLastLogIndex ?rf = 0"
    by code_simp+
  ultimately show ?thesis using RequestVote_grants [of ?rf ?a] by (auto elim!: returnsE)
qed

section \<open>Replication\<close>

lemma log_merge_prefix_terms:
  "map EntryTerm (take (length es) (log_merge old es)) = map EntryTerm es"
  by (rule nth_equalityI) (use length_log_merge [of es old] in \<open>auto simp: log_merge_terms\<close>)

lemma merged_logs_termAt:
  assumes "lastIncludedIndex rf < i" "i \<le> getLastLogIndex rf + 1"
    and "lastIncludedIndex rf' = lastIncludedIndex rf" "logs rf' = merged_logs es i rf"
  shows "m < i \<Longrightarrow> termAt m rf' = termAt m rf"
    and "j < length es \<Longrightarrow> termAt (i + int j) rf' = EntryTerm (es ! j)"
proof -
  let ?k = "nat (i - lastIncludedIndex rf)"
  have k: "0 < ?k" "?k \<le> length (logs rf)"
    using assms by (simp_all add: getLastLogIndex_def go_len_def)
  have len: "length (logs rf') = ?k + length (log_merge (drop ?k (logs rf)) es)"
    using k by (simp add: assms)
  note merged = length_log_merge [of es "drop ?k (logs rf)"]
  show "termAt m rf' = termAt m rf" if "m < i"
    using that k assms(1-3) len
    by (auto simp: termAt_def getLastLogIndex_def go_len_def assms(4) nth_append)
  show "termAt (i + int j) rf' = EntryTerm (es ! j)" if "j < length es"
  proof -
    have "nat (i + int j - lastIncludedIndex rf) = ?k + j" using assms(1) by simp
    then show ?thesis
      using that k assms(1-3) len merged log_merge_terms [of j es "drop ?k (logs rf)"]
      by (simp add: termAt_def getLastLogIndex_def go_len_def assms(4) nth_append)
  qed
qed

text \<open>C7. \<^verbatim>\<open>AppendEntries\<close> accepts exactly the requests of a current leader whose previous entry is in
  the log with the same term. After an accepted request the log has the terms of the sent entries
  right after that entry and is unchanged before it; entries beyond the request survive unless one of
  the sent entries conflicts; a rejected request changes neither log nor commit index.\<close>

theorem AppendEntries_correct:
  assumes "raft_inv rf"
  shows "returns (AppendEntries a rf) (\<lambda>(rf', r).
    (Success r \<longleftrightarrow> currentTerm rf \<le> aeTerm a \<and> lastIncludedIndex rf \<le> PrevLogIndex a \<and>
       PrevLogIndex a \<le> getLastLogIndex rf \<and> termAt (PrevLogIndex a) rf = PrevLogTerm a) \<and>
    (Success r \<longrightarrow>
       (\<forall>m \<le> PrevLogIndex a. termAt m rf' = termAt m rf) \<and>
       (\<forall>j < length (Entries a). termAt (PrevLogIndex a + 1 + int j) rf' = EntryTerm (Entries a ! j)) \<and>
       logs rf' = merged_logs (Entries a) (PrevLogIndex a + 1) rf \<and>
       commitIndex rf' = min (LeaderCommit a) (PrevLogIndex a + go_len (Entries a))) \<and>
    (\<not> Success r \<longrightarrow> logs rf' = logs rf \<and> commitIndex rf' = commitIndex rf))"
proof (rule returns_mono [OF AppendEntries_spec [OF assms]], clarify, goal_cases)
  case (1 rf' r)
  then show ?case
    using merged_logs_termAt [of rf "PrevLogIndex a + 1" rf' "Entries a"]
    by (simp split: if_splits)
qed

theorem AppendEntries_correct_witness:
  "\<exists>rf' r. AppendEntries \<lparr>aeTerm = 1, aeLeaderId = 0, PrevLogIndex = 0, PrevLogTerm = 0, LeaderCommit = 1,
        Entries = [\<lparr>EntryTerm = 1, EntryCommand = Some 7\<rparr>]\<rparr>
     (Make 3 2 MakePersister :: (nat, nat) Raft) = Some (rf', r) \<and> Success r \<and> termAt 1 rf' = 1"
proof -
  let ?rf = "Make 3 2 MakePersister :: (nat, nat) Raft"
  let ?a = "\<lparr>aeTerm = 1, aeLeaderId = 0, PrevLogIndex = 0, PrevLogTerm = 0, LeaderCommit = 1,
        Entries = [\<lparr>EntryTerm = 1, EntryCommand = Some (7::nat)\<rparr>]\<rparr>"
  have "raft_inv ?rf" by (rule Make_fresh_ok) simp_all
  moreover have "currentTerm ?rf \<le> 1 \<and> lastIncludedIndex ?rf \<le> 0 \<and> 0 \<le> getLastLogIndex ?rf \<and> termAt 0 ?rf = 0"
    by code_simp
  ultimately show ?thesis using AppendEntries_correct [of ?rf ?a] by (auto elim!: returnsE)
qed

text \<open>C21. The loop over the overlap computes the reference merge \<open>log_merge\<close>, and it writes the disk
  exactly when the log changes.\<close>

theorem merge_loop_equiv:
  assumes "lastIncludedIndex rf < i" "i \<le> getLastLogIndex rf + 1" "logs rf \<noteq> []"
  shows "merge_entries es i rf =
    Some (if merged_logs es i rf = logs rf then rf else persist (rf\<lparr>logs := merged_logs es i rf\<rparr>))"
  using assms by (rule merge_entries_eq)

theorem merge_loop_equiv_witness:
  "map_option logs (merge_entries [\<lparr>EntryTerm = 1, EntryCommand = Some 7\<rparr>, \<lparr>EntryTerm = 2, EntryCommand = Some 9\<rparr>] 1
     ((Make 3 2 MakePersister :: (nat, nat) Raft)\<lparr>logs := [\<lparr>EntryTerm = 0, EntryCommand = None\<rparr>,
        \<lparr>EntryTerm = 1, EntryCommand = Some 7\<rparr>, \<lparr>EntryTerm = 1, EntryCommand = Some 8\<rparr>,
        \<lparr>EntryTerm = 1, EntryCommand = Some 6\<rparr>]\<rparr>)) =
   Some [\<lparr>EntryTerm = 0, EntryCommand = None\<rparr>, \<lparr>EntryTerm = 1, EntryCommand = Some 7\<rparr>,
         \<lparr>EntryTerm = 2, EntryCommand = Some 9\<rparr>]"
proof -
  let ?rf = "(Make 3 2 MakePersister :: (nat, nat) Raft)\<lparr>logs := [\<lparr>EntryTerm = 0, EntryCommand = None\<rparr>,
        \<lparr>EntryTerm = 1, EntryCommand = Some 7\<rparr>, \<lparr>EntryTerm = 1, EntryCommand = Some 8\<rparr>,
        \<lparr>EntryTerm = 1, EntryCommand = Some 6\<rparr>]\<rparr>"
  have "lastIncludedIndex ?rf = 0" "1 \<le> getLastLogIndex ?rf + 1"
    by code_simp+
  with merge_loop_equiv [of ?rf 1] show ?thesis by simp
qed

text \<open>The rejections that a leader with a longer log sees.\<close>

lemma AppendEntries_reject:
  assumes "raft_inv rf" "currentTerm rf \<le> aeTerm a" "lastIncludedIndex rf \<le> PrevLogIndex a"
    and "termAt (PrevLogIndex a) rf \<noteq> PrevLogTerm a \<or> getLastLogIndex rf < PrevLogIndex a"
  shows "returns (AppendEntries a rf) (\<lambda>(rf', r).
    \<not> Success r \<and> aerTerm r = currentTerm rf \<and> 0 \<le> ConflictLogIndex r \<and>
    ConflictLogIndex r \<le> PrevLogIndex a \<and>
    (\<forall>m. ConflictLogIndex r \<le> m \<and> m < PrevLogIndex a \<longrightarrow>
         getLastLogIndex rf < m \<or> termAt (PrevLogIndex a) rf \<le> termAt m rf))"
proof -
  have wf: "raft_wf rf" using assms by (simp add: raft_inv_def)
  note facts = raft_wfD [OF wf]
  have lii: "0 \<le> lastIncludedIndex rf" using wf by (simp add: raft_wf_def)
  define rf1 where "rf1 = beat (persist (rf\<lparr>currentTerm := aeTerm a, state := Follower, votedFor := -1\<rparr>))"
  have rf1 [simp]: "logs rf1 = logs rf" "lastIncludedIndex rf1 = lastIncludedIndex rf"
    "getLastLogIndex rf1 = getLastLogIndex rf" "termAt i rf1 = termAt i rf" for i
    by (simp_all add: rf1_def)
  have scan: "returns (conflict_scan (termAt (PrevLogIndex a) rf) (PrevLogIndex a - 1) rf1) (\<lambda>j.
      0 \<le> j + 1 \<and> j < PrevLogIndex a \<and>
      (\<forall>m. j < m \<and> m < PrevLogIndex a \<longrightarrow> termAt (PrevLogIndex a) rf \<le> termAt m rf))"
    by (rule returns_mono [OF conflict_scan_spec]) (use facts(1) lii assms(3) in auto)
  show ?thesis
    using assms facts lii returns_mono [OF scan]
    by (auto simp: AppendEntries_def rf1_def [symmetric] Let_def)
qed



text \<open>What a leader sends to a server whose \<^verbatim>\<open>nextIndex\<close> is in its log.\<close>

lemma broadcast_sends:
  assumes "raft_inv l" "0 \<le> i" "i < npeers l" "state l = Leader"
    and "lastIncludedIndex l < nextIndex l ! nat i" "nextIndex l ! nat i \<le> getLastLogIndex l + 1"
  defines "nxt \<equiv> nextIndex l ! nat i"
  shows "\<exists>l' a. broadcast_to i l = Some (l', Some (SendAppendEntries a)) \<and>
    aeTerm a = currentTerm l \<and> PrevLogIndex a = nxt - 1 \<and> PrevLogTerm a = termAt (nxt - 1) l \<and>
    LeaderCommit a = commitIndex l \<and>
    Entries a = take 200 (drop (nat (nxt - lastIncludedIndex l)) (logs l))"
proof -
  have wf: "raft_wf l" using assms(1) by (simp add: raft_inv_def)
  note facts = raft_wfD [OF wf]
  have lii: "0 \<le> lastIncludedIndex l" using wf by (simp add: raft_wf_def)
  have idx: "go_index (nextIndex l) i = Some nxt"
    using facts(5) assms(2,3) by (simp add: go_index_def nxt_def)
  have upd: "l\<lparr>nextIndex := nextIndex l\<rparr> = l" by simp
  have nxt: "lastIncludedIndex l < nxt" "nxt \<le> getLastLogIndex l + 1"
    using assms(5,6) by (simp_all add: nxt_def)
  let ?rest = "drop (nat (nxt - lastIncludedIndex l)) (logs l)"
  have len: "getLastLogIndex l + 1 - nxt = int (length ?rest)"
    using nxt by (simp add: getLastLogIndex_def go_len_def)
  have "collect_entries nxt (getLastLogIndex l + 1) l = Some ?rest"
    using collect_entries_eq [of l nxt "getLastLogIndex l + 1"] nxt len by simp
  moreover have "collect_entries nxt (nxt + 200) l = Some (take 200 ?rest)" if "nxt + 200 \<le> getLastLogIndex l + 1"
    using collect_entries_eq [of l nxt "nxt + 200"] nxt that by simp
  moreover have "take 200 ?rest = ?rest" if "nxt + 200 > getLastLogIndex l + 1"
    using len that by simp
  ultimately show ?thesis
    using assms(4) idx facts(1) lii nxt
    by (auto simp: broadcast_to_def Let_def getFirstLogIndex_def upd batchSize_def)
qed

end
