(* ===== verification/Raft_Replication.thy ===== *)
theory Raft_Replication
  imports Raft_Props
begin

text \<open>
  The operations of one peer put together: a leader's broadcast handled by a follower, the commit
  rule as a majority, what the applier delivers, and compaction by the service or by a leader's
  snapshot.
\<close>

section \<open>Leader to follower\<close>

text \<open>C15. A follower that accepts what a leader broadcasts to it agrees with the leader, term by term,
  from the entry before the batch to its end; it then commits no further than the leader has and no
  further than the batch.\<close>

theorem replicate_agrees:
  assumes lead: "raft_inv l" "0 \<le> i" "i < npeers l" "state l = Leader"
    and nxt: "lastIncludedIndex l < nextIndex l ! nat i" "nextIndex l ! nat i \<le> getLastLogIndex l + 1"
    and foll: "raft_inv f"
  shows "\<exists>l' a. broadcast_to i l = Some (l', Some (SendAppendEntries a)) \<and>
    returns (AppendEntries a f) (\<lambda>(f', r). Success r \<longrightarrow>
      (\<forall>m. nextIndex l ! nat i - 1 \<le> m \<and> m < nextIndex l ! nat i + go_len (Entries a) \<longrightarrow>
           termAt m f' = termAt m l) \<and>
      commitIndex f' \<le> commitIndex l \<and>
      commitIndex f' < nextIndex l ! nat i + go_len (Entries a))"
proof -
  let ?n = "nextIndex l ! nat i"
  from broadcast_sends [OF lead nxt] obtain l' a where
    send: "broadcast_to i l = Some (l', Some (SendAppendEntries a))"
    and a: "PrevLogIndex a = ?n - 1" "PrevLogTerm a = termAt (?n - 1) l" "LeaderCommit a = commitIndex l"
      "Entries a = take 200 (drop (nat (?n - lastIncludedIndex l)) (logs l))"
    by blast
  have batch: "EntryTerm (Entries a ! j) = termAt (?n + int j) l" if "j < length (Entries a)" for j
  proof -
    have "nat (?n + int j - lastIncludedIndex l) = nat (?n - lastIncludedIndex l) + j"
      using nxt by simp
    moreover have "?n + int j < lastIncludedIndex l + int (length (logs l))"
      using that nxt by (simp add: a(4)) linarith
    ultimately show ?thesis
      using that nxt by (simp add: a(4) termAt_def getLastLogIndex_def go_len_def)
  qed
  have "returns (AppendEntries a f) (\<lambda>(f', r). Success r \<longrightarrow>
      (\<forall>m. ?n - 1 \<le> m \<and> m < ?n + go_len (Entries a) \<longrightarrow> termAt m f' = termAt m l) \<and>
      commitIndex f' \<le> commitIndex l \<and> commitIndex f' < ?n + go_len (Entries a))"
  proof (rule returns_mono [OF AppendEntries_spec [OF foll]], clarify, goal_cases)
    case (1 f' r)
    then have fits: "lastIncludedIndex f < ?n" "?n \<le> getLastLogIndex f + 1" "termAt (?n - 1) f = termAt (?n - 1) l"
      by (simp_all add: a split: if_splits)
    have f': "lastIncludedIndex f' = lastIncludedIndex f" "logs f' = merged_logs (Entries a) ?n f"
      "commitIndex f' = min (commitIndex l) (?n - 1 + go_len (Entries a))"
      using 1 by (simp_all add: a(1,3) split: if_splits)
    note merged = merged_logs_termAt [OF fits(1,2) f'(1,2)]
    have "termAt m f' = termAt m l" if "?n - 1 \<le> m" "m < ?n + go_len (Entries a)" for m
    proof (cases "m = ?n - 1")
      case True
      then show ?thesis using fits(3) merged(1) [of m] by simp
    next
      case False
      then have "termAt (?n + int (nat (m - ?n))) f' = EntryTerm (Entries a ! nat (m - ?n))"
        using that by (intro merged(2)) (simp add: go_len_def)
      with False batch [of "nat (m - ?n)"] that show ?thesis by (simp add: go_len_def)
    qed
    then show ?case by (simp add: f'(3))
  qed
  with send show ?thesis by blast
qed

definition sample_leader :: "(nat, nat) Raft" where
  "sample_leader =
     (Make 3 0 MakePersister)\<lparr>state := Leader, currentTerm := 1,
        logs := [\<lparr>EntryTerm = 0, EntryCommand = None\<rparr>, \<lparr>EntryTerm = 1, EntryCommand = Some 7\<rparr>],
        persister := \<lparr>raftstate = [GobInt 1, GobInt (-1),
            GobLogs [\<lparr>EntryTerm = 0, EntryCommand = None\<rparr>, \<lparr>EntryTerm = 1, EntryCommand = Some 7\<rparr>],
            GobInt 0, GobInt 0], snapshot = []\<rparr>,
        matchIndex := [1, 1, 0]\<rparr>"

theorem replicate_agrees_witness:
  "\<exists>l' a f' r. broadcast_to 1 sample_leader = Some (l', Some (SendAppendEntries a)) \<and>
     AppendEntries a (Make 3 1 MakePersister :: (nat, nat) Raft) = Some (f', r) \<and> Success r \<and>
     termAt 1 f' = termAt 1 sample_leader"
proof -
  let ?f = "Make 3 1 MakePersister :: (nat, nat) Raft"
  have pre: "raft_inv sample_leader" "(1::int) < npeers sample_leader" "state sample_leader = Leader"
    "lastIncludedIndex sample_leader < nextIndex sample_leader ! nat 1"
    "nextIndex sample_leader ! nat 1 \<le> getLastLogIndex sample_leader + 1" "raft_inv ?f"
    by code_simp+
  let ?a = "\<lparr>aeTerm = 1, aeLeaderId = 0, PrevLogIndex = 0, PrevLogTerm = 0,
        LeaderCommit = 0, Entries = [\<lparr>EntryTerm = 1, EntryCommand = Some 7\<rparr>]\<rparr>"
  have sent: "map_option snd (broadcast_to 1 sample_leader) = Some (Some (SendAppendEntries ?a))"
    and acc: "map_option (Success \<circ> snd) (AppendEntries ?a ?f) = Some True"
    and n1: "nextIndex sample_leader ! nat 1 = 1"
    by code_simp+
  from replicate_agrees [OF pre(1) _ pre(2-6)] obtain l' a where
    bc: "broadcast_to 1 sample_leader = Some (l', Some (SendAppendEntries a))"
    and ret: "returns (AppendEntries a ?f) (\<lambda>(f', r). Success r \<longrightarrow>
      (\<forall>m. nextIndex sample_leader ! nat 1 - 1 \<le> m \<and>
           m < nextIndex sample_leader ! nat 1 + go_len (Entries a) \<longrightarrow>
           termAt m f' = termAt m sample_leader) \<and>
      commitIndex f' \<le> commitIndex sample_leader \<and>
      commitIndex f' < nextIndex sample_leader ! nat 1 + go_len (Entries a))"
    by auto
  have a: "a = ?a" using sent bc by simp
  from ret obtain f' r where f': "AppendEntries a ?f = Some (f', r)"
    and agree: "Success r \<Longrightarrow> \<forall>m. nextIndex sample_leader ! nat 1 - 1 \<le> m \<and>
           m < nextIndex sample_leader ! nat 1 + go_len (Entries a) \<longrightarrow>
           termAt m f' = termAt m sample_leader"
    by (auto elim!: returnsE)
  have "Success r" using acc f' by (simp add: a)
  moreover have "termAt 1 f' = termAt 1 sample_leader"
    using agree [OF \<open>Success r\<close>, unfolded n1] by (simp add: a go_len_def)
  ultimately show ?thesis using bc f' by blast
qed

section \<open>The commit rule\<close>

text \<open>C9. A leader's \<^verbatim>\<open>commit\<close> sets the commit index to the greatest index that a majority of
  \<^verbatim>\<open>matchIndex\<close> reaches, if that index is new and holds an entry of the current term, and otherwise
  changes nothing; the applier is signalled exactly then.\<close>

theorem commit_majority:
  assumes "raft_inv rf" "state rf = Leader"
  shows "\<exists>n. length (matchIndex rf) < 2 * length (filter (\<lambda>m. n \<le> m) (matchIndex rf)) \<and>
    (\<forall>k. length (matchIndex rf) < 2 * length (filter (\<lambda>m. k \<le> m) (matchIndex rf)) \<longrightarrow> k \<le> n) \<and>
    commit rf = Some (if n > commitIndex rf \<and> termAt n rf = currentTerm rf
                      then notifyApplier (rf\<lparr>commitIndex := n\<rparr>) else rf)"
proof -
  have "matchIndex rf \<noteq> []"
    using assms(1) by (auto simp: raft_inv_def raft_wf_def)
  from median_majority [OF this] commit_spec [OF assms] show ?thesis by blast
qed

theorem commit_majority_witness:
  "map_option commitIndex (commit sample_leader) = Some 1"
proof -
  have "raft_inv sample_leader" "state sample_leader = Leader" by code_simp+
  from commit_majority [OF this] obtain n where
    maj: "length (matchIndex sample_leader) < 2 * length (filter (\<lambda>m. n \<le> m) (matchIndex sample_leader))"
    and most: "\<forall>k. length (matchIndex sample_leader) < 2 * length (filter (\<lambda>m. k \<le> m) (matchIndex sample_leader)) \<longrightarrow> k \<le> n"
    and com: "commit sample_leader = Some (if n > commitIndex sample_leader \<and> termAt n sample_leader = currentTerm sample_leader
                      then notifyApplier (sample_leader\<lparr>commitIndex := n\<rparr>) else sample_leader)"
    by blast
  have "matchIndex sample_leader = [1, 1, 0]" "commitIndex sample_leader = 0"
    "termAt 1 sample_leader = currentTerm sample_leader"
    by code_simp+
  with maj most com show ?thesis by (auto split: if_splits dest: spec [of _ 1])
qed

section \<open>Delivery\<close>



section \<open>Compaction\<close>

text \<open>C23. Compacting the log at an index it holds removes exactly the entries up to that index: the last
  index and the term of every index from there on stay the same, the entries after it are kept, and
  the snapshot is on disk together with the shortened log.\<close>

theorem Snapshot_keeps_suffix:
  assumes "raft_inv rf" "lastIncludedIndex rf < index" "index \<le> getLastLogIndex rf"
  shows "returns (Snapshot index snap rf) (\<lambda>rf'.
    lastIncludedIndex rf' = index \<and> getLastLogIndex rf' = getLastLogIndex rf \<and>
    (\<forall>m \<ge> index. termAt m rf' = termAt m rf) \<and>
    drop 1 (logs rf') = drop (nat (index - lastIncludedIndex rf) + 1) (logs rf) \<and>
    ReadSnapshot (persister rf') = snap \<and> durable rf')"
  using returns_conj [OF Snapshot_log_view [OF assms] Snapshot_ok [OF assms(1)]]
  by (rule returns_mono) (simp add: steps_ok_def raft_inv_def)

theorem Snapshot_keeps_suffix_witness:
  "\<exists>rf'. Snapshot 1 [42] sample_leader = Some rf' \<and> lastIncludedIndex rf' = 1 \<and> termAt 1 rf' = 1"
proof -
  have "raft_inv sample_leader" "lastIncludedIndex sample_leader < 1" "1 \<le> getLastLogIndex sample_leader"
    "termAt 1 sample_leader = 1"
    by code_simp+
  with Snapshot_keeps_suffix [of sample_leader 1 "[42]"] show ?thesis by (auto elim!: returnsE)
qed

lemma InstallSnapshot_accept:
  assumes wf: "raft_wf rf" and new: "\<not> isTerm args < currentTerm rf" "\<not> isTerm args > currentTerm rf"
      "\<not> isLastIncludedIndex args \<le> commitIndex rf"
  shows "returns (InstallSnapshot args rf) (\<lambda>(rf', reply, msg).
    lastIncludedIndex rf' = isLastIncludedIndex args \<and> lastIncludedTerm rf' = isLastIncludedTerm args \<and>
    ReadSnapshot (persister rf') = isData args \<and> commitIndex rf' = isLastIncludedIndex args \<and>
    lastApplied rf' = isLastIncludedIndex args \<and>
    drop 1 (logs rf') =
      (if lastIncludedIndex rf < isLastIncludedIndex args \<and> isLastIncludedIndex args \<le> getLastLogIndex rf \<and>
          termAt (isLastIncludedIndex args) rf = isLastIncludedTerm args
       then drop (nat (isLastIncludedIndex args - lastIncludedIndex rf) + 1) (logs rf) else []) \<and>
    map_option (\<lambda>m. (SnapshotValid m, Snapshot_data m, SnapshotIndex m)) msg =
      Some (True, isData args, isLastIncludedIndex args))"
proof -
  let ?i = "isLastIncludedIndex args"
  note ne = raft_wfD(1) [OF wf]
  have k: "?i - lastIncludedIndex rf < go_len (logs rf)" "0 < go_len (drop (nat (?i - lastIncludedIndex rf)) (logs rf))"
    if "lastIncludedIndex rf < ?i" "?i \<le> getLastLogIndex rf"
    using that by (auto simp: getLastLogIndex_def go_len_def)
  show ?thesis
  proof (cases "lastIncludedIndex rf < ?i \<and> ?i \<le> getLastLogIndex rf \<and> termAt ?i rf = isLastIncludedTerm args")
    case True
    with new ne k show ?thesis by (auto simp: InstallSnapshot_def Let_def matchLog_eq)
  next
    case False
    with new ne show ?thesis by (auto simp: InstallSnapshot_def Let_def matchLog_eq)
  qed
qed



end
