(* ===== verification/Raft_Cluster.thy ===== *)
theory Raft_Cluster
  imports Raft_Props
begin

text \<open>
  Peers together. A cluster is the peers, the elections their candidates hold and the calls on their way: every request
  a peer handles was built by a peer, every reply came from a handler, and a call is executed and answered at most
  once, which is what \<^verbatim>\<open>labrpc\<close> promises. Calls may be lost, delayed and reordered, and peers may crash and restart
  from their persister at any time.
\<close>

datatype ('c, 's) request =
    ReqVote nat RequestVoteArgs
  | ReqAppend "'c AppendEntriesArgs"
  | ReqSnapshot "'s InstallSnapshotArgs"

datatype answer =
    AnsVote RequestVoteReply
  | AnsAppend AppendEntriesReply
  | AnsSnapshot InstallSnapshotReply

text \<open>A goroutine that sends a request: who sends it to whom, the answer once the handler has run, and whether the
  goroutine is through with it. A request for a vote names the election it is for.\<close>

record ('c, 's) sent =
  src :: nat
  dst :: nat
  req :: "('c, 's) request"
  ans :: "answer option"
  used :: bool

text \<open>\<open>heard\<close> records which peers have handled an \<^verbatim>\<open>AppendEntries\<close> of which term; the program does not have it.\<close>

record ('c, 's) cluster =
  peers :: "('c, 's) Raft list"
  elections :: "election list"
  sents :: "('c, 's) sent list"
  heard :: "(nat \<times> int) set"

definition send :: "nat \<Rightarrow> nat \<Rightarrow> ('c, 's) request \<Rightarrow> ('c, 's) sent" where
  "send i j r = \<lparr>src = i, dst = j, req = r, ans = None, used = False\<rparr>"

definition set_peer :: "nat \<Rightarrow> ('c, 's) Raft \<Rightarrow> ('c, 's) cluster \<Rightarrow> ('c, 's) cluster" where
  "set_peer i rf s = s\<lparr>peers := (peers s)[i := rf]\<rparr>"

datatype ('c, 's) cluster_event =
    CElect nat
  | CBroadcast nat nat
  | CHandle nat
  | CReply nat
  | CStart nat 'c
  | CApply nat
  | CSnapshot nat int "'s list"
  | CRestart nat

text \<open>What is seen of a run: votes (who, in which term, for whom) and elections won.\<close>

datatype cluster_report = Voted nat int int | Elected nat int

text \<open>\<^verbatim>\<open>StartElection\<close> starts a goroutine for every other peer.\<close>

definition elect :: "nat \<Rightarrow> ('c, 's) cluster \<Rightarrow> (('c, 's) cluster \<times> cluster_report list) option" where
  "elect i s =
     do { rf \<leftarrow> go_index (peers s) (int i);
          (rf', args) \<leftarrow> StartElection rf;
          let e = length (elections s);
          Some ((set_peer i rf' s)
                  \<lparr>elections := elections s @ [new_election],
                   sents := sents s @ map (\<lambda>j. send i j (ReqVote e args)) (filter (\<lambda>j. j \<noteq> i) [0..<length (peers s)])\<rparr>,
                [Voted i (rvTerm args) (CandidateId args)]) }"

fun leader_request :: "('c, 's) leader_rpc \<Rightarrow> ('c, 's) request" where
  "leader_request (SendAppendEntries a) = ReqAppend a"
| "leader_request (SendInstallSnapshot a) = ReqSnapshot a"

text \<open>\<^verbatim>\<open>BroadcastAppendEntries\<close>, the goroutine for one server.\<close>

definition broadcast :: "nat \<Rightarrow> nat \<Rightarrow> ('c, 's) cluster \<Rightarrow> (('c, 's) cluster \<times> cluster_report list) option" where
  "broadcast i j s =
     do { rf \<leftarrow> go_index (peers s) (int i);
          (rf', m) \<leftarrow> broadcast_to (int j) rf;
          let new = (case m of None \<Rightarrow> [] | Some r \<Rightarrow> [send i j (leader_request r)]);
          Some ((set_peer i rf' s)\<lparr>sents := sents s @ new\<rparr>, []) }"

text \<open>The handler of the peer that gets the request.\<close>

definition handle :: "nat \<Rightarrow> ('c, 's) cluster \<Rightarrow> (('c, 's) cluster \<times> cluster_report list) option" where
  "handle k s =
     (let w = sents s ! k in
      if length (sents s) \<le> k \<or> ans w \<noteq> None then Some (s, [])
      else do {
        rf \<leftarrow> go_index (peers s) (int (dst w));
        case req w of
          ReqVote e a \<Rightarrow>
            do { (rf', r) \<leftarrow> RequestVote a rf;
                 Some ((set_peer (dst w) rf' s)\<lparr>sents := (sents s)[k := w\<lparr>ans := Some (AnsVote r)\<rparr>]\<rparr>,
                       if VoteGranted r then [Voted (dst w) (rvTerm a) (CandidateId a)] else []) }
        | ReqAppend a \<Rightarrow>
            do { (rf', r) \<leftarrow> AppendEntries a rf;
                 Some ((set_peer (dst w) rf' s)\<lparr>sents := (sents s)[k := w\<lparr>ans := Some (AnsAppend r)\<rparr>],
                         heard := insert (dst w, aeTerm a) (heard s)\<rparr>, []) }
        | ReqSnapshot a \<Rightarrow>
            do { (rf', r, m) \<leftarrow> InstallSnapshot a rf;
                 Some ((set_peer (dst w) rf' s)\<lparr>sents := (sents s)[k := w\<lparr>ans := Some (AnsSnapshot r)\<rparr>]\<rparr>, []) } })"

text \<open>What the sender does with the reply.\<close>

definition take_reply :: "nat \<Rightarrow> ('c, 's) cluster \<Rightarrow> (('c, 's) cluster \<times> cluster_report list) option" where
  "take_reply k s =
     (let w = sents s ! k; s1 = s\<lparr>sents := (sents s)[k := w\<lparr>used := True\<rparr>]\<rparr> in
      if length (sents s) \<le> k \<or> used w then Some (s, [])
      else do {
        rf \<leftarrow> go_index (peers s) (int (src w));
        case (req w, ans w) of
          (ReqVote e a, Some (AnsVote r)) \<Rightarrow>
            do { el \<leftarrow> go_index (elections s) (int e);
                 (rf', el', won) \<leftarrow> handleVoteReply a r el rf;
                 Some ((set_peer (src w) rf' s1)\<lparr>elections := (elections s)[e := el']\<rparr>,
                       if won then [Elected (src w) (rvTerm a)] else []) }
        | (ReqAppend a, Some (AnsAppend r)) \<Rightarrow>
            do { rf' \<leftarrow> handleAppendEntriesReply (int (dst w)) a r rf; Some (set_peer (src w) rf' s1, []) }
        | (ReqSnapshot a, Some (AnsSnapshot r)) \<Rightarrow>
            do { rf' \<leftarrow> handleInstallSnapshotReply (int (dst w)) a r rf; Some (set_peer (src w) rf' s1, []) }
        | _ \<Rightarrow> Some (s, []) })"

text \<open>The calls by the service, and the steps of the applier.\<close>

definition local_step :: "nat \<Rightarrow> ('c, 's) event \<Rightarrow> ('c, 's) cluster \<Rightarrow> (('c, 's) cluster \<times> cluster_report list) option" where
  "local_step i ev s =
     do { rf \<leftarrow> go_index (peers s) (int i); (rf', vs) \<leftarrow> peer_step ev rf; Some (set_peer i rf' s, []) }"

text \<open>A crash takes the goroutines of the peer with it.\<close>

definition crash :: "nat \<Rightarrow> ('c, 's) cluster \<Rightarrow> (('c, 's) cluster \<times> cluster_report list) option" where
  "crash i s =
     do { rf \<leftarrow> go_index (peers s) (int i);
          Some ((set_peer i (restart rf) s)
                  \<lparr>sents := map (\<lambda>w. if src w = i then w\<lparr>used := True\<rparr> else w) (sents s)\<rparr>, []) }"

fun cluster_step :: "('c, 's) cluster_event \<Rightarrow> ('c, 's) cluster \<Rightarrow> (('c, 's) cluster \<times> cluster_report list) option" where
  "cluster_step (CElect i) s = elect i s"
| "cluster_step (CBroadcast i j) s = broadcast i j s"
| "cluster_step (CHandle k) s = handle k s"
| "cluster_step (CReply k) s = take_reply k s"
| "cluster_step (CStart i c) s = local_step i (EvStart c) s"
| "cluster_step (CApply i) s = local_step i EvApply s"
| "cluster_step (CSnapshot i idx sn) s = local_step i (EvSnapshot idx sn) s"
| "cluster_step (CRestart i) s = crash i s"

definition new_cluster :: "nat \<Rightarrow> ('c, 's) cluster" where
  "new_cluster n = \<lparr>peers = map (\<lambda>i. Make (int n) (int i) MakePersister) [0..<n], elections = [], sents = [], heard = {}\<rparr>"

text \<open>What a run is asked for: events name peers, a broadcast happens while \<^verbatim>\<open>nextIndex\<close> is at most one past the log,
  and no request for a vote is handled by a peer that has already handled an \<^verbatim>\<open>AppendEntries\<close> of its term.\<close>

fun cluster_ok :: "('c, 's) cluster_event \<Rightarrow> ('c, 's) cluster \<Rightarrow> bool" where
  "cluster_ok (CElect i) s \<longleftrightarrow> i < length (peers s)"
| "cluster_ok (CBroadcast i j) s \<longleftrightarrow>
     i < length (peers s) \<and> j < length (peers s) \<and> j \<noteq> i \<and> event_ok (EvBroadcast (int j)) (peers s ! i)"
| "cluster_ok (CHandle k) s \<longleftrightarrow>
     (k < length (sents s) \<longrightarrow>
        (case req (sents s ! k) of ReqVote e a \<Rightarrow> (dst (sents s ! k), rvTerm a) \<notin> heard s | _ \<Rightarrow> True))"
| "cluster_ok (CReply k) s \<longleftrightarrow> True"
| "cluster_ok (CStart i c) s \<longleftrightarrow> i < length (peers s)"
| "cluster_ok (CApply i) s \<longleftrightarrow> i < length (peers s)"
| "cluster_ok (CSnapshot i idx sn) s \<longleftrightarrow> i < length (peers s)"
| "cluster_ok (CRestart i) s \<longleftrightarrow> i < length (peers s)"

section \<open>How a step treats the role of a peer\<close>

lemma merge_entries_id: "merge_entries es i rf = Some rf' \<Longrightarrow> me rf' = me rf \<and> npeers rf' = npeers rf"
  by (induction es i rf rule: merge_entries.induct) (auto simp: bind_Some_iff split: if_splits)

lemma commit_id: "commit rf = Some rf' \<Longrightarrow> me rf' = me rf \<and> npeers rf' = npeers rf \<and> state rf' = state rf \<and> currentTerm rf' = currentTerm rf"
  by (auto simp: commit_def Let_def bind_Some_iff split: if_splits)

lemma AppendEntries_id: "AppendEntries a rf = Some (rf', r) \<Longrightarrow> me rf' = me rf \<and> npeers rf' = npeers rf"
  by (auto simp: AppendEntries_def Let_def bind_Some_iff dest!: merge_entries_id split: if_splits)

definition role_step :: "('c, 's) Raft \<Rightarrow> ('c, 's) Raft \<Rightarrow> bool" where
  "role_step rf rf' \<longleftrightarrow> me rf' = me rf \<and> npeers rf' = npeers rf \<and>
     (state rf' = Leader \<longrightarrow> state rf = Leader \<and> currentTerm rf' = currentTerm rf)"

lemma role_step_refl: "role_step rf rf"
  by (simp add: role_step_def)

lemma RequestVote_role: "RequestVote a rf = Some (rf', r) \<Longrightarrow> role_step rf rf'"
  by (auto simp: role_step_def RequestVote_def Let_def bind_Some_iff split: if_splits)

lemma AppendEntries_role: "AppendEntries a rf = Some (rf', r) \<Longrightarrow> role_step rf rf'"
  using AppendEntries_id [of a rf rf' r] AppendEntries_term [of a rf rf' r] by (auto simp: role_step_def split: if_splits)

lemma InstallSnapshot_role: "InstallSnapshot a rf = Some (rf', r, m) \<Longrightarrow> role_step rf rf'"
  by (auto simp: role_step_def InstallSnapshot_def Let_def bind_Some_iff split: if_splits)

lemma reply_role:
  "handleAppendEntriesReply i aa ar rf = Some rf' \<Longrightarrow> role_step rf rf'"
  "handleInstallSnapshotReply i sa sr rf = Some rf' \<Longrightarrow> role_step rf rf'"
  by (auto simp: role_step_def handleAppendEntriesReply_def handleInstallSnapshotReply_def bind_Some_iff
      dest!: commit_id split: if_splits)

lemma leader_role:
  "StartElection rf = Some (rf', ra) \<Longrightarrow> role_step rf rf'"
  "broadcast_to i rf = Some (rf', bm) \<Longrightarrow> role_step rf rf'"
  "Start c rf = Some (rf', ix, t, l) \<Longrightarrow> role_step rf rf'"
  by (auto simp: role_step_def StartElection_def broadcast_to_def Start_def Let_def bind_Some_iff split: if_splits)

lemma service_role:
  "applier_step rf = Some (rf', am) \<Longrightarrow> role_step rf rf'"
  "Snapshot ix sn rf = Some rf' \<Longrightarrow> role_step rf rf'"
  "durable rf \<Longrightarrow> role_step rf (restart rf)"
  by (auto simp: role_step_def applier_step_def Snapshot_def Let_def bind_Some_iff restart_fields split: if_splits)

lemma handleVoteReply_role:
  "0 \<le> npeers rf \<Longrightarrow> handleVoteReply a r el rf = Some (rf', el', won) \<Longrightarrow>
   (if won then me rf' = me rf \<and> npeers rf' = npeers rf \<and> currentTerm rf' = rvTerm a \<and> npeers rf < 2 * votes el' else role_step rf rf') \<and>
   votes el' \<le> votes el + (if VoteGranted r then 1 else 0)"
  by (auto simp: role_step_def handleVoteReply_def Let_def bind_Some_iff go_div_nonneg split: if_splits)

section \<open>The invariant\<close>

definition peer_ok :: "nat \<Rightarrow> cluster_report list \<Rightarrow> (nat \<times> int) set \<Rightarrow> nat \<Rightarrow> ('c, 's) Raft \<Rightarrow> bool" where
  "peer_ok n H hs i rf \<longleftrightarrow>
     raft_inv rf \<and> me rf = int i \<and> npeers rf = int n \<and>
     (\<forall>t c. Voted i t c \<in> set H \<longrightarrow>
        0 \<le> c \<and> t \<le> currentTerm rf \<and> (t = currentTerm rf \<longrightarrow> votedFor rf = c \<or> (i, t) \<in> hs)) \<and>
     (\<forall>t c c'. Voted i t c \<in> set H \<longrightarrow> Voted i t c' \<in> set H \<longrightarrow> c = c') \<and>
     (state rf = Leader \<longrightarrow> Elected i (currentTerm rf) \<in> set H)"

lemma peer_okD:
  assumes "peer_ok n H hs i rf"
  shows "raft_inv rf" "raft_wf rf" "durable rf" "me rf = int i" "npeers rf = int n"
    "\<And>t c. Voted i t c \<in> set H \<Longrightarrow> t \<le> currentTerm rf" "\<And>t c c'. Voted i t c \<in> set H \<Longrightarrow> Voted i t c' \<in> set H \<Longrightarrow> c = c'"
  using assms by (auto simp: peer_ok_def raft_inv_def)

lemma peer_ok_mono:
  assumes "peer_ok n H hs i rf" "\<And>t c. Voted i t c \<notin> set K" "hs \<subseteq> hs'"
  shows "peer_ok n (H @ K) hs' i rf"
proof -
  have "Voted i t c \<in> set (H @ K) \<longleftrightarrow> Voted i t c \<in> set H" for t c using assms(2) by simp
  with assms(1,3) show ?thesis by (simp add: peer_ok_def) blast
qed

text \<open>A step of the peer: what it keeps of the term and the vote, unless the vote was forgotten in a term that is heard.\<close>

lemma peer_ok_step:
  assumes "peer_ok n H hs i rf" "raft_inv rf'" "me rf' = me rf" "npeers rf' = npeers rf" "hs \<subseteq> hs'"
    and "currentTerm rf \<le> currentTerm rf'"
    and "currentTerm rf' = currentTerm rf \<Longrightarrow> votedFor rf' = votedFor rf \<or> votedFor rf = -1 \<or> (i, currentTerm rf) \<in> hs'"
    and "vs = [] \<or> vs = [(currentTerm rf', votedFor rf')] \<and> 0 \<le> votedFor rf' \<and> (currentTerm rf' = currentTerm rf \<longrightarrow> (i, currentTerm rf) \<notin> hs')"
    and "state rf' = Leader \<Longrightarrow> state rf = Leader \<and> currentTerm rf' = currentTerm rf \<or> Elected i (currentTerm rf') \<in> set E"
    and "\<And>j t c. Voted j t c \<notin> set E"
  shows "peer_ok n (H @ map (\<lambda>(t, c). Voted i t c) vs @ E) hs' i rf'"
proof -
  have old: "0 \<le> c \<and> t \<le> currentTerm rf' \<and> (t = currentTerm rf' \<longrightarrow> votedFor rf' = c \<or> (i, t) \<in> hs')"
    if "Voted i t c \<in> set H" for t c
  proof -
    have "0 \<le> c" "t \<le> currentTerm rf" "t = currentTerm rf \<longrightarrow> votedFor rf = c \<or> (i, t) \<in> hs"
      using assms(1) that by (auto simp: peer_ok_def)
    with assms(5-7) show ?thesis by (cases "t = currentTerm rf'") auto
  qed
  have new: "t = currentTerm rf' \<and> c = votedFor rf' \<and> 0 \<le> c \<and> (i, t) \<notin> hs' \<or> t = currentTerm rf' \<and> c = votedFor rf' \<and> 0 \<le> c \<and> currentTerm rf < t"
    if "(t, c) \<in> set vs" for t c
    using assms(6,8) that by auto
  have all: "Voted i t c \<in> set (H @ map (\<lambda>(t, c). Voted i t c) vs @ E) \<longleftrightarrow> Voted i t c \<in> set H \<or> (t, c) \<in> set vs" for t c
    using assms(10) by auto
  have uniq: "c = c'" if "Voted i t c \<in> set H \<or> (t, c) \<in> set vs" "Voted i t c' \<in> set H \<or> (t, c') \<in> set vs" for t c c'
    using that old new peer_okD(6,7) [OF assms(1)] by (metis linorder_not_less)
  have "state rf' = Leader \<longrightarrow> Elected i (currentTerm rf') \<in> set (H @ map (\<lambda>(t, c). Voted i t c) vs @ E)"
    using assms(1,9) by (auto simp: peer_ok_def)
  then show ?thesis
    unfolding peer_ok_def all using assms(1-4) old new uniq by (auto simp: peer_ok_def)
qed

text \<open>The calls: who sent what, and which votes were granted.\<close>

definition vote_of :: "('c, 's) request \<Rightarrow> (nat \<times> RequestVoteArgs) option" where
  "vote_of r = (case r of ReqVote e a \<Rightarrow> Some (e, a) | _ \<Rightarrow> None)"

lemma vote_of_simps: "vote_of (ReqVote e a) = Some (e, a)" "vote_of (ReqAppend aa) = None" "vote_of (ReqSnapshot sa) = None"
  by (simp_all add: vote_of_def)

definition granted :: "('c, 's) sent \<Rightarrow> bool" where
  "granted w \<longleftrightarrow> (case ans w of Some (AnsVote r) \<Rightarrow> VoteGranted r | _ \<Rightarrow> False)"

definition sent_ok :: "nat \<Rightarrow> cluster_report list \<Rightarrow> nat \<Rightarrow> ('c, 's) sent \<Rightarrow> bool" where
  "sent_ok n H m w \<longleftrightarrow> src w < n \<and> dst w < n \<and>
     (case req w of
        ReqVote e a \<Rightarrow> e < m \<and> CandidateId a = int (src w) \<and> dst w \<noteq> src w \<and> Voted (src w) (rvTerm a) (int (src w)) \<in> set H \<and>
          (granted w \<longrightarrow> Voted (dst w) (rvTerm a) (int (src w)) \<in> set H)
      | ReqAppend a \<Rightarrow> True
      | ReqSnapshot a \<Rightarrow> 0 \<le> isLastIncludedIndex a)"

definition ballots_ok :: "('c, 's) sent list \<Rightarrow> bool" where
  "ballots_ok ws \<longleftrightarrow>
     (\<forall>k < length ws. \<forall>k' < length ws. \<forall>e a a'. k \<noteq> k' \<longrightarrow> vote_of (req (ws ! k)) = Some (e, a) \<longrightarrow>
        vote_of (req (ws ! k')) = Some (e, a') \<longrightarrow> dst (ws ! k) \<noteq> dst (ws ! k') \<and> src (ws ! k) = src (ws ! k') \<and> a = a')"

definition yes :: "nat \<Rightarrow> ('c, 's) sent list \<Rightarrow> nat set" where
  "yes e ws = {dst w |w. w \<in> set ws \<and> used w \<and> granted w \<and> (\<exists>a. vote_of (req w) = Some (e, a))}"

definition quorum :: "nat \<Rightarrow> cluster_report list \<Rightarrow> nat \<Rightarrow> int \<Rightarrow> bool" where
  "quorum n H i t \<longleftrightarrow> n < 2 * card {j. j < n \<and> Voted j t (int i) \<in> set H}"

definition cluster_inv :: "nat \<Rightarrow> cluster_report list \<Rightarrow> ('c, 's) cluster \<Rightarrow> bool" where
  "cluster_inv n H s \<longleftrightarrow>
     length (peers s) = n \<and> (\<forall>i < n. peer_ok n H (heard s) i (peers s ! i)) \<and>
     (\<forall>w \<in> set (sents s). sent_ok n H (length (elections s)) w) \<and> ballots_ok (sents s) \<and>
     (\<forall>e < length (elections s). votes (elections s ! e) \<le> 1 + int (card (yes e (sents s)))) \<and>
     (\<forall>i t. Elected i t \<in> set H \<longrightarrow> i < n \<and> quorum n H i t)"

text \<open>Two quorums of one term share a peer, and a peer votes once.\<close>

lemma quorum_unique:
  assumes "cluster_inv n H s" "Elected i t \<in> set H" "Elected j t \<in> set H"
  shows "i = j"
proof -
  let ?A = "\<lambda>c. {p. p < n \<and> Voted p t (int c) \<in> set H}"
  have "n < 2 * card (?A i)" "n < 2 * card (?A j)" using assms by (auto simp: cluster_inv_def quorum_def)
  moreover have "card (?A i \<union> ?A j) \<le> n" using card_mono [of "{..<n}" "?A i \<union> ?A j"] by auto
  ultimately have "?A i \<inter> ?A j \<noteq> {}" using card_Un_disjoint [of "?A i" "?A j"] by auto
  then obtain p where "p < n" "Voted p t (int i) \<in> set H" "Voted p t (int j) \<in> set H" by auto
  moreover from this assms(1) have "peer_ok n H (heard s) p (peers s ! p)" by (simp add: cluster_inv_def)
  ultimately have "int i = int j" using peer_okD(7) by blast
  then show ?thesis by simp
qed

section \<open>Calls on their way\<close>

definition same_call :: "('c, 's) sent \<Rightarrow> ('c, 's) sent \<Rightarrow> bool" where
  "same_call w w' \<longleftrightarrow> src w' = src w \<and> dst w' = dst w \<and> req w' = req w \<and> (used w \<and> granted w \<longrightarrow> used w' \<and> granted w')"

lemma same_call_refl: "same_call w w"
  by (simp add: same_call_def)

lemma same_calls_update: "k < length ws \<Longrightarrow> same_call (ws ! k) w' \<Longrightarrow> list_all2 same_call ws (ws[k := w'])"
  by (simp add: list_all2_conv_all_nth nth_list_update same_call_refl)

lemma ballots_ok_same:
  assumes "list_all2 same_call ws ws'" "ballots_ok ws"
  shows "ballots_ok ws'"
  unfolding ballots_ok_def
proof (intro allI impI)
  fix k k' e a a'
  assume k: "k < length ws'" "k' < length ws'" "k \<noteq> k'" "vote_of (req (ws' ! k)) = Some (e, a)" "vote_of (req (ws' ! k')) = Some (e, a')"
  have "same_call (ws ! k) (ws' ! k)" "same_call (ws ! k') (ws' ! k')" "length ws = length ws'"
    using assms(1) k(1,2) by (simp_all add: list_all2_conv_all_nth)
  with k have "vote_of (req (ws ! k)) = Some (e, a)" "vote_of (req (ws ! k')) = Some (e, a')" "k < length ws" "k' < length ws"
    by (simp_all add: same_call_def)
  with assms(2) k(3) have "dst (ws ! k) \<noteq> dst (ws ! k') \<and> src (ws ! k) = src (ws ! k') \<and> a = a'"
    unfolding ballots_ok_def by blast
  then show "dst (ws' ! k) \<noteq> dst (ws' ! k') \<and> src (ws' ! k) = src (ws' ! k') \<and> a = a'"
    using \<open>same_call (ws ! k) (ws' ! k)\<close> \<open>same_call (ws ! k') (ws' ! k')\<close> by (simp add: same_call_def)
qed

lemma finite_yes: "finite (yes e ws)"
  by (rule finite_subset [of _ "dst ` set ws"]) (auto simp: yes_def)

lemma yesI: "w \<in> set ws \<Longrightarrow> used w \<Longrightarrow> granted w \<Longrightarrow> vote_of (req w) = Some (e, a) \<Longrightarrow> dst w \<in> yes e ws"
  by (auto simp: yes_def)

lemma yes_same:
  assumes "list_all2 same_call ws ws'"
  shows "yes e ws \<subseteq> yes e ws'"
proof
  fix j assume "j \<in> yes e ws"
  then obtain k a where k: "k < length ws" "j = dst (ws ! k)" "used (ws ! k)" "granted (ws ! k)" "vote_of (req (ws ! k)) = Some (e, a)"
    by (auto simp: yes_def in_set_conv_nth)
  then have "same_call (ws ! k) (ws' ! k)" "ws' ! k \<in> set ws'" using assms by (simp_all add: list_all2_conv_all_nth)
  with k yesI [of "ws' ! k" ws' e a] show "j \<in> yes e ws'" by (simp add: same_call_def)
qed

lemma votes_le_same:
  "list_all2 same_call ws ws' \<Longrightarrow> v \<le> 1 + int (card (yes e ws)) \<Longrightarrow> v \<le> 1 + int (card (yes e ws'))"
  using card_mono [OF finite_yes yes_same, of ws ws' e] by simp

lemma granted_used [simp]: "granted (w\<lparr>used := u\<rparr>) \<longleftrightarrow> granted w"
  by (simp add: granted_def)

lemma sent_ok_used [simp]: "sent_ok n H m (w\<lparr>used := u\<rparr>) \<longleftrightarrow> sent_ok n H m w"
  by (cases "req w") (simp_all add: sent_ok_def)

lemma sent_ok_mono: "sent_ok n H m w \<Longrightarrow> m \<le> m' \<Longrightarrow> sent_ok n (H @ K) m' w"
  by (auto simp: sent_ok_def split: request.splits)

lemma quorum_mono: "quorum n H i t \<Longrightarrow> quorum n (H @ K) i t"
  unfolding quorum_def
  by (rule order.strict_trans2, assumption) (auto intro!: card_mono)

text \<open>A goroutine whose call is not used yet is not counted, and the peers that are counted have voted for its sender.\<close>

lemma not_yet_counted:
  assumes "ballots_ok ws" "k < length ws" "\<not> used (ws ! k)" "vote_of (req (ws ! k)) = Some (e, a)"
  shows "dst (ws ! k) \<notin> yes e ws"
proof
  assume "dst (ws ! k) \<in> yes e ws"
  then obtain k' a' where "k' < length ws" "used (ws ! k')" "vote_of (req (ws ! k')) = Some (e, a')" "dst (ws ! k') = dst (ws ! k)"
    by (auto simp: yes_def in_set_conv_nth)
  moreover from this have "k' \<noteq> k" using assms(3) by blast
  ultimately show False using assms(1,2,4) unfolding ballots_ok_def by blast
qed

lemma counted_voted:
  assumes "ballots_ok ws" "\<forall>w \<in> set ws. sent_ok n H m w" "k < length ws" "vote_of (req (ws ! k)) = Some (e, a)"
  shows "insert (src (ws ! k)) (yes e ws) \<subseteq> {j. j < n \<and> Voted j (rvTerm a) (int (src (ws ! k))) \<in> set H}"
    and "src (ws ! k) \<notin> yes e ws"
proof -
  have ok: "src w < n \<and> dst w < n \<and> dst w \<noteq> src w \<and> Voted (src w) (rvTerm b) (int (src w)) \<in> set H \<and>
      (granted w \<longrightarrow> Voted (dst w) (rvTerm b) (int (src w)) \<in> set H)"
    if "w \<in> set ws" "vote_of (req w) = Some (e, b)" for w b
    using assms(2) that by (auto simp: sent_ok_def vote_of_def split: request.splits)
  have one: "src w = src (ws ! k) \<and> b = a" if "w \<in> set ws" "vote_of (req w) = Some (e, b)" for w b
  proof -
    obtain k' where k': "k' < length ws" "w = ws ! k'" using \<open>w \<in> set ws\<close> by (auto simp: in_set_conv_nth)
    show ?thesis
    proof (cases "k' = k")
      case False
      then show ?thesis using assms(1,3,4) that(2) k' unfolding ballots_ok_def by blast
    qed (use assms(4) that(2) k' in simp)
  qed
  show "insert (src (ws ! k)) (yes e ws) \<subseteq> {j. j < n \<and> Voted j (rvTerm a) (int (src (ws ! k))) \<in> set H}"
    using ok [OF nth_mem [OF assms(3)] assms(4)] ok one by (auto simp: yes_def)
  show "src (ws ! k) \<notin> yes e ws"
  proof
    assume "src (ws ! k) \<in> yes e ws"
    then obtain w b where "w \<in> set ws" "vote_of (req w) = Some (e, b)" "dst w = src (ws ! k)" by (auto simp: yes_def)
    then show False using ok [of w b] one [of w b] by simp
  qed
qed

section \<open>Every step keeps the invariant\<close>

lemma cluster_invD:
  assumes "cluster_inv n H s"
  shows "length (peers s) = n" "\<And>i. i < n \<Longrightarrow> peer_ok n H (heard s) i (peers s ! i)"
    "\<forall>w \<in> set (sents s). sent_ok n H (length (elections s)) w" "ballots_ok (sents s)"
    "\<And>e. e < length (elections s) \<Longrightarrow> votes (elections s ! e) \<le> 1 + int (card (yes e (sents s)))"
    "\<And>i t. Elected i t \<in> set H \<Longrightarrow> i < n \<and> quorum n H i t"
  using assms by (auto simp: cluster_inv_def)

lemma cluster_inv_step:
  assumes "cluster_inv n H s" "peers s' = (peers s)[i := rf']" "peer_ok n (H @ K) (heard s') i rf'"
    and "heard s \<subseteq> heard s'" "\<And>j t c. Voted j t c \<in> set K \<Longrightarrow> j = i"
    and "\<forall>w \<in> set (sents s'). sent_ok n (H @ K) (length (elections s')) w" "ballots_ok (sents s')"
    and "\<And>e. e < length (elections s') \<Longrightarrow> votes (elections s' ! e) \<le> 1 + int (card (yes e (sents s')))"
    and "\<And>j t. Elected j t \<in> set K \<Longrightarrow> j < n \<and> quorum n (H @ K) j t"
  shows "cluster_inv n (H @ K) s'"
proof -
  have "peer_ok n (H @ K) (heard s') j (peers s' ! j)" if "j < n" for j
  proof (cases "j = i")
    case False
    then show ?thesis
      using assms(2,5) peer_ok_mono [OF cluster_invD(2) [OF assms(1) that] _ assms(4), of K] by auto
  qed (use assms(2,3) cluster_invD(1) [OF assms(1)] that in simp)
  moreover have "j < n \<and> quorum n (H @ K) j t" if "Elected j t \<in> set (H @ K)" for j t
    using that assms(9) cluster_invD(6) [OF assms(1)] quorum_mono by (metis Un_iff set_append)
  ultimately show ?thesis using assms(2,6-8) cluster_invD(1) [OF assms(1)] by (simp add: cluster_inv_def)
qed

text \<open>Steps that leave the elections alone and start no call for a vote.\<close>

lemma cluster_inv_calls:
  assumes "cluster_inv n H s" "peers s' = (peers s)[i := rf']" "peer_ok n (H @ K) (heard s') i rf'"
    and "heard s \<subseteq> heard s'" "\<And>j t c. Voted j t c \<in> set K \<Longrightarrow> j = i" "\<And>j t. Elected j t \<notin> set K"
    and "elections s' = elections s" "list_all2 same_call (sents s) (sents s')"
    and "\<forall>w \<in> set (sents s'). sent_ok n (H @ K) (length (elections s')) w"
  shows "cluster_inv n (H @ K) s'"
proof (rule cluster_inv_step [OF assms(1-5,9)])
  show "ballots_ok (sents s')" by (rule ballots_ok_same [OF assms(8) cluster_invD(4) [OF assms(1)]])
  show "votes (elections s' ! e) \<le> 1 + int (card (yes e (sents s')))" if "e < length (elections s')" for e
    using votes_le_same [OF assms(8) cluster_invD(5) [OF assms(1)]] assms(7) that by simp
qed (use assms(6) in simp_all)

lemma peer_ok_vote_step:
  assumes "peer_ok n H hs i rf" "raft_inv rf'" "role_step rf rf'" "vote_step rf rf' vs" "hs \<subseteq> hs'"
    and "vs \<noteq> [] \<Longrightarrow> currentTerm rf' = currentTerm rf \<Longrightarrow> (i, currentTerm rf) \<notin> hs'"
  shows "peer_ok n (H @ map (\<lambda>(t, c). Voted i t c) vs) hs' i rf'"
  using peer_ok_step [OF assms(1,2) _ _ assms(5), of vs "[]"] assms(3,4,6) by (auto simp: role_step_def vote_step_def)

lemma peer_event_ok:
  assumes "peer_ok n H hs i rf" "event_ok ev rf" "keeps_vote ev rf" "peer_step ev rf = Some (rf', vs)" "role_step rf rf'"
    and "vs \<noteq> [] \<Longrightarrow> currentTerm rf' = currentTerm rf \<Longrightarrow> (i, currentTerm rf) \<notin> hs"
  shows "peer_ok n (H @ map (\<lambda>(t, c). Voted i t c) vs) hs i rf'"
proof (rule peer_ok_vote_step [OF assms(1) _ assms(5) _ order_refl assms(6)])
  have inv: "raft_inv rf" by (rule peer_okD(1) [OF assms(1)])
  show "raft_inv rf'" using peer_step_inv [OF inv assms(2)] assms(4) by simp
  show "vote_step rf rf' vs" by (rule peer_step_votes [OF inv assms(3,4)])
qed

lemma ballots_okD:
  assumes "ballots_ok ws" "k < length ws" "k' < length ws" "k \<noteq> k'"
    and "vote_of (req (ws ! k)) = Some (e, a)" "vote_of (req (ws ! k')) = Some (e, a')"
  shows "dst (ws ! k) \<noteq> dst (ws ! k') \<and> src (ws ! k) = src (ws ! k') \<and> a = a'"
  using assms unfolding ballots_ok_def by blast

lemma ballots_ok_append:
  assumes "ballots_ok ws" "ballots_ok us"
    and "\<And>w u e a b. w \<in> set ws \<Longrightarrow> u \<in> set us \<Longrightarrow> vote_of (req w) = Some (e, a) \<Longrightarrow> vote_of (req u) \<noteq> Some (e, b)"
  shows "ballots_ok (ws @ us)"
  unfolding ballots_ok_def
proof (intro allI impI)
  let ?w = "\<lambda>k. (ws @ us) ! k" and ?old = "\<lambda>k. k < length ws"
  fix k k' e a a'
  assume k: "k < length (ws @ us)" "k' < length (ws @ us)" "k \<noteq> k'"
    and v: "vote_of (req (?w k)) = Some (e, a)" "vote_of (req (?w k')) = Some (e, a')"
  have side: "?w m \<in> set (if ?old m then ws else us)" if "m < length (ws @ us)" for m
    using that by (auto simp: nth_append)
  have "\<not> (?old k \<and> \<not> ?old k')" using assms(3) [OF _ _ v(1)] side [OF k(1)] side [OF k(2)] v(2) by (metis (full_types))
  moreover have "\<not> (?old k' \<and> \<not> ?old k)" using assms(3) [OF _ _ v(2)] side [OF k(1)] side [OF k(2)] v(1) by (metis (full_types))
  ultimately consider "?old k" "?old k'" | "\<not> ?old k" "\<not> ?old k'" by blast
  then show "dst (?w k) \<noteq> dst (?w k') \<and> src (?w k) = src (?w k') \<and> a = a'"
  proof cases
    case 1
    with v show ?thesis using ballots_okD [OF assms(1) _ _ k(3)] by (simp add: nth_append)
  next
    case 2
    with v k show ?thesis using ballots_okD [OF assms(2), of "k - length ws" "k' - length ws" e a a'] by (simp add: nth_append)
  qed
qed

lemma yes_append: "yes e ws \<subseteq> yes e (ws @ us)"
  by (auto simp: yes_def)

lemma votes_le_append: "v \<le> 1 + int (card (yes e ws)) \<Longrightarrow> v \<le> 1 + int (card (yes e (ws @ us)))"
  using card_mono [OF finite_yes yes_append, of e ws us] by simp

lemma StartElection_facts:
  "StartElection rf = Some (rf', a) \<Longrightarrow>
   currentTerm rf' = currentTerm rf + 1 \<and> rvTerm a = currentTerm rf' \<and> CandidateId a = me rf"
  by (auto simp: StartElection_def Let_def bind_Some_iff)

lemma elect_inv:
  assumes "cluster_inv n H s" "i < n"
  shows "returns (elect i s) (\<lambda>(s', K). cluster_inv n (H @ K) s')"
proof -
  let ?rf = "peers s ! i" and ?m = "length (elections s)"
  have ok: "peer_ok n H (heard s) i ?rf" by (rule cluster_invD(2) [OF assms])
  obtain rf' a where el: "StartElection ?rf = Some (rf', a)"
    using StartElection_ok [OF peer_okD(1) [OF ok]] by (auto elim!: returnsE)
  have a: "CandidateId a = int i" "currentTerm rf' = currentTerm ?rf + 1" using StartElection_facts [OF el] peer_okD(4) [OF ok] by auto
  let ?K = "[Voted i (rvTerm a) (int i)]" and ?new = "map (\<lambda>j. send i j (ReqVote ?m a)) (filter (\<lambda>j. j \<noteq> i) [0..<length (peers s)])"
  have peer: "peer_ok n (H @ ?K) (heard s) i rf'"
    using peer_event_ok [OF ok, of EvStartElection rf' "[(rvTerm a, CandidateId a)]"] el leader_role(1) [OF el] a by simp
  have new: "sent_ok n (H @ ?K) (Suc ?m) w" if "w \<in> set ?new" for w
    using that assms(2) a cluster_invD(1) [OF assms(1)] by (auto simp: sent_ok_def send_def granted_def)
  have "distinct (filter (\<lambda>j. j \<noteq> i) [0..<length (peers s)])" by simp
  then have "ballots_ok ?new" by (auto simp: ballots_ok_def send_def vote_of_def nth_eq_iff_index_eq)
  moreover have "vote_of (req w) = Some (e, b) \<Longrightarrow> e < ?m" if "w \<in> set (sents s)" for w e b
    using cluster_invD(3) [OF assms(1)] that by (auto simp: sent_ok_def vote_of_def split: request.splits)
  ultimately have bal: "ballots_ok (sents s @ ?new)"
    by (intro ballots_ok_append [OF cluster_invD(4) [OF assms(1)]]) (fastforce simp: send_def vote_of_simps)+
  have "votes ((elections s @ [new_election]) ! e) \<le> 1 + int (card (yes e (sents s @ ?new)))" if "e < Suc ?m" for e
    using that votes_le_append [OF cluster_invD(5) [OF assms(1)], of e ?new] by (cases "e = ?m") (auto simp: nth_append new_election_def)
  then have "cluster_inv n (H @ ?K) ((set_peer i rf' s)\<lparr>elections := elections s @ [new_election], sents := sents s @ ?new\<rparr>)"
    using peer bal new cluster_invD(3) [OF assms(1)]
    by (intro cluster_inv_step [OF assms(1), of _ i rf']) (auto simp: set_peer_def intro: sent_ok_mono)
  then show ?thesis
    using el a cluster_invD(1) [OF assms(1)] assms(2) by (simp add: elect_def Let_def go_len_def)
qed

lemma broadcast_facts:
  "broadcast_to j rf = Some (rf', Some (SendInstallSnapshot a)) \<Longrightarrow> raft_wf rf \<Longrightarrow> 0 \<le> isLastIncludedIndex a"
  by (auto simp: broadcast_to_def Let_def bind_Some_iff raft_wf_def split: if_splits)

lemma broadcast_inv:
  assumes "cluster_inv n H s" "i < n" "j < n" "event_ok (EvBroadcast (int j)) (peers s ! i)"
  shows "returns (broadcast i j s) (\<lambda>(s', K). cluster_inv n (H @ K) s')"
proof -
  let ?rf = "peers s ! i"
  have ok: "peer_ok n H (heard s) i ?rf" by (rule cluster_invD(2) [OF assms(1,2)])
  obtain rf' m where b: "broadcast_to (int j) ?rf = Some (rf', m)"
    using broadcast_to_ok [OF peer_okD(1) [OF ok], of "int j"] assms(4) by (auto elim!: returnsE)
  let ?new = "case m of None \<Rightarrow> [] | Some r \<Rightarrow> [send i j (leader_request r)]"
  have peer: "peer_ok n (H @ []) (heard s) i rf'"
    using peer_event_ok [OF ok assms(4), of rf' "[]"] b leader_role(2) [OF b] by simp
  have new: "sent_ok n H l w \<and> vote_of (req w) = None" if "w \<in> set ?new" for w l
  proof -
    obtain r where r: "m = Some r" "w = send i j (leader_request r)" using \<open>w \<in> set ?new\<close> by (cases m) auto
    then show ?thesis
      using assms(2,3) broadcast_facts [of "int j" ?rf rf'] b peer_okD(2) [OF ok]
      by (cases r) (auto simp: sent_ok_def send_def vote_of_def)
  qed
  have "ballots_ok ?new" using new nth_mem unfolding ballots_ok_def by (metis option.distinct(1))
  then have bal: "ballots_ok (sents s @ ?new)"
    using new by (intro ballots_ok_append [OF cluster_invD(4) [OF assms(1)]]) auto
  have "cluster_inv n (H @ []) ((set_peer i rf' s)\<lparr>sents := sents s @ ?new\<rparr>)"
    using peer bal new cluster_invD(3) [OF assms(1)] votes_le_append [OF cluster_invD(5) [OF assms(1)]]
    by (intro cluster_inv_step [OF assms(1), of _ i rf']) (auto simp: set_peer_def)
  then show ?thesis using b cluster_invD(1) [OF assms(1)] assms(2) by (simp add: broadcast_def Let_def go_len_def)
qed

lemma local_inv:
  assumes "cluster_inv n H s" "i < n" "event_ok ev (peers s ! i)" "keeps_vote ev (peers s ! i)"
    and "\<And>rf' vs. peer_step ev (peers s ! i) = Some (rf', vs) \<Longrightarrow> role_step (peers s ! i) rf' \<and> vs = []"
  shows "returns (local_step i ev s) (\<lambda>(s', K). cluster_inv n (H @ K) s')"
proof -
  have ok: "peer_ok n H (heard s) i (peers s ! i)" by (rule cluster_invD(2) [OF assms(1,2)])
  obtain rf' vs where st: "peer_step ev (peers s ! i) = Some (rf', vs)"
    using peer_step_inv [OF peer_okD(1) [OF ok] assms(3)] by (auto elim!: returnsE)
  then have peer: "peer_ok n (H @ []) (heard s) i rf'" using peer_event_ok [OF ok assms(3,4) st] assms(5) [OF st] by simp
  have "cluster_inv n (H @ []) (set_peer i rf' s)"
    using peer cluster_invD(3) [OF assms(1)]
    by (intro cluster_inv_calls [OF assms(1), of _ i rf']) (auto simp: set_peer_def list_all2_same same_call_refl)
  then show ?thesis using st cluster_invD(1) [OF assms(1)] assms(2) by (simp add: local_step_def go_len_def)
qed

lemma crash_inv:
  assumes "cluster_inv n H s" "i < n"
  shows "returns (crash i s) (\<lambda>(s', K). cluster_inv n (H @ K) s')"
proof -
  let ?rf = "peers s ! i" and ?f = "\<lambda>w. if src w = i then w\<lparr>used := True\<rparr> else w"
  have ok: "peer_ok n H (heard s) i ?rf" by (rule cluster_invD(2) [OF assms])
  have peer: "peer_ok n (H @ []) (heard s) i (restart ?rf)"
    using peer_event_ok [OF ok, of EvRestart "restart ?rf" "[]"] service_role(3) [OF peer_okD(3) [OF ok]] by simp
  have "cluster_inv n (H @ []) ((set_peer i (restart ?rf) s)\<lparr>sents := map ?f (sents s)\<rparr>)"
    using peer cluster_invD(3) [OF assms(1)]
    by (intro cluster_inv_calls [OF assms(1), of _ i "restart ?rf"])
      (auto simp: set_peer_def list_all2_map2 list_all2_same same_call_def)
  then show ?thesis using cluster_invD(1) [OF assms(1)] assms(2) by (simp add: crash_def go_len_def)
qed

text \<open>An answer comes in.\<close>

lemma answer_calls:
  assumes "cluster_inv n H s" "k < length (sents s)" "ans (sents s ! k) = None"
    and "peer_ok n (H @ K) (heard s') (dst (sents s ! k)) rf'" "heard s \<subseteq> heard s'"
    and "\<And>j t c. Voted j t c \<in> set K \<Longrightarrow> j = dst (sents s ! k)" "\<And>j t. Elected j t \<notin> set K"
    and "\<And>e a r. req (sents s ! k) = ReqVote e a \<Longrightarrow> b = AnsVote r \<Longrightarrow> VoteGranted r \<Longrightarrow>
        Voted (dst (sents s ! k)) (rvTerm a) (CandidateId a) \<in> set K"
    and "peers s' = (peers s)[dst (sents s ! k) := rf']" "sents s' = (sents s)[k := (sents s ! k)\<lparr>ans := Some b\<rparr>]"
    and "elections s' = elections s"
  shows "cluster_inv n (H @ K) s'"
proof -
  let ?w = "sents s ! k" and ?m = "length (elections s)"
  have w: "sent_ok n H ?m ?w" using cluster_invD(3) [OF assms(1)] assms(2) by simp
  then have "sent_ok n (H @ K) ?m (?w\<lparr>ans := Some b\<rparr>)"
    using assms(8) by (cases "req ?w"; cases b) (auto simp: sent_ok_def granted_def)
  moreover have "sent_ok n (H @ K) ?m w" if "w \<in> set (sents s)" for w
    using cluster_invD(3) [OF assms(1)] that by (auto intro: sent_ok_mono)
  ultimately have "\<forall>w \<in> set (sents s'). sent_ok n (H @ K) (length (elections s')) w"
    using set_update_subset_insert [of "sents s" k "?w\<lparr>ans := Some b\<rparr>"] assms(10,11) by auto
  moreover have "list_all2 same_call (sents s) (sents s')"
    using same_calls_update [OF assms(2), of "?w\<lparr>ans := Some b\<rparr>"] assms(3,10) by (simp add: same_call_def granted_def)
  ultimately show ?thesis using cluster_inv_calls [OF assms(1,9,4-7,11)] by simp
qed

lemma RequestVote_same_term:
  "RequestVote a rf = Some (rf', r) \<Longrightarrow> VoteGranted r \<Longrightarrow> currentTerm rf' = rvTerm a"
  by (auto simp: RequestVote_def Let_def bind_Some_iff split: if_splits)

lemma vote_inv:
  assumes "cluster_inv n H s" "k < length (sents s)" "ans (sents s ! k) = None" "req (sents s ! k) = ReqVote e a"
    and "(dst (sents s ! k), rvTerm a) \<notin> heard s"
  shows "returns (handle k s) (\<lambda>(s', K). cluster_inv n (H @ K) s')"
proof -
  let ?w = "sents s ! k"
  let ?rf = "peers s ! dst ?w"
  have w: "sent_ok n H (length (elections s)) ?w" using cluster_invD(3) [OF assms(1)] assms(2) by simp
  then have d: "dst ?w < n" "CandidateId a = int (src ?w)" using assms(4) by (auto simp: sent_ok_def)
  have ok: "peer_ok n H (heard s) (dst ?w) ?rf" by (rule cluster_invD(2) [OF assms(1) d(1)])
  obtain rf' r where rv: "RequestVote a ?rf = Some (rf', r)"
    using RequestVote_ok [OF peer_okD(1) [OF ok], of a] by (auto elim!: returnsE)
  let ?K = "if VoteGranted r then [Voted (dst ?w) (rvTerm a) (CandidateId a)] else []"
  have "VoteGranted r \<Longrightarrow> currentTerm rf' = currentTerm ?rf \<Longrightarrow> (dst ?w, currentTerm ?rf) \<notin> heard s"
    using RequestVote_same_term [OF rv] assms(5) by metis
  then have "peer_ok n (H @ ?K) (heard s) (dst ?w) rf'"
    using peer_event_ok [OF ok, of "EvRequestVote a" rf' "if VoteGranted r then [(rvTerm a, CandidateId a)] else []"]
      rv RequestVote_role [OF rv] d(2) by (cases "VoteGranted r") simp_all
  then have "cluster_inv n (H @ ?K) ((set_peer (dst ?w) rf' s)\<lparr>sents := (sents s)[k := ?w\<lparr>ans := Some (AnsVote r)\<rparr>]\<rparr>)"
    using assms(4) by (intro answer_calls [OF assms(1-3), of _ _ rf']) (auto simp: set_peer_def split: if_splits)
  then show ?thesis
    using assms(2-4) rv d(1) cluster_invD(1) [OF assms(1)] by (cases "VoteGranted r") (simp_all add: handle_def Let_def go_len_def)
qed

lemma append_inv:
  assumes "cluster_inv n H s" "k < length (sents s)" "ans (sents s ! k) = None" "req (sents s ! k) = ReqAppend a"
  shows "returns (handle k s) (\<lambda>(s', K). cluster_inv n (H @ K) s')"
proof -
  let ?w = "sents s ! k"
  let ?rf = "peers s ! dst ?w" and ?hs = "insert (dst ?w, aeTerm a) (heard s)"
  have d: "dst ?w < n" using cluster_invD(3) [OF assms(1)] assms(2) by (auto simp: sent_ok_def)
  have ok: "peer_ok n H (heard s) (dst ?w) ?rf" by (rule cluster_invD(2) [OF assms(1) d])
  obtain rf' r where ae: "AppendEntries a ?rf = Some (rf', r)" and inv: "raft_inv rf'"
    using AppendEntries_ok [OF peer_okD(1) [OF ok], of a] by (auto simp: steps_ok_def elim!: returnsE)
  have "peer_ok n (H @ map (\<lambda>(t, c). Voted (dst ?w) t c) [] @ []) ?hs (dst ?w) rf'"
    using AppendEntries_term [OF ae] AppendEntries_id [OF ae]
    by (intro peer_ok_step [OF ok inv]) (auto split: if_splits)
  then have "cluster_inv n (H @ []) ((set_peer (dst ?w) rf' s)\<lparr>sents := (sents s)[k := ?w\<lparr>ans := Some (AnsAppend r)\<rparr>], heard := ?hs\<rparr>)"
    by (intro answer_calls [OF assms(1-3), of _ _ rf']) (auto simp: set_peer_def)
  then show ?thesis using assms(2-4) ae d cluster_invD(1) [OF assms(1)] by (simp add: handle_def Let_def go_len_def)
qed

lemma snapshot_inv:
  assumes "cluster_inv n H s" "k < length (sents s)" "ans (sents s ! k) = None" "req (sents s ! k) = ReqSnapshot a"
  shows "returns (handle k s) (\<lambda>(s', K). cluster_inv n (H @ K) s')"
proof -
  let ?w = "sents s ! k"
  let ?rf = "peers s ! dst ?w"
  have "sent_ok n H (length (elections s)) ?w" using cluster_invD(3) [OF assms(1)] assms(2) by simp
  then have d: "dst ?w < n" "0 \<le> isLastIncludedIndex a" using assms(4) by (auto simp: sent_ok_def)
  have ok: "peer_ok n H (heard s) (dst ?w) ?rf" by (rule cluster_invD(2) [OF assms(1) d(1)])
  obtain rf' r m where ins: "InstallSnapshot a ?rf = Some (rf', r, m)"
    using InstallSnapshot_ok [OF peer_okD(1) [OF ok] d(2)] by (auto elim!: returnsE)
  have "peer_ok n (H @ []) (heard s) (dst ?w) rf'"
    using peer_event_ok [OF ok, of "EvInstallSnapshot a" rf' "[]"] ins InstallSnapshot_role [OF ins] d(2) by simp
  then have "cluster_inv n (H @ []) ((set_peer (dst ?w) rf' s)\<lparr>sents := (sents s)[k := ?w\<lparr>ans := Some (AnsSnapshot r)\<rparr>]\<rparr>)"
    by (intro answer_calls [OF assms(1-3), of _ _ rf']) (auto simp: set_peer_def)
  then show ?thesis using assms(2-4) ins d(1) cluster_invD(1) [OF assms(1)] by (simp add: handle_def Let_def go_len_def)
qed

text \<open>A reply is used. The votes an election counts are those of the calls that were used and granted.\<close>

lemma count_vote:
  assumes "ballots_ok ws" "k < length ws" "\<not> used (ws ! k)" "vote_of (req (ws ! k)) = Some (e, a)"
    and "v \<le> 1 + int (card (yes e ws))" "v' \<le> v + (if granted (ws ! k) then 1 else 0)"
  shows "v' \<le> 1 + int (card (yes e (ws[k := (ws ! k)\<lparr>used := True\<rparr>])))"
proof -
  let ?ws = "ws[k := (ws ! k)\<lparr>used := True\<rparr>]"
  have sub: "yes e ws \<subseteq> yes e ?ws"
    by (rule yes_same [OF same_calls_update [OF assms(2)]]) (simp add: same_call_def)
  show ?thesis
  proof (cases "granted (ws ! k)")
    case True
    then have "dst (ws ! k) \<in> yes e ?ws"
      using yesI [of "(ws ! k)\<lparr>used := True\<rparr>" ?ws e a] assms(2,4) by (simp add: set_update_memI)
    then have "Suc (card (yes e ws)) \<le> card (yes e ?ws)"
      using card_mono [OF finite_yes, of "insert (dst (ws ! k)) (yes e ws)" e ?ws] sub not_yet_counted [OF assms(1-4)]
        finite_yes [of e ws] by simp
    then show ?thesis using assms(5,6) True by simp
  next
    case False
    then show ?thesis using assms(5,6) card_mono [OF finite_yes sub] by simp
  qed
qed

lemma won_quorum:
  assumes "ballots_ok ws" "\<forall>w \<in> set ws. sent_ok n H m w" "k < length ws" "vote_of (req (ws ! k)) = Some (e, a)"
    and "int n < 2 * v" "v \<le> 1 + int (card (yes e ws))"
  shows "quorum n H (src (ws ! k)) (rvTerm a)"
proof -
  let ?A = "{j. j < n \<and> Voted j (rvTerm a) (int (src (ws ! k))) \<in> set H}"
  have "Suc (card (yes e ws)) \<le> card ?A"
    using card_mono [OF _ counted_voted(1) [OF assms(1-4)]] counted_voted(2) [OF assms(1-4)] finite_yes [of e ws] by simp
  then show ?thesis using assms(5,6) by (simp add: quorum_def)
qed

text \<open>A goroutine that is through with its call.\<close>

lemma use_calls:
  assumes "cluster_inv n H s" "k < length (sents s)" "\<not> used (sents s ! k)" "ans (sents s ! k) \<noteq> None"
    and "peers s' = (peers s)[src (sents s ! k) := rf']" "sents s' = (sents s)[k := (sents s ! k)\<lparr>used := True\<rparr>]"
    and "elections s' = elections s" "heard s' = heard s" "peer_ok n H (heard s) (src (sents s ! k)) rf'"
  shows "cluster_inv n H s'"
proof -
  have "list_all2 same_call (sents s) (sents s')"
    using same_calls_update [OF assms(2), of "(sents s ! k)\<lparr>used := True\<rparr>"] assms(6) by (simp add: same_call_def)
  moreover have "\<forall>w \<in> set (sents s'). sent_ok n H (length (elections s')) w"
    using cluster_invD(3) [OF assms(1)] set_update_subset_insert [of "sents s" k "(sents s ! k)\<lparr>used := True\<rparr>"] assms(2,6,7) by auto
  ultimately show ?thesis using cluster_inv_calls [OF assms(1,5), of "[]"] assms(7-9) by simp
qed

lemma vote_reply_inv:
  assumes "cluster_inv n H s" "k < length (sents s)" "\<not> used (sents s ! k)"
    and "req (sents s ! k) = ReqVote e a" "ans (sents s ! k) = Some (AnsVote r)"
  shows "returns (take_reply k s) (\<lambda>(s', K). cluster_inv n (H @ K) s')"
proof -
  let ?w = "sents s ! k" and ?ws = "(sents s)[k := (sents s ! k)\<lparr>used := True\<rparr>]"
  let ?rf = "peers s ! src ?w" and ?el = "elections s ! e"
  have "sent_ok n H (length (elections s)) ?w" using cluster_invD(3) [OF assms(1)] assms(2) by simp
  then have d: "src ?w < n" "e < length (elections s)" using assms(4) by (auto simp: sent_ok_def)
  have ok: "peer_ok n H (heard s) (src ?w) ?rf" by (rule cluster_invD(2) [OF assms(1) d(1)])
  obtain rf' el' won where hv: "handleVoteReply a r ?el ?rf = Some (rf', el', won)"
    using handleVoteReply_ok [OF peer_okD(1) [OF ok], of a r ?el] by (auto elim!: returnsE)
  have inv: "raft_inv rf'" using peer_step_inv [OF peer_okD(1) [OF ok], of "EvVoteReply a r ?el"] hv by simp
  have vs: "vote_step ?rf rf' []" using peer_step_votes [OF peer_okD(1) [OF ok], of "EvVoteReply a r ?el"] hv by simp
  have role: "if won then me rf' = me ?rf \<and> npeers rf' = npeers ?rf \<and> currentTerm rf' = rvTerm a \<and> int n < 2 * votes el' else role_step ?rf rf'"
    and cnt: "votes el' \<le> votes ?el + (if VoteGranted r then 1 else 0)"
    using handleVoteReply_role [OF _ hv] peer_okD(5) [OF ok] by (auto split: if_splits)
  let ?K = "if won then [Elected (src ?w) (rvTerm a)] else []"
  have peer: "peer_ok n (H @ map (\<lambda>(t, c). Voted (src ?w) t c) [] @ ?K) (heard s) (src ?w) rf'"
    using role vs by (intro peer_ok_step [OF ok inv]) (auto simp: role_step_def vote_step_def split: if_splits)
  have bal: "ballots_ok ?ws"
    by (rule ballots_ok_same [OF same_calls_update [OF assms(2)] cluster_invD(4) [OF assms(1)]]) (simp add: same_call_def)
  have vote: "vote_of (req ?w) = Some (e, a)" using assms(4) by (simp add: vote_of_def)
  have el': "votes el' \<le> 1 + int (card (yes e ?ws))"
    using count_vote [OF cluster_invD(4) [OF assms(1)] assms(2,3) vote cluster_invD(5) [OF assms(1) d(2)]] cnt assms(5) by (simp add: granted_def)
  have els: "votes ((elections s)[e := el'] ! e') \<le> 1 + int (card (yes e' ?ws))" if "e' < length (elections s)" for e'
    using el' votes_le_same [OF same_calls_update [OF assms(2)] cluster_invD(5) [OF assms(1) that]] that
    by (cases "e' = e") (simp_all add: same_call_def)
  have sok: "\<forall>w \<in> set ?ws. sent_ok n H (length (elections s)) w"
    using cluster_invD(3) [OF assms(1)] set_update_subset_insert [of "sents s" k "?w\<lparr>used := True\<rparr>"] assms(2) by auto
  have "won \<Longrightarrow> quorum n H (src ?w) (rvTerm a)"
    using won_quorum [OF bal sok, of k e a "votes el'"] assms(2) vote role el' by simp
  then have "cluster_inv n (H @ ?K) ((set_peer (src ?w) rf' (s\<lparr>sents := ?ws\<rparr>))\<lparr>elections := (elections s)[e := el']\<rparr>)"
    using peer bal els sok d(1)
    by (intro cluster_inv_step [OF assms(1), of _ "src ?w" rf']) (auto simp: set_peer_def intro: sent_ok_mono quorum_mono split: if_splits)
  then show ?thesis
    using assms(2-5) hv d cluster_invD(1) [OF assms(1)] by (cases won) (simp_all add: take_reply_def Let_def go_len_def set_peer_def)
qed

lemma leader_reply_inv:
  assumes "cluster_inv n H s" "k < length (sents s)" "\<not> used (sents s ! k)"
    and "req (sents s ! k) = ReqAppend aa \<and> ans (sents s ! k) = Some (AnsAppend ar) \<or>
         req (sents s ! k) = ReqSnapshot sa \<and> ans (sents s ! k) = Some (AnsSnapshot sr)"
  shows "returns (take_reply k s) (\<lambda>(s', K). cluster_inv n (H @ K) s')"
proof -
  let ?w = "sents s ! k"
  let ?rf = "peers s ! src ?w" and ?s1 = "s\<lparr>sents := (sents s)[k := ?w\<lparr>used := True\<rparr>]\<rparr>"
  have d: "src ?w < n" "dst ?w < n" using cluster_invD(3) [OF assms(1)] assms(2) by (auto simp: sent_ok_def)
  have ok: "peer_ok n H (heard s) (src ?w) ?rf" by (rule cluster_invD(2) [OF assms(1) d(1)])
  let ?ev = "case req ?w of ReqAppend _ \<Rightarrow> EvAppendReply (int (dst ?w)) aa ar | _ \<Rightarrow> EvSnapshotReply (int (dst ?w)) sa sr"
  have ev: "event_ok ?ev ?rf" "keeps_vote ?ev ?rf" using assms(4) d(2) peer_okD(5) [OF ok] by auto
  obtain rf' vs where st: "peer_step ?ev ?rf = Some (rf', vs)"
    using peer_step_inv [OF peer_okD(1) [OF ok] ev(1)] by (auto elim!: returnsE)
  have role: "vs = [] \<and> role_step ?rf rf'" using st assms(4) reply_role by (auto simp: bind_Some_iff)
  then have "peer_ok n H (heard s) (src ?w) rf'" using peer_event_ok [OF ok ev st] by simp
  then have "cluster_inv n H (set_peer (src ?w) rf' ?s1)"
    using assms(4) by (intro use_calls [OF assms(1-3)]) (auto simp: set_peer_def)
  then show ?thesis
    using assms(2-4) st d cluster_invD(1) [OF assms(1)] by (auto simp: take_reply_def Let_def go_len_def bind_Some_iff)
qed

lemma take_reply_inv:
  assumes "cluster_inv n H s"
  shows "returns (take_reply k s) (\<lambda>(s', K). cluster_inv n (H @ K) s')"
proof (cases "k < length (sents s) \<and> \<not> used (sents s ! k)")
  case True
  then have d: "src (sents s ! k) < length (peers s)"
    using cluster_invD(1,3) [OF assms] by (auto simp: sent_ok_def)
  show ?thesis
    using True vote_reply_inv [OF assms, of k] leader_reply_inv [OF assms, of k] assms d
    by (cases "req (sents s ! k)"; cases "ans (sents s ! k)"; cases "the (ans (sents s ! k))")
      (auto simp: take_reply_def Let_def go_len_def)
qed (use assms in \<open>auto simp: take_reply_def Let_def\<close>)

lemma handle_inv:
  assumes "cluster_inv n H s" "cluster_ok (CHandle k) s"
  shows "returns (handle k s) (\<lambda>(s', K). cluster_inv n (H @ K) s')"
proof (cases "k < length (sents s) \<and> ans (sents s ! k) = None")
  case True
  then show ?thesis
    using assms vote_inv [OF assms(1), of k] append_inv [OF assms(1), of k] snapshot_inv [OF assms(1), of k]
    by (cases "req (sents s ! k)") auto
qed (use assms(1) in \<open>auto simp: handle_def Let_def\<close>)

lemma cluster_step_inv:
  assumes "cluster_inv n H s" "cluster_ok e s"
  shows "returns (cluster_step e s) (\<lambda>(s', K). cluster_inv n (H @ K) s')"
proof -
  have len: "length (peers s) = n" by (rule cluster_invD(1) [OF assms(1)])
  show ?thesis
  proof (cases e)
    case (CElect i) then show ?thesis using elect_inv [OF assms(1)] assms(2) len by simp
  next
    case (CBroadcast i j) then show ?thesis using broadcast_inv [OF assms(1), of i j] assms(2) len by simp
  next
    case (CHandle k) then show ?thesis using handle_inv [OF assms(1), of k] assms(2) by simp
  next
    case (CReply k) then show ?thesis using take_reply_inv [OF assms(1), of k] by simp
  next
    case (CStart i c)
    have "role_step (peers s ! i) rf' \<and> vs = []" if "peer_step (EvStart c) (peers s ! i) = Some (rf', vs)" for rf' vs
      using that by (auto simp: bind_Some_iff dest: leader_role(3))
    then show ?thesis using local_inv [OF assms(1), of i "EvStart c"] CStart assms(2) len by simp
  next
    case (CApply i)
    then show ?thesis using local_inv [OF assms(1), of i EvApply] assms(2) len service_role(1) by (auto simp: bind_Some_iff)
  next
    case (CSnapshot i ix sn)
    then show ?thesis using local_inv [OF assms(1), of i "EvSnapshot ix sn"] assms(2) len service_role(2) by (auto simp: bind_Some_iff)
  next
    case (CRestart i) then show ?thesis using crash_inv [OF assms(1)] assms(2) len by simp
  qed
qed

interpretation cluster: machine cluster_step cluster_ok "cluster_inv n" for n
  by unfold_locales (rule cluster_step_inv)

lemma fresh_peer_ok: "i < n \<Longrightarrow> peer_ok n [] {} i (Make (int n) (int i) MakePersister)"
  using Make_fresh_ok [of "int i" "int n"]
  by (auto simp: peer_ok_def Make_def Let_def ReadRaftState_def MakePersister_def readPersist_def)

lemma new_cluster_inv: "cluster_inv n [] (new_cluster n)"
  by (simp add: cluster_inv_def new_cluster_def ballots_ok_def fresh_peer_ok)

section \<open>Elections\<close>


text \<open>Peer 0 wins term 1 with the vote of peer 1 and sends it a heartbeat; peer 2, which has not heard of it, stands in
  term 1, is refused, and wins term 2.\<close>

definition two_terms :: "(nat, nat) cluster_event list" where
  "two_terms =
     [CElect 0, CHandle 0, CReply 0, CBroadcast 0 1, CHandle 2, CReply 2, CElect 2, CHandle 3, CReply 3, CElect 2, CHandle 6, CReply 6]"



end
