(* ===== verification/LabRPC.thy ===== *)
theory LabRPC
  imports Machine
begin

text \<open>
  The simulated network, \<^verbatim>\<open>lec-2025/src/labrpc/labrpc.go\<close>. A call is carried by goroutines of its own, so its life is
  a sequence of stages that interleaves with other calls and with the tester's changes to the network. The
  execution of a handler is one step. Arguments and replies are the bytes that \<^verbatim>\<open>labgob\<close> writes; what they
  encode is up to the handler.
\<close>

section \<open>Services and servers\<close>

type_synonym ('b, 'o) handler = "'b list \<Rightarrow> 'o \<Rightarrow> ('o \<times> 'b list) option"

text \<open>What reflection tells of a method.\<close>

record ('b, 'o) Method =
  mname :: string
  PkgPath :: string
  NumIn :: int
  In2_is_Ptr :: bool
  NumOut :: int
  Func :: "('b, 'o) handler"

text \<open>The receiver of a service is an object of the store.\<close>

record ('b, 'o) Service =
  svc_name :: string
  rcvr :: nat
  svc_methods :: "string \<rightharpoonup> ('b, 'o) handler"

record ('b, 'o) Server =
  services :: "string \<rightharpoonup> ('b, 'o) Service"
  srv_count :: int

definition suitable :: "('b, 'o) Method \<Rightarrow> bool" where
  "suitable method \<longleftrightarrow> \<not> (PkgPath method \<noteq> '''' \<or> NumIn method \<noteq> 3 \<or> \<not> In2_is_Ptr method \<or> NumOut method \<noteq> 0)"

definition MakeService :: "string \<Rightarrow> nat \<Rightarrow> ('b, 'o) Method list \<Rightarrow> ('b, 'o) Service" where
  "MakeService type_name obj typ =
     \<lparr>svc_name = type_name, rcvr = obj,
      svc_methods = fold (\<lambda>method m. if suitable method then m(mname method \<mapsto> Func method) else m) typ Map.empty\<rparr>"

definition service_dispatch :: "string \<Rightarrow> 'b list \<Rightarrow> ('b, 'o) Service \<Rightarrow> 'o list \<Rightarrow> ('o list \<times> 'b list) option" where
  "service_dispatch methname args svc objs =
     do { f \<leftarrow> svc_methods svc methname;
          obj \<leftarrow> go_index objs (int (rcvr svc));
          (obj', reply) \<leftarrow> f args obj;
          Some (objs[rcvr svc := obj'], reply) }"

definition MakeServer :: "('b, 'o) Server" where
  "MakeServer = \<lparr>services = Map.empty, srv_count = 0\<rparr>"

definition AddService :: "('b, 'o) Service \<Rightarrow> ('b, 'o) Server \<Rightarrow> ('b, 'o) Server" where
  "AddService svc rs = rs\<lparr>services := (services rs)(svc_name svc \<mapsto> svc)\<rparr>"

text \<open>\<^verbatim>\<open>strings.LastIndex(s, ".")\<close>.\<close>

definition last_dot :: "string \<Rightarrow> int" where
  "last_dot s = (if CHR ''.'' \<in> set s then int (length s - 1 - length (takeWhile (\<lambda>c. c \<noteq> CHR ''.'') (rev s))) else -1)"

definition server_dispatch ::
  "string \<Rightarrow> 'b list \<Rightarrow> ('b, 'o) Server \<Rightarrow> 'o list \<Rightarrow> (('b, 'o) Server \<times> 'o list \<times> 'b list) option" where
  "server_dispatch svcMeth args rs objs =
     do { let dot = last_dot svcMeth;
          serviceName \<leftarrow> go_upto svcMeth dot;
          methodName \<leftarrow> go_from svcMeth (dot + 1);
          service \<leftarrow> services rs serviceName;
          (objs', reply) \<leftarrow> service_dispatch methodName args service objs;
          Some (rs\<lparr>srv_count := srv_count rs + 1\<rparr>, objs', reply) }"

section \<open>The network\<close>

text \<open>Servers are pointers, here positions in a list of servers; nil and no entry read alike.\<close>

record ('e, 'n) Network =
  reliable :: bool
  longDelays :: bool
  longReordering :: bool
  ends :: "'e set"
  enabled :: "'e \<rightharpoonup> bool"
  servers :: "'n \<rightharpoonup> nat"
  connections :: "'e \<rightharpoonup> 'n"
  net_count :: "32 word"
  net_bytes :: "64 word"
  cleaned :: bool

definition MakeNetwork :: "('e, 'n) Network" where
  "MakeNetwork =
     \<lparr>reliable = True, longDelays = False, longReordering = False, ends = {}, enabled = Map.empty, servers = Map.empty,
      connections = Map.empty, net_count = 0, net_bytes = 0, cleaned = False\<rparr>"

definition Cleanup :: "('e, 'n) Network \<Rightarrow> ('e, 'n) Network option" where
  "Cleanup rn = (if cleaned rn then None else Some (rn\<lparr>cleaned := True\<rparr>))"

definition Reliable :: "bool \<Rightarrow> ('e, 'n) Network \<Rightarrow> ('e, 'n) Network" where
  "Reliable yes rn = rn\<lparr>reliable := yes\<rparr>"

definition IsReliable :: "('e, 'n) Network \<Rightarrow> bool" where
  "IsReliable rn = reliable rn"

definition LongReordering :: "bool \<Rightarrow> ('e, 'n) Network \<Rightarrow> ('e, 'n) Network" where
  "LongReordering yes rn = rn\<lparr>longReordering := yes\<rparr>"

definition LongDelays :: "bool \<Rightarrow> ('e, 'n) Network \<Rightarrow> ('e, 'n) Network" where
  "LongDelays yes rn = rn\<lparr>longDelays := yes\<rparr>"

definition IsLongDelays :: "('e, 'n) Network \<Rightarrow> bool" where
  "IsLongDelays rn = longDelays rn"

definition MakeEnd :: "'e \<Rightarrow> ('e, 'n) Network \<Rightarrow> ('e, 'n) Network option" where
  "MakeEnd endname rn =
     (if endname \<in> ends rn then None
      else Some (rn\<lparr>ends := insert endname (ends rn), enabled := (enabled rn)(endname \<mapsto> False),
                    connections := (connections rn)(endname := None)\<rparr>))"

definition DeleteEnd :: "'e \<Rightarrow> ('e, 'n) Network \<Rightarrow> ('e, 'n) Network option" where
  "DeleteEnd endname rn =
     (if endname \<notin> ends rn then None
      else Some (rn\<lparr>ends := ends rn - {endname}, enabled := (enabled rn)(endname := None),
                    connections := (connections rn)(endname := None)\<rparr>))"

definition AddServer :: "'n \<Rightarrow> nat \<Rightarrow> ('e, 'n) Network \<Rightarrow> ('e, 'n) Network" where
  "AddServer servername rs rn = rn\<lparr>servers := (servers rn)(servername \<mapsto> rs)\<rparr>"

definition DeleteServer :: "'n \<Rightarrow> ('e, 'n) Network \<Rightarrow> ('e, 'n) Network" where
  "DeleteServer servername rn = rn\<lparr>servers := (servers rn)(servername := None)\<rparr>"

definition Connect :: "'e \<Rightarrow> 'n \<Rightarrow> ('e, 'n) Network \<Rightarrow> ('e, 'n) Network" where
  "Connect endname servername rn = rn\<lparr>connections := (connections rn)(endname \<mapsto> servername)\<rparr>"

definition Enable :: "'e \<Rightarrow> bool \<Rightarrow> ('e, 'n) Network \<Rightarrow> ('e, 'n) Network" where
  "Enable endname b rn = rn\<lparr>enabled := (enabled rn)(endname \<mapsto> b)\<rparr>"

definition GetCount :: "'n \<Rightarrow> ('b, 'o) Server list \<Rightarrow> ('e, 'n) Network \<Rightarrow> int option" where
  "GetCount servername srvs rn = do { svr \<leftarrow> servers rn servername; rs \<leftarrow> go_index srvs (int svr); Some (srv_count rs) }"

definition GetTotalCount :: "('e, 'n) Network \<Rightarrow> int" where
  "GetTotalCount rn = sint (net_count rn)"

definition GetTotalBytes :: "('e, 'n) Network \<Rightarrow> int" where
  "GetTotalBytes rn = sint (net_bytes rn)"

definition is_enabled :: "'e \<Rightarrow> ('e, 'n) Network \<Rightarrow> bool" where
  "is_enabled endname rn = (case enabled rn endname of None \<Rightarrow> False | Some b \<Rightarrow> b)"

definition readEndnameInfo :: "'e \<Rightarrow> ('e, 'n) Network \<Rightarrow> bool \<times> 'n option \<times> nat option \<times> bool \<times> bool" where
  "readEndnameInfo endname rn =
     (let servername = connections rn endname;
          server = (case servername of None \<Rightarrow> None | Some n \<Rightarrow> servers rn n)
      in (is_enabled endname rn, servername, server, reliable rn, longReordering rn))"

definition isServerDead :: "'e \<Rightarrow> 'n \<Rightarrow> nat \<Rightarrow> ('e, 'n) Network \<Rightarrow> bool" where
  "isServerDead endname servername server rn \<longleftrightarrow> \<not> is_enabled endname rn \<or> servers rn servername \<noteq> Some server"

section \<open>Calls\<close>

text \<open>The stages of \<^verbatim>\<open>processReq\<close>: the request was received; it goes to a server, whose name and pointer were read together
  with the settings of the network; a goroutine was started for the handler; the wait has ended, with the reply or
  without; an answer is on its way to \<^verbatim>\<open>Call\<close>; \<^verbatim>\<open>Call\<close> has returned.\<close>

datatype ('n, 'b) stage =
    Received
  | Going 'n nat bool bool
  | Waiting 'n nat bool bool
  | Checking 'n nat bool bool "'b list option"
  | Replying bool "'b list"
  | Done

text \<open>\<open>handler\<close> is the server of the goroutine that executes the request, \<open>ech\<close> what it has sent.\<close>

record ('e, 'n, 'b) call =
  call_end :: 'e
  svcMeth :: string
  call_args :: "'b list"
  stage :: "('n, 'b) stage"
  handler :: "('n \<times> nat) option"
  ran :: bool
  ech :: "'b list option"

text \<open>\<open>added\<close> records the servers that were ever added; the program does not have it.\<close>

record ('e, 'n, 'b, 'o) rpc_sys =
  net :: "('e, 'n) Network"
  srvs :: "('b, 'o) Server list"
  objs :: "'o list"
  calls :: "('e, 'n, 'b) call list"
  added :: "nat set"

text \<open>What the tester does to the network.\<close>

datatype ('e, 'n) net_event =
    NReliable bool
  | NLongReordering bool
  | NLongDelays bool
  | NMakeEnd 'e
  | NDeleteEnd 'e
  | NDeleteServer 'n
  | NConnect 'e 'n
  | NEnable 'e bool
  | NCleanup

fun net_step :: "('e, 'n) net_event \<Rightarrow> ('e, 'n) Network \<Rightarrow> ('e, 'n) Network option" where
  "net_step (NReliable b) rn = Some (Reliable b rn)"
| "net_step (NLongReordering b) rn = Some (LongReordering b rn)"
| "net_step (NLongDelays b) rn = Some (LongDelays b rn)"
| "net_step (NMakeEnd e) rn = MakeEnd e rn"
| "net_step (NDeleteEnd e) rn = DeleteEnd e rn"
| "net_step (NDeleteServer n) rn = Some (DeleteServer n rn)"
| "net_step (NConnect e n) rn = Some (Connect e n rn)"
| "net_step (NEnable e b) rn = Some (Enable e b rn)"
| "net_step NCleanup rn = Cleanup rn"

text \<open>The steps of a call, of its two goroutines, and of the tester.\<close>

datatype proc_event = Read | Drop | Spawn | Receive | Tick | Check bool

datatype ('e, 'n, 'b, 'o) rpc_event =
    ECall 'e string "'b list" bool
  | EProcess nat proc_event
  | EExecute nat
  | EDeliver nat
  | ENetwork "('e, 'n) net_event"
  | EMakeServer
  | EAddService nat "('b, 'o) Service"
  | EAddServer 'n nat

text \<open>What is seen of a run: handlers that ran (whether their server was registered then) and calls that returned.\<close>

datatype 'b rpc_report =
    Ran nat nat bool "'b list"
  | Returned nat bool "'b list"

definition new_call :: "'e \<Rightarrow> string \<Rightarrow> 'b list \<Rightarrow> ('n, 'b) stage \<Rightarrow> ('e, 'n, 'b) call" where
  "new_call e m a st = \<lparr>call_end = e, svcMeth = m, call_args = a, stage = st, handler = None, ran = False, ech = None\<rparr>"

definition set_call :: "nat \<Rightarrow> ('e, 'n, 'b) call \<Rightarrow> ('e, 'n, 'b, 'o) rpc_sys \<Rightarrow> ('e, 'n, 'b, 'o) rpc_sys" where
  "set_call i c s = s\<lparr>calls := (calls s)[i := c]\<rparr>"

text \<open>The first steps of \<^verbatim>\<open>processReq\<close>.\<close>

definition read_info :: "('e, 'n) Network \<Rightarrow> ('e, 'n, 'b) call \<Rightarrow> ('e, 'n, 'b) call" where
  "read_info rn c =
     (case readEndnameInfo (call_end c) rn of
        (True, Some servername, Some server, rel, longre) \<Rightarrow> c\<lparr>stage := Going servername server rel longre\<rparr>
      | _ \<Rightarrow> c\<lparr>stage := Replying False []\<rparr>)"

text \<open>After the wait: the reply is dropped if the server is dead by now, or by chance if the network is not reliable.\<close>

definition check_reply :: "bool \<Rightarrow> ('e, 'n) Network \<Rightarrow> 'n \<Rightarrow> nat \<Rightarrow> bool \<Rightarrow> 'b list option \<Rightarrow> ('e, 'n, 'b) call \<Rightarrow> ('e, 'n, 'b) call" where
  "check_reply unlucky rn servername server rel reply c =
     (case reply of
        None \<Rightarrow> c\<lparr>stage := Replying False []\<rparr>
      | Some r \<Rightarrow>
          if isServerDead (call_end c) servername server rn then c\<lparr>stage := Replying False []\<rparr>
          else if \<not> rel \<and> unlucky then c\<lparr>stage := Replying False []\<rparr>
          else c\<lparr>stage := Replying True r\<rparr>)"

text \<open>The goroutine that executes the handler.\<close>

definition execute :: "nat \<Rightarrow> ('e, 'n, 'b, 'o) rpc_sys \<Rightarrow> (('e, 'n, 'b, 'o) rpc_sys \<times> 'b rpc_report list) option" where
  "execute i s =
     (let c = calls s ! i in
      case handler c of
        Some (servername, server) \<Rightarrow>
          if ran c then Some (s, [])
          else do { rs \<leftarrow> go_index (srvs s) (int server);
                    (rs', objs', reply) \<leftarrow> server_dispatch (svcMeth c) (call_args c) rs (objs s);
                    Some ((set_call i (c\<lparr>ran := True, ech := Some reply\<rparr>) s)\<lparr>srvs := (srvs s)[server := rs'], objs := objs'\<rparr>,
                          [Ran i server (servers (net s) servername = Some server) reply]) }
      | None \<Rightarrow> Some (s, []))"

text \<open>The goroutine of \<^verbatim>\<open>processReq\<close>. An event that does not fit the stage has no effect.\<close>

fun processReq :: "proc_event \<Rightarrow> ('e, 'n) Network \<Rightarrow> ('e, 'n, 'b) call \<Rightarrow> ('e, 'n, 'b) call" where
  "processReq Read rn c = (if stage c = Received then read_info rn c else c)"
| "processReq Drop rn c =
     (case stage c of Going n p rel longre \<Rightarrow> if \<not> rel then c\<lparr>stage := Replying False []\<rparr> else c | _ \<Rightarrow> c)"
| "processReq Spawn rn c =
     (case stage c of Going n p rel longre \<Rightarrow> c\<lparr>stage := Waiting n p rel longre, handler := Some (n, p)\<rparr> | _ \<Rightarrow> c)"
| "processReq Receive rn c =
     (case (stage c, ech c) of
        (Waiting n p rel longre, Some r) \<Rightarrow> c\<lparr>stage := Checking n p rel longre (Some r)\<rparr>
      | _ \<Rightarrow> c)"
| "processReq Tick rn c =
     (case stage c of
        Waiting n p rel longre \<Rightarrow> if isServerDead (call_end c) n p rn then c\<lparr>stage := Checking n p rel longre None\<rparr> else c
      | _ \<Rightarrow> c)"
| "processReq (Check unlucky) rn c =
     (case stage c of Checking n p rel longre reply \<Rightarrow> check_reply unlucky rn n p rel reply c | _ \<Rightarrow> c)"

text \<open>\<^verbatim>\<open>Call\<close> sends its request, unless the network was cleaned up, and returns what comes back. The bytes of a
  reply are counted when it is sent.\<close>

definition Call_send :: "'e \<Rightarrow> string \<Rightarrow> 'b list \<Rightarrow> bool \<Rightarrow> ('e, 'n, 'b, 'o) rpc_sys \<Rightarrow>
    ('e, 'n, 'b, 'o) rpc_sys \<times> 'b rpc_report list" where
  "Call_send e m a sent s =
     (if sent
      then (s\<lparr>calls := calls s @ [new_call e m a Received],
              net := (net s)\<lparr>net_count := net_count (net s) + 1, net_bytes := net_bytes (net s) + of_nat (length a)\<rparr>\<rparr>, [])
      else (s\<lparr>calls := calls s @ [new_call e m a Done]\<rparr>, [Returned (length (calls s)) False []]))"

definition Call_return :: "nat \<Rightarrow> ('e, 'n, 'b, 'o) rpc_sys \<Rightarrow> ('e, 'n, 'b, 'o) rpc_sys \<times> 'b rpc_report list" where
  "Call_return i s =
     (case stage (calls s ! i) of
        Replying ok r \<Rightarrow>
          ((set_call i ((calls s ! i)\<lparr>stage := Done\<rparr>) s)
             \<lparr>net := (net s)\<lparr>net_bytes := net_bytes (net s) + (if ok then of_nat (length r) else 0)\<rparr>\<rparr>, [Returned i ok r])
      | _ \<Rightarrow> (s, []))"

fun rpc_step :: "('e, 'n, 'b, 'o) rpc_event \<Rightarrow> ('e, 'n, 'b, 'o) rpc_sys \<Rightarrow>
    (('e, 'n, 'b, 'o) rpc_sys \<times> 'b rpc_report list) option" where
  "rpc_step (ECall e m a sent) s = Some (Call_send e m a sent s)"
| "rpc_step (EProcess i ev) s =
     Some (if i < length (calls s) then set_call i (processReq ev (net s) (calls s ! i)) s else s, [])"
| "rpc_step (EExecute i) s = (if i < length (calls s) then execute i s else Some (s, []))"
| "rpc_step (EDeliver i) s = Some (if i < length (calls s) then Call_return i s else (s, []))"
| "rpc_step (ENetwork ev) s = do { rn \<leftarrow> net_step ev (net s); Some (s\<lparr>net := rn\<rparr>, []) }"
| "rpc_step EMakeServer s = Some (s\<lparr>srvs := srvs s @ [MakeServer]\<rparr>, [])"
| "rpc_step (EAddService p svc) s =
     do { rs \<leftarrow> go_index (srvs s) (int p); Some (s\<lparr>srvs := (srvs s)[p := AddService svc rs]\<rparr>, []) }"
| "rpc_step (EAddServer n p) s = Some (s\<lparr>net := AddServer n p (net s), added := insert p (added s)\<rparr>, [])"

definition rpc_start :: "'o list \<Rightarrow> ('e, 'n, 'b, 'o) rpc_sys" where
  "rpc_start os = \<lparr>net = MakeNetwork, srvs = [], objs = os, calls = [], added = {}\<rparr>"

text \<open>What the tester owes: the steps of its own do not end the process, a server is added under a name at most once in
  its life, and \<^verbatim>\<open>Call\<close> fails to send only after the cleanup.\<close>

fun rpc_ok :: "('e, 'n, 'b, 'o) rpc_event \<Rightarrow> ('e, 'n, 'b, 'o) rpc_sys \<Rightarrow> bool" where
  "rpc_ok (ECall e m a sent) s \<longleftrightarrow> sent \<or> cleaned (net s)"
| "rpc_ok (EAddServer n p) s \<longleftrightarrow> p \<notin> added s"
| "rpc_ok e s \<longleftrightarrow> rpc_step e s \<noteq> None"

section \<open>Invariant\<close>

definition rans :: "nat \<Rightarrow> 'b rpc_report list \<Rightarrow> 'b rpc_report list" where
  "rans i H = filter (\<lambda>x. case x of Ran j _ _ _ \<Rightarrow> j = i | Returned _ _ _ \<Rightarrow> False) H"

definition rets :: "nat \<Rightarrow> 'b rpc_report list \<Rightarrow> 'b rpc_report list" where
  "rets i H = filter (\<lambda>x. case x of Ran _ _ _ _ \<Rightarrow> False | Returned j _ _ \<Rightarrow> j = i) H"

lemma rans_rets_simps [simp]:
  "rans i [] = []" "rets i [] = []" "rans i (H @ K) = rans i H @ rans i K" "rets i (H @ K) = rets i H @ rets i K"
  "rans i [Ran j p l r] = (if j = i then [Ran j p l r] else [])" "rans i [Returned j ok r] = []"
  "rets i [Ran j p l r] = []" "rets i [Returned j ok r] = (if j = i then [Returned j ok r] else [])"
  by (simp_all add: rans_def rets_def)

text \<open>Each positive answer comes after its handler ran, on a server that was registered then.\<close>

fun replies_ok :: "'b rpc_report list \<Rightarrow> bool" where
  "replies_ok [] \<longleftrightarrow> True"
| "replies_ok (Returned i ok r # earlier) \<longleftrightarrow> (ok \<longrightarrow> (\<exists>p. Ran i p True r \<in> set earlier)) \<and> replies_ok earlier"
| "replies_ok (Ran i p l r # earlier) \<longleftrightarrow> replies_ok earlier"

definition stage_ok :: "('n \<rightharpoonup> nat) \<Rightarrow> nat set \<Rightarrow> 'b rpc_report list \<Rightarrow> nat \<Rightarrow> ('e, 'n, 'b) call \<Rightarrow> bool" where
  "stage_ok reg A H i c \<longleftrightarrow>
     (case stage c of
        Received \<Rightarrow> handler c = None
      | Going n p rel longre \<Rightarrow> handler c = None \<and> p \<in> A
      | Waiting n p rel longre \<Rightarrow> handler c = Some (n, p)
      | Checking n p rel longre reply \<Rightarrow> handler c = Some (n, p) \<and> (reply \<noteq> None \<longrightarrow> reply = ech c)
      | Replying ok r \<Rightarrow> ok \<longrightarrow> (\<exists>p. Ran i p True r \<in> set H)
      | Done \<Rightarrow> True)"

definition handler_ok :: "('n \<rightharpoonup> nat) \<Rightarrow> nat set \<Rightarrow> 'b rpc_report list \<Rightarrow> nat \<Rightarrow> ('e, 'n, 'b) call \<Rightarrow> bool" where
  "handler_ok reg A H i c \<longleftrightarrow>
     (\<forall>n p. handler c = Some (n, p) \<longrightarrow> p \<in> A) \<and>
     (if ran c then \<exists>n p l r. handler c = Some (n, p) \<and> ech c = Some r \<and> rans i H = [Ran i p l r] \<and> (l \<or> reg n \<noteq> Some p)
      else ech c = None \<and> rans i H = [])"

definition call_ok :: "('n \<rightharpoonup> nat) \<Rightarrow> nat set \<Rightarrow> 'b rpc_report list \<Rightarrow> nat \<Rightarrow> ('e, 'n, 'b) call \<Rightarrow> bool" where
  "call_ok reg A H i c \<longleftrightarrow>
     stage_ok reg A H i c \<and> handler_ok reg A H i c \<and> (if stage c = Done then length (rets i H) = 1 else rets i H = [])"

definition rpc_inv :: "'b rpc_report list \<Rightarrow> ('e, 'n, 'b, 'o) rpc_sys \<Rightarrow> bool" where
  "rpc_inv H s \<longleftrightarrow>
     (\<forall>i < length (calls s). call_ok (servers (net s)) (added s) H i (calls s ! i)) \<and>
     (\<forall>i \<ge> length (calls s). rans i H = [] \<and> rets i H = []) \<and>
     (\<forall>n p. servers (net s) n = Some p \<longrightarrow> p \<in> added s) \<and> replies_ok (rev H)"

lemma rpc_invD:
  assumes "rpc_inv H s"
  shows "\<And>i. i < length (calls s) \<Longrightarrow> call_ok (servers (net s)) (added s) H i (calls s ! i)"
    "\<And>i. length (calls s) \<le> i \<Longrightarrow> rans i H = []" "\<And>i. length (calls s) \<le> i \<Longrightarrow> rets i H = []"
    "\<And>n p. servers (net s) n = Some p \<Longrightarrow> p \<in> added s" "replies_ok (rev H)"
  using assms by (simp_all add: rpc_inv_def)

text \<open>A call is kept by what happens to other calls, and by changes of the network that register no old server.\<close>

lemma call_ok_mono:
  assumes "call_ok reg A H i c" "rans i K = []" "rets i K = []" "A \<subseteq> A'"
    and "\<And>n p. p \<in> A \<Longrightarrow> reg' n = Some p \<Longrightarrow> reg n = Some p"
  shows "call_ok reg' A' (H @ K) i c"
proof -
  have "stage_ok reg' A' (H @ K) i c" using assms(1,4) by (auto simp: call_ok_def stage_ok_def split: stage.splits)
  moreover have "handler_ok reg' A' (H @ K) i c"
    using assms by (force simp: call_ok_def handler_ok_def split: if_splits)
  ultimately show ?thesis using assms(1,3) by (simp add: call_ok_def)
qed

lemma set_call_inv:
  assumes "rpc_inv H s" "i < length (calls s)" "call_ok (servers (net s)) (added s) (H @ K) i c"
    and "\<And>j. j \<noteq> i \<Longrightarrow> rans j K = [] \<and> rets j K = []" "replies_ok (rev (H @ K))"
    and "net s' = (net s)\<lparr>net_bytes := b\<rparr>" "calls s' = (calls s)[i := c]" "added s' = added s"
  shows "rpc_inv (H @ K) s'"
proof -
  have "call_ok (servers (net s)) (added s) (H @ K) j ((calls s)[i := c] ! j)" if "j < length (calls s)" for j
  proof (cases "j = i")
    case False
    then show ?thesis
      using call_ok_mono [OF rpc_invD(1) [OF assms(1) that], of K "added s" "servers (net s)"] assms(4) [OF False] by simp
  qed (use assms(2,3) in simp)
  moreover have "rans j (H @ K) = [] \<and> rets j (H @ K) = []" if "length (calls s) \<le> j" for j
    using rpc_invD(2,3) [OF assms(1) that] assms(4) [of j] assms(2) that by simp
  ultimately show ?thesis using assms(5-8) rpc_invD(4) [OF assms(1)] by (simp add: rpc_inv_def)
qed

lemma net_inv:
  assumes "rpc_inv H s" "calls s' = calls s" "added s \<subseteq> added s'"
    and "\<And>n p. p \<in> added s \<Longrightarrow> servers (net s') n = Some p \<Longrightarrow> servers (net s) n = Some p"
    and "\<And>n p. servers (net s') n = Some p \<Longrightarrow> p \<in> added s'"
  shows "rpc_inv H s'"
proof -
  have "call_ok (servers (net s')) (added s') H i (calls s' ! i)" if "i < length (calls s')" for i
    using call_ok_mono [OF rpc_invD(1) [OF assms(1)], of i "[]" "added s'" "servers (net s')"] assms(2-4) that by simp
  then show ?thesis using rpc_invD(2,3,5) [OF assms(1)] assms(2,5) by (simp add: rpc_inv_def)
qed

lemma net_step_servers:
  "net_step ev rn = Some rn' \<Longrightarrow> servers rn' n = Some p \<Longrightarrow> servers rn n = Some p"
  by (cases ev) (auto simp: Reliable_def LongReordering_def LongDelays_def MakeEnd_def DeleteEnd_def DeleteServer_def
      Connect_def Enable_def Cleanup_def split: if_splits)

lemma send_inv:
  assumes "rpc_inv H s" "Call_send e m a sent s = (s', K)"
  shows "rpc_inv (H @ K) s'"
proof -
  let ?n = "length (calls s)"
  have K: "rans i K = []" "i \<noteq> ?n \<Longrightarrow> rets i K = []" for i
    using assms(2) by (auto simp: Call_send_def split: if_splits)
  have s': "servers (net s') = servers (net s)" "added s' = added s" "length (calls s') = Suc ?n"
    "\<And>i. i < ?n \<Longrightarrow> calls s' ! i = calls s ! i"
    using assms(2) by (auto simp: Call_send_def nth_append split: if_splits)
  have "call_ok (servers (net s)) (added s) (H @ K) ?n (calls s' ! ?n)"
    using assms(2) rpc_invD(2,3) [OF assms(1), of ?n]
    by (auto simp: Call_send_def call_ok_def stage_ok_def handler_ok_def new_call_def split: if_splits)
  moreover have "call_ok (servers (net s)) (added s) (H @ K) i (calls s' ! i)" if "i < ?n" for i
    using call_ok_mono [OF rpc_invD(1) [OF assms(1) that] K(1) K(2)] that s'(4) by auto
  moreover have "replies_ok (rev (H @ K))" using assms(2) rpc_invD(5) [OF assms(1)] by (auto simp: Call_send_def split: if_splits)
  ultimately show ?thesis
    using rpc_invD(2-4) [OF assms(1)] K s' by (auto simp: rpc_inv_def less_Suc_eq)
qed

lemma in_rans: "rans i H = [x] \<Longrightarrow> x \<in> set H"
  unfolding rans_def by (metis (no_types, lifting) filter_is_subset list.set_intros(1) subsetD)

lemma handler_ok_stage [simp]: "handler_ok reg A H i (c\<lparr>stage := st\<rparr>) \<longleftrightarrow> handler_ok reg A H i c"
  by (simp add: handler_ok_def)

text \<open>The reply that passes the check was computed while the server was registered: it is registered now, and a server
  that was not registered when its handler ran does not come back.\<close>

lemma check_reply_ok:
  assumes "call_ok (servers rn) A H i c" "stage c = Checking n p rel longre reply"
  shows "call_ok (servers rn) A H i (check_reply unlucky rn n p rel reply c)"
proof -
  have "\<exists>q. Ran i q True r \<in> set H" if "reply = Some r" "servers rn n = Some p" for r
    using assms that in_rans [of i H] by (auto simp: call_ok_def stage_ok_def handler_ok_def split: if_splits)
  then show ?thesis
    using assms by (auto simp: check_reply_def isServerDead_def call_ok_def stage_ok_def split: option.splits)
qed

lemma read_info_ok:
  assumes "call_ok (servers rn) A H i c" "stage c = Received" "\<And>n p. servers rn n = Some p \<Longrightarrow> p \<in> A"
  shows "call_ok (servers rn) A H i (read_info rn c)"
  using assms
  by (auto simp: read_info_def readEndnameInfo_def Let_def call_ok_def stage_ok_def split: option.splits bool.splits)

lemma processReq_ok:
  assumes "call_ok (servers rn) A H i c" "\<And>n p. servers rn n = Some p \<Longrightarrow> p \<in> A"
  shows "call_ok (servers rn) A H i (processReq ev rn c)"
proof (cases ev)
  case Read then show ?thesis using assms(1) read_info_ok [OF assms(1) _ assms(2)] by simp
next
  case (Check u) then show ?thesis using assms(1) check_reply_ok [OF assms(1)] by (simp split: stage.split)
qed (use assms(1) in \<open>auto simp: call_ok_def stage_ok_def handler_ok_def split: stage.splits option.splits if_splits\<close>)

lemma execute_inv:
  assumes "rpc_inv H s" "i < length (calls s)" "execute i s = Some (s', K)"
  shows "rpc_inv (H @ K) s'"
proof (cases "handler (calls s ! i) = None \<or> ran (calls s ! i)")
  case True
  then show ?thesis using assms(1,3) by (auto simp: execute_def Let_def split: option.splits)
next
  case False
  then obtain n p where h: "handler (calls s ! i) = Some (n, p)" and r: "\<not> ran (calls s ! i)" by auto
  let ?live = "servers (net s) n = Some p"
  obtain reply where s': "net s' = net s" "added s' = added s" "K = [Ran i p ?live reply]"
    "calls s' = (calls s)[i := (calls s ! i)\<lparr>ran := True, ech := Some reply\<rparr>]"
    using assms(3) h r by (auto simp: execute_def Let_def set_call_def split: Option.bind_splits)
  have "call_ok (servers (net s)) (added s) (H @ K) i ((calls s ! i)\<lparr>ran := True, ech := Some reply\<rparr>)"
    using rpc_invD(1) [OF assms(1,2)] h r s'(3)
    by (auto simp: call_ok_def stage_ok_def handler_ok_def split: stage.splits)
  then show ?thesis
    using set_call_inv [OF assms(1,2), of K _ s' "net_bytes (net s)"] rpc_invD(5) [OF assms(1)] s' by simp
qed

lemma return_inv:
  assumes "rpc_inv H s" "i < length (calls s)" "Call_return i s = (s', K)"
  shows "rpc_inv (H @ K) s'"
proof (cases "\<exists>ok r. stage (calls s ! i) = Replying ok r")
  case False
  then show ?thesis using assms(1,3) by (auto simp: Call_return_def split: stage.splits)
next
  case True
  then obtain ok r where st: "stage (calls s ! i) = Replying ok r" by blast
  let ?b = "net_bytes (net s) + (if ok then of_nat (length r) else 0)"
  have s': "net s' = (net s)\<lparr>net_bytes := ?b\<rparr>" "added s' = added s" "K = [Returned i ok r]"
    "calls s' = (calls s)[i := (calls s ! i)\<lparr>stage := Done\<rparr>]"
    using assms(3) st by (auto simp: Call_return_def set_call_def)
  have ok: "call_ok (servers (net s)) (added s) H i (calls s ! i)" by (rule rpc_invD(1) [OF assms(1,2)])
  then have "call_ok (servers (net s)) (added s) (H @ K) i ((calls s ! i)\<lparr>stage := Done\<rparr>)"
    using st s'(3) by (auto simp: call_ok_def stage_ok_def handler_ok_def)
  moreover have "replies_ok (rev (H @ K))"
    using ok st s'(3) rpc_invD(5) [OF assms(1)] by (auto simp: call_ok_def stage_ok_def)
  ultimately show ?thesis using set_call_inv [OF assms(1,2), of K _ s' ?b] s' by simp
qed

lemma rpc_inv_srvs [simp]: "rpc_inv H (s\<lparr>srvs := rs\<rparr>) \<longleftrightarrow> rpc_inv H s"
  by (simp add: rpc_inv_def)

lemma rpc_step_inv:
  assumes "rpc_inv H s" "rpc_ok e s"
  shows "returns (rpc_step e s) (\<lambda>(s', K). rpc_inv (H @ K) s')"
proof (cases e)
  case (ECall en m a sent)
  then show ?thesis using send_inv [OF assms(1)] by (cases "Call_send en m a sent s") simp
next
  case (EProcess i ev)
  then show ?thesis
    using assms(1) rpc_invD(4,5) [OF assms(1)] processReq_ok [OF rpc_invD(1) [OF assms(1)], of i ev]
      set_call_inv [OF assms(1), of i "[]" "processReq ev (net s) (calls s ! i)"
        "set_call i (processReq ev (net s) (calls s ! i)) s" "net_bytes (net s)"] by (simp add: set_call_def)
next
  case (EExecute i)
  then show ?thesis using assms execute_inv [OF assms(1)] by (auto split: if_splits)
next
  case (EDeliver i)
  then show ?thesis using assms(1) return_inv [OF assms(1), of i] by (cases "Call_return i s") simp
next
  case (ENetwork ev)
  then obtain rn where "net_step ev (net s) = Some rn" using assms(2) by (cases "net_step ev (net s)") auto
  moreover from this have "rpc_inv H (s\<lparr>net := rn\<rparr>)"
    using net_step_servers [of ev "net s" rn] rpc_invD(4) [OF assms(1)] by (intro net_inv [OF assms(1)]) auto
  ultimately show ?thesis using ENetwork by simp
next
  case (EAddServer n p)
  then have "rpc_inv H (s\<lparr>net := AddServer n p (net s), added := insert p (added s)\<rparr>)"
    using assms(2) rpc_invD(4) [OF assms(1)]
    by (intro net_inv [OF assms(1)]) (auto simp: AddServer_def split: if_splits)
  then show ?thesis using EAddServer by simp
qed (use assms in \<open>auto dest!: go_index_SomeD split: Option.bind_splits\<close>)

interpretation rpc: machine rpc_step rpc_ok rpc_inv
  by unfold_locales (rule rpc_step_inv)

lemma rpc_start_inv: "rpc_inv [] (rpc_start os)"
  by (simp add: rpc_inv_def rpc_start_def MakeNetwork_def)

section \<open>What a call gets\<close>

lemma rpc_inv_counts:
  assumes "rpc_inv H s"
  shows "length (rans i H) \<le> 1" "length (rets i H) \<le> 1"
  using rpc_invD(1-3) [OF assms, of i]
  by (cases "i < length (calls s)"; force simp: call_ok_def handler_ok_def split: if_splits)+

text \<open>The events of a call that nothing disturbs, and what makes its request arrive.\<close>

definition undisturbed :: "nat \<Rightarrow> ('e, 'n, 'b, 'o) rpc_event list" where
  "undisturbed i =
     [EProcess i Read, EProcess i Spawn, EExecute i, EProcess i Receive, EProcess i (Check False), EDeliver i]"

definition answers :: "('e, 'n, 'b, 'o) rpc_sys \<Rightarrow> nat \<Rightarrow> nat \<Rightarrow> 'b list \<Rightarrow> bool" where
  "answers s i p reply \<longleftrightarrow>
     i < length (calls s) \<and> stage (calls s ! i) = Received \<and> is_enabled (call_end (calls s ! i)) (net s) \<and>
     Option.bind (connections (net s) (call_end (calls s ! i))) (servers (net s)) = Some p \<and>
     map_option (\<lambda>(_, _, r). r)
       (do { rs \<leftarrow> go_index (srvs s) (int p);
             server_dispatch (svcMeth (calls s ! i)) (call_args (calls s ! i)) rs (objs s) }) = Some reply"

lemma undisturbed_returns:
  assumes "rpc_inv H s" "answers s i p reply"
  shows "returns (run rpc_step (undisturbed i) s) (\<lambda>(s', K). K = [Ran i p True reply, Returned i True reply])"
proof -
  have i: "i < length (calls s)" and "stage (calls s ! i) = Received" using assms(2) by (simp_all add: answers_def)
  then have "handler (calls s ! i) = None" "\<not> ran (calls s ! i)" "ech (calls s ! i) = None"
    using rpc_invD(1) [OF assms(1) i] by (auto simp: call_ok_def stage_ok_def handler_ok_def split: if_splits)
  moreover have "int p < go_len (srvs s)" using assms(2) by (auto simp: answers_def go_index_def split: Option.bind_splits if_splits)
  ultimately show ?thesis
    using assms(2)
    by (auto simp: go_index_def answers_def undisturbed_def set_call_def read_info_def readEndnameInfo_def execute_def check_reply_def
        isServerDead_def Call_return_def Let_def split: Option.bind_splits option.splits)
qed

text \<open>C5. Calls over the simulated network are executed at most once and answered at most once, whatever the
  interleaving of the calls, the delays and the losses, and whatever the tester does to the network meanwhile, as
  long as it does not bring a server back under the pointer it had. A call that returns true returns the reply its
  handler computed, and the handler ran while its server was registered: a server that was deleted is not heard of
  any more, although its handlers may still run. In every state a run can reach, a request whose end is enabled and
  connected to a server that has the method is executed and answered true once its goroutines go on.\<close>

theorem rpc_at_most_once:
  assumes "admissible rpc_step rpc_ok es (rpc_start os)"
  shows "returns (run rpc_step es (rpc_start os))
    (\<lambda>(s, H). (\<forall>i. length (rans i H) \<le> 1 \<and> length (rets i H) \<le> 1) \<and> replies_ok (rev H) \<and>
       (\<forall>i p reply. answers s i p reply \<longrightarrow>
          returns (run rpc_step (undisturbed i) s) (\<lambda>(s', K). K = [Ran i p True reply, Returned i True reply])))"
  using rpc.run_from_start [OF rpc_start_inv assms] rpc_inv_counts rpc_invD(5) undisturbed_returns
  by (fastforce elim!: returns_mono)

text \<open>Two servers under one name, one after the other: a call reaches the first, which is replaced before its handler
  runs.\<close>

definition rpc_sample :: "(nat, nat, nat, nat list) rpc_event list" where
  "rpc_sample =
     (let svc = MakeService ''KV'' 0 [\<lparr>mname = ''Put'', PkgPath = '''', NumIn = 3, In2_is_Ptr = True, NumOut = 0,
                                       Func = (\<lambda>args log. Some (log @ args, [length log]))\<rparr>]
      in [EMakeServer, EAddService 0 svc, EMakeServer, EAddService 1 svc, EAddServer 7 0, ENetwork (NMakeEnd 3),
          ENetwork (NConnect 3 7), ENetwork (NEnable 3 True), ECall 3 ''KV.Put'' [5] True, EProcess 0 Read, EProcess 0 Spawn,
          ENetwork (NDeleteServer 7), EExecute 0, EAddServer 7 1, EProcess 0 Receive, EProcess 0 (Check False), EDeliver 0,
          ECall 3 ''KV.Put'' [6] True])"

theorem rpc_at_most_once_witness:
  "\<exists>s. run rpc_step rpc_sample (rpc_start [[]]) = Some (s, [Ran 0 0 False [0], Returned 0 False []]) \<and>
     returns (run rpc_step (undisturbed 1) s) (\<lambda>(s', K). K = [Ran 1 1 True [1], Returned 1 True [1]])"
proof -
  have ad: "admissible rpc_step rpc_ok rpc_sample (rpc_start [[]])" by code_simp
  have "case run rpc_step rpc_sample (rpc_start [[]]) of None \<Rightarrow> False
     | Some (s, H) \<Rightarrow> H = [Ran 0 0 False [0], Returned 0 False []] \<and> answers s 1 1 [1]" by code_simp
  then obtain s where "run rpc_step rpc_sample (rpc_start [[]]) = Some (s, [Ran 0 0 False [0], Returned 0 False []])"
    and "answers s 1 1 [1]" by (auto split: option.splits)
  with rpc_at_most_once [OF ad] show ?thesis by auto
qed

end
