(* ===== verification/KV_RPC.thy ===== *)
theory KV_RPC
  imports Prelude "HOL-Library.List_Lexorder" "HOL-Library.Char_ord"
begin

text \<open>
  \<^verbatim>\<open>lec-2025/src/kvsrv1/rpc/rpc.go\<close>, the types the key/value servers and their clerks exchange, and
  \<^verbatim>\<open>lec-2025/src/models1/kv.go\<close>, the sequential specification the testers check histories against.
  \<^verbatim>\<open>Tversion\<close> is an unsigned 64-bit integer and stays one.
\<close>

text \<open>\<^verbatim>\<open>Err\<close> is a string of which the code uses these constants; \<open>NoErr\<close> is the zero value.\<close>

datatype Err = NoErr | OK | ErrNoKey | ErrVersion | ErrMaybe | ErrWrongLeader | ErrWrongGroup

type_synonym Tversion = "64 word"

record PutArgs =
  putKey :: string
  putValue :: string
  putVersion :: Tversion

record PutReply =
  putErr :: Err

record GetArgs =
  getKey :: string

record GetReply =
  getValue :: string
  getVersion :: Tversion
  getErr :: Err

text \<open>A stored value, and the map of a server. \<open>None\<close> is Go's nil map: reading it finds nothing,
  writing to it panics.\<close>

record ValueEntry =
  Value :: string
  Version :: Tversion

type_synonym kvmap = "(string \<rightharpoonup> ValueEntry) option"

definition kv_lookup :: "kvmap \<Rightarrow> string \<Rightarrow> ValueEntry option" where
  "kv_lookup m k = (case m of None \<Rightarrow> None | Some f \<Rightarrow> f k)"

definition kv_store :: "kvmap \<Rightarrow> string \<Rightarrow> ValueEntry \<Rightarrow> kvmap option" where
  "kv_store m k v = (case m of None \<Rightarrow> None | Some f \<Rightarrow> Some (Some (f(k \<mapsto> v))))"

lemma kv_lookup_simps [simp]: "kv_lookup None k = None" "kv_lookup (Some f) k = f k"
  by (simp_all add: kv_lookup_def)

lemma kv_store_Some [simp]: "kv_store (Some f) k v = Some (Some (f(k \<mapsto> v)))"
  by (simp add: kv_store_def)

section \<open>The sequential specification\<close>

record KvInput =
  inOp :: "8 word"
  inKey :: string
  inValue :: string
  inVersion :: "64 word"

record KvOutput =
  outValue :: string
  outVersion :: "64 word"
  outErr :: string

record KvState =
  stValue :: string
  stVersion :: "64 word"

definition KvModel_Init :: KvState where
  "KvModel_Init = \<lparr>stValue = [], stVersion = 0\<rparr>"

definition KvModel_Step :: "KvState \<Rightarrow> KvInput \<Rightarrow> KvOutput \<Rightarrow> bool \<times> KvState option" where
  "KvModel_Step st inp out =
     (if inOp inp = 0 then (outValue out = stValue st, Some st)
      else if inOp inp = 1 then
        if stVersion st = inVersion inp
        then (outErr out = ''OK'' \<or> outErr out = ''ErrMaybe'',
              Some \<lparr>stValue = inValue inp, stVersion = stVersion st + 1\<rparr>)
        else (outErr out = ''ErrVersion'' \<or> outErr out = ''ErrMaybe'', Some st)
      else (False, None))"

text \<open>\<^verbatim>\<open>Partition\<close>: the loop that appends every operation to the slice of its key, then one
  sub-history per key in the order of the keys. \<open>key\<close> reads the key of an operation.\<close>

definition KvModel_Partition :: "('o \<Rightarrow> string) \<Rightarrow> 'o list \<Rightarrow> 'o list list" where
  "KvModel_Partition key history =
     (let m = fold (\<lambda>v m. m(key v := m (key v) @ [v])) history (\<lambda>k. []);
          keys = sort (remdups (map key history))
      in map m keys)"

lemma partition_slices:
  "fold (\<lambda>v m. m(key v := m (key v) @ [v])) history m0 =
     (\<lambda>k. m0 k @ filter (\<lambda>v. key v = k) history)"
  by (induction history arbitrary: m0) (auto simp: fun_eq_iff)

lemma KvModel_Partition_eq:
  "KvModel_Partition key history =
     map (\<lambda>k. filter (\<lambda>v. key v = k) history) (sort (remdups (map key history)))"
  by (simp add: KvModel_Partition_def partition_slices Let_def)

end
