(* ===== verification/RSM.thy ===== *)
theory RSM
  imports Raft_Peer KV_RPC
begin

text \<open>
  \<^verbatim>\<open>lec-2025/src/kvraft1/rsm/rsm.go\<close>: the replicated state machine between a Raft peer and a server.
  The interface \<^verbatim>\<open>StateMachine\<close> is a triple of parameters of the definitions, and the locale
  \<open>state_machine\<close> is what a server has to promise about them.
\<close>

section \<open>Types\<close>

record 'q Op =
  opMe :: int
  opId :: int
  opReq :: 'q

record 'v Result =
  resIndex :: int
  resTerm :: int
  resValue :: 'v

text \<open>The methods of \<^verbatim>\<open>StateMachine\<close>; \<open>None\<close> is \<^verbatim>\<open>log.Fatalf\<close> or a panic.\<close>

record ('q, 'v, 's, 'm) StateMachine =
  smDoOp :: "'q \<Rightarrow> 'm \<Rightarrow> ('m \<times> 'v) option"
  smSnapshot :: "'m \<Rightarrow> 's list"
  smRestore :: "'s list \<Rightarrow> 'm \<Rightarrow> 'm option"

text \<open>\<^verbatim>\<open>waitChs\<close> maps a log index to a channel; the channels, which a waiting \<^verbatim>\<open>Submit\<close> also holds, are
  numbered in the order of their creation. A channel has room for one result.\<close>

record ('q, 'v, 's, 'm) RSM =
  rsmMe :: int
  rsmRaft :: "('q Op, 's) Raft"
  maxraftstate :: int
  rsmSm :: 'm
  waitChs :: "int \<rightharpoonup> nat"
  chans :: "'v Result list list"
  closed :: "nat list"

section \<open>Operations\<close>

definition trySnapShot ::
  "('q Op raft_item list \<Rightarrow> int) \<Rightarrow> ('q, 'v, 's, 'm) StateMachine \<Rightarrow> int \<Rightarrow>
   ('q, 'v, 's, 'm) RSM \<Rightarrow> ('q, 'v, 's, 'm) RSM option" where
  "trySnapShot nbytes sm index rsm =
     (if maxraftstate rsm = -1 then Some rsm
      else if maxraftstate rsm < PersistBytes nbytes (rsmRaft rsm) then do {
        let buffer = smSnapshot sm (rsmSm rsm);
        rf \<leftarrow> Snapshot index buffer (rsmRaft rsm);
        Some (rsm\<lparr>rsmRaft := rf\<rparr>) }
      else Some rsm)"

text \<open>The notification of a waiting \<^verbatim>\<open>Submit\<close>: a non-blocking send.\<close>

definition notify :: "int \<Rightarrow> int \<Rightarrow> 'v \<Rightarrow> ('q, 'v, 's, 'm) RSM \<Rightarrow> ('q, 'v, 's, 'm) RSM" where
  "notify index trm v rsm =
     (case waitChs rsm index of
        None \<Rightarrow> rsm
      | Some c \<Rightarrow>
          let result = \<lparr>resIndex = index, resTerm = trm, resValue = v\<rparr> in
          rsm\<lparr>chans := (chans rsm)[c := chan_offer 1 result (chans rsm ! c)]\<rparr>)"

text \<open>One iteration of the loop of \<^verbatim>\<open>reader\<close>. A command that is no \<^verbatim>\<open>Op\<close> is skipped; the log of this
  service holds only \<^verbatim>\<open>Op\<close>s and the nil command.\<close>

definition reader_msg ::
  "('q Op raft_item list \<Rightarrow> int) \<Rightarrow> ('q, 'v, 's, 'm) StateMachine \<Rightarrow> ('q Op, 's) ApplyMsg \<Rightarrow>
   ('q, 'v, 's, 'm) RSM \<Rightarrow> ('q, 'v, 's, 'm) RSM option" where
  "reader_msg nbytes sm msg rsm =
     (if CommandValid msg then
        (case Command msg of
           None \<Rightarrow> Some rsm
         | Some op \<Rightarrow> do {
             (st, returnValue) \<leftarrow> smDoOp sm (opReq op) (rsmSm rsm);
             rsm1 \<leftarrow> trySnapShot nbytes sm (CommandIndex msg) (rsm\<lparr>rsmSm := st\<rparr>);
             Some (notify (CommandIndex msg) (CommandTerm msg) returnValue rsm1) })
      else if SnapshotValid msg then do {
        st \<leftarrow> smRestore sm (Snapshot_data msg) (rsmSm rsm);
        Some (rsm\<lparr>rsmSm := st\<rparr>) }
      else Some rsm)"

fun reader ::
  "('q Op raft_item list \<Rightarrow> int) \<Rightarrow> ('q, 'v, 's, 'm) StateMachine \<Rightarrow> ('q Op, 's) ApplyMsg list \<Rightarrow>
   ('q, 'v, 's, 'm) RSM \<Rightarrow> ('q, 'v, 's, 'm) RSM option" where
  "reader nbytes sm [] rsm = Some rsm"
| "reader nbytes sm (msg # msgs) rsm =
     do { rsm1 \<leftarrow> reader_msg nbytes sm msg rsm; reader nbytes sm msgs rsm1 }"

text \<open>What \<^verbatim>\<open>reader\<close> does when \<^verbatim>\<open>applyCh\<close> is closed: it closes the channels that are registered, here
  those of the indices \<open>js\<close> over which the \<^verbatim>\<open>range\<close> runs.\<close>

definition reader_exit :: "int list \<Rightarrow> ('q, 'v, 's, 'm) RSM \<Rightarrow> ('q, 'v, 's, 'm) RSM" where
  "reader_exit js rsm =
     rsm\<lparr>closed := closed rsm @ List.map_filter (waitChs rsm) js\<rparr>"

definition MakeRSM ::
  "('s list \<Rightarrow> int) \<Rightarrow> int \<Rightarrow> int \<Rightarrow> ('q Op raft_item, 's) Persister \<Rightarrow> int \<Rightarrow>
   ('q, 'v, 's, 'm) StateMachine \<Rightarrow> 'm \<Rightarrow> ('q, 'v, 's, 'm) RSM option" where
  "MakeRSM nsnap servers i ps maxstate sm st =
     do {
       st1 \<leftarrow> (if SnapshotSize nsnap ps > 0 then smRestore sm (ReadSnapshot ps) st else Some st);
       Some \<lparr>rsmMe = i, rsmRaft = Make servers i ps, maxraftstate = maxstate, rsmSm = st1,
             waitChs = Map.empty, chans = [], closed = []\<rparr>
     }"

text \<open>\<^verbatim>\<open>Submit\<close> in its three critical sections. \<open>submit_start\<close> calls \<^verbatim>\<open>Start\<close>; \<open>submit_register\<close>
  creates the channel; \<open>submit_finish\<close> is the \<^verbatim>\<open>select\<close> with the deferred removal, for a result that
  was received or (\<open>None\<close>) for the timer. A closed channel yields the zero result, whose index 0 is
  no index \<^verbatim>\<open>Start\<close> returns, so it ends like the timer.\<close>

definition submit_start ::
  "'q \<Rightarrow> ('q, 'v, 's, 'm) RSM \<Rightarrow> (('q, 'v, 's, 'm) RSM \<times> int \<times> int \<times> bool) option" where
  "submit_start req rsm =
     do {
       let op = \<lparr>opMe = rsmMe rsm, opId = 0, opReq = req\<rparr>;
       (rf, index, trm, isLeader) \<leftarrow> Start op (rsmRaft rsm);
       Some (rsm\<lparr>rsmRaft := rf\<rparr>, index, trm, isLeader)
     }"

definition submit_register ::
  "int \<Rightarrow> ('q, 'v, 's, 'm) RSM \<Rightarrow> ('q, 'v, 's, 'm) RSM \<times> nat" where
  "submit_register index rsm =
     (rsm\<lparr>chans := chans rsm @ [[]], waitChs := (waitChs rsm)(index \<mapsto> length (chans rsm))\<rparr>,
      length (chans rsm))"

definition submit_finish ::
  "int \<Rightarrow> int \<Rightarrow> 'v Result option \<Rightarrow> ('q, 'v, 's, 'm) RSM \<Rightarrow>
   ('q, 'v, 's, 'm) RSM \<times> Err \<times> 'v option" where
  "submit_finish index trm received rsm =
     (rsm\<lparr>waitChs := (waitChs rsm)(index := None)\<rparr>,
      case received of
        Some result \<Rightarrow>
          if resIndex result = index \<and> resTerm result = trm then (OK, Some (resValue result))
          else (ErrWrongLeader, None)
      | None \<Rightarrow> (ErrWrongLeader, None))"

section \<open>All of it together\<close>

text \<open>A server with the calls of \<^verbatim>\<open>Submit\<close> in progress. Every call goes through its critical sections
  at its own pace, between the messages that \<^verbatim>\<open>reader\<close> handles and the steps of the Raft peer.\<close>

record 'q call =
  cReq :: 'q
  cIndex :: int
  cTerm :: int
  cChan :: "nat option"
  cDone :: bool

record ('q, 'v, 's, 'm) rsm_sys =
  sysRsm :: "('q, 'v, 's, 'm) RSM"
  sysCalls :: "'q call list"

datatype ('q, 's) rsm_event =
    RsmSubmit 'q
  | RsmRegister nat
  | RsmReceive nat
  | RsmTimeout nat
  | RsmMsg "('q Op, 's) ApplyMsg"
  | RsmRaft "('q Op, 's) event"

text \<open>What an observer sees: calls that \<^verbatim>\<open>Start\<close> accepted at an index and term, commands the server
  executed, and calls that returned.\<close>

datatype ('q, 'v) rsm_obs =
    OStart nat int int 'q
  | OExec int int 'q 'v
  | ORet nat Err "'v option"

definition finish_call ::
  "nat \<Rightarrow> 'v Result option \<Rightarrow> ('q, 'v, 's, 'm) rsm_sys \<Rightarrow>
   ('q, 'v, 's, 'm) rsm_sys \<times> ('q, 'v) rsm_obs list" where
  "finish_call n received s =
     (let c = sysCalls s ! n;
          (rsm, e, v) = submit_finish (cIndex c) (cTerm c) received (sysRsm s)
      in (s\<lparr>sysRsm := rsm, sysCalls := (sysCalls s)[n := c\<lparr>cDone := True\<rparr>]\<rparr>, [ORet n e v]))"

text \<open>A call that is not at the critical section in question stays where it is.\<close>

fun rsm_step ::
  "('q Op raft_item list \<Rightarrow> int) \<Rightarrow> ('q, 'v, 's, 'm) StateMachine \<Rightarrow> ('q, 's) rsm_event \<Rightarrow>
   ('q, 'v, 's, 'm) rsm_sys \<Rightarrow> (('q, 'v, 's, 'm) rsm_sys \<times> ('q, 'v) rsm_obs list) option" where
  "rsm_step nbytes sm (RsmSubmit q) s =
     do { (rsm, i, t, lead) \<leftarrow> submit_start q (sysRsm s);
          if lead
          then Some (s\<lparr>sysRsm := rsm, sysCalls := sysCalls s @
                       [\<lparr>cReq = q, cIndex = i, cTerm = t, cChan = None, cDone = False\<rparr>]\<rparr>,
                     [OStart (length (sysCalls s)) i t q])
          else Some (s\<lparr>sysRsm := rsm\<rparr>, []) }"
| "rsm_step nbytes sm (RsmRegister n) s =
     (if n < length (sysCalls s) \<and> cChan (sysCalls s ! n) = None then
        let (rsm, ch) = submit_register (cIndex (sysCalls s ! n)) (sysRsm s)
        in Some (s\<lparr>sysRsm := rsm, sysCalls := (sysCalls s)[n := (sysCalls s ! n)\<lparr>cChan := Some ch\<rparr>]\<rparr>, [])
      else Some (s, []))"
| "rsm_step nbytes sm (RsmReceive n) s =
     (if n < length (sysCalls s) \<and> \<not> cDone (sysCalls s ! n) then
        case cChan (sysCalls s ! n) of
          None \<Rightarrow> Some (s, [])
        | Some ch \<Rightarrow>
            (case chans (sysRsm s) ! ch of
               [] \<Rightarrow> Some (s, [])
             | result # rest \<Rightarrow>
                 Some (finish_call n (Some result)
                   (s\<lparr>sysRsm := (sysRsm s)\<lparr>chans := (chans (sysRsm s))[ch := rest]\<rparr>\<rparr>)))
      else Some (s, []))"
| "rsm_step nbytes sm (RsmTimeout n) s =
     (if n < length (sysCalls s) \<and> \<not> cDone (sysCalls s ! n) \<and> cChan (sysCalls s ! n) \<noteq> None
      then Some (finish_call n None s) else Some (s, []))"
| "rsm_step nbytes sm (RsmMsg msg) s =
     do { rsm \<leftarrow> reader_msg nbytes sm msg (sysRsm s);
          Some (s\<lparr>sysRsm := rsm\<rparr>,
            case (CommandValid msg, Command msg) of
              (True, Some op) \<Rightarrow>
                [OExec (CommandIndex msg) (CommandTerm msg) (opReq op)
                   (snd (the (smDoOp sm (opReq op) (rsmSm (sysRsm s)))))]
            | _ \<Rightarrow> []) }"
| "rsm_step nbytes sm (RsmRaft e) s =
     do { (rf, vs) \<leftarrow> peer_step e (rsmRaft (sysRsm s));
          Some (s\<lparr>sysRsm := (sysRsm s)\<lparr>rsmRaft := rf\<rparr>\<rparr>, []) }"

section \<open>Results reach the right caller\<close>

text \<open>Every result in a channel is that of an execution, and so is every result a call returned, at the
  index and term that \<^verbatim>\<open>Start\<close> gave the call.\<close>

definition chans_sound :: "('q, 'v) rsm_obs list \<Rightarrow> ('q, 'v, 's, 'm) RSM \<Rightarrow> bool" where
  "chans_sound H rsm \<longleftrightarrow>
     (\<forall>ch \<in> set (chans rsm). \<forall>res \<in> set ch.
        \<exists>q. OExec (resIndex res) (resTerm res) q (resValue res) \<in> set H)"

definition calls_sound :: "('q, 'v) rsm_obs list \<Rightarrow> ('q, 'v, 's, 'm) rsm_sys \<Rightarrow> bool" where
  "calls_sound H s \<longleftrightarrow>
     (\<forall>n i t q. OStart n i t q \<in> set H \<longleftrightarrow>
        n < length (sysCalls s) \<and> cIndex (sysCalls s ! n) = i \<and> cTerm (sysCalls s ! n) = t \<and>
        cReq (sysCalls s ! n) = q) \<and>
     (\<forall>c \<in> set (sysCalls s). \<forall>ch. cChan c = Some ch \<longrightarrow> ch < length (chans (sysRsm s)))"

definition rets_sound :: "('q, 'v) rsm_obs list \<Rightarrow> bool" where
  "rets_sound H \<longleftrightarrow>
     (\<forall>n r. ORet n OK r \<in> set H \<longrightarrow>
        (\<exists>i t q q' v. r = Some v \<and> OStart n i t q \<in> set H \<and> OExec i t q' v \<in> set H))"

lemma chans_sound_append: "chans_sound H rsm \<Longrightarrow> chans_sound (H @ os) rsm"
  by (fastforce simp: chans_sound_def)

lemma chans_sound_cong: "chans rsm' = chans rsm \<Longrightarrow> chans_sound H rsm' = chans_sound H rsm"
  by (simp add: chans_sound_def)

lemma chans_sound_update:
  assumes "chans_sound H rsm"
    and "\<And>res. res \<in> set ch \<Longrightarrow> \<exists>q. OExec (resIndex res) (resTerm res) q (resValue res) \<in> set H"
  shows "chans_sound H (rsm\<lparr>chans := (chans rsm)[c := ch]\<rparr>)"
  using assms by (auto simp: chans_sound_def dest!: set_update_subset_insert [THEN subsetD])

lemma rets_sound_append:
  "rets_sound H \<Longrightarrow> (\<And>n r. ORet n OK r \<notin> set os) \<Longrightarrow> rets_sound (H @ os)"
  by (fastforce simp: rets_sound_def)

lemma rets_sound_ret:
  assumes "rets_sound H"
    and "e = OK \<Longrightarrow> \<exists>i t q q' w. v = Some w \<and> OStart n i t q \<in> set H \<and> OExec i t q' w \<in> set H"
  shows "rets_sound (H @ [ORet n e v])"
  unfolding rets_sound_def
proof (intro allI impI)
  fix m r assume "ORet m OK r \<in> set (H @ [ORet n e v])"
  then consider "ORet m OK r \<in> set H" | "m = n" "e = OK" "r = v" by auto
  then show "\<exists>i t q q' w. r = Some w \<and> OStart m i t q \<in> set (H @ [ORet n e v]) \<and>
      OExec i t q' w \<in> set (H @ [ORet n e v])"
  proof cases
    case 1
    with assms(1) show ?thesis unfolding rets_sound_def set_append Un_iff by blast
  next
    case 2
    with assms(2) show ?thesis unfolding set_append Un_iff by blast
  qed
qed

lemma calls_sound_append:
  "calls_sound H s \<Longrightarrow> (\<And>n i t q. OStart n i t q \<notin> set os) \<Longrightarrow> calls_sound (H @ os) s"
  by (simp add: calls_sound_def)

lemma calls_sound_cong:
  "calls_sound H s \<Longrightarrow> sysCalls s' = sysCalls s \<Longrightarrow>
   length (chans (sysRsm s)) \<le> length (chans (sysRsm s')) \<Longrightarrow> calls_sound H s'"
  by (fastforce simp: calls_sound_def)

lemma calls_sound_chan:
  "calls_sound H s \<Longrightarrow> n < length (sysCalls s) \<Longrightarrow> cChan (sysCalls s ! n) = Some ch \<Longrightarrow>
   ch < length (chans (sysRsm s))"
  unfolding calls_sound_def by (meson nth_mem)

lemma calls_sound_update:
  assumes "calls_sound H s" "n < length (sysCalls s)"
    and "cIndex c = cIndex (sysCalls s ! n)" "cTerm c = cTerm (sysCalls s ! n)" "cReq c = cReq (sysCalls s ! n)"
    and "sysCalls s' = (sysCalls s)[n := c]" "length (chans (sysRsm s)) \<le> length (chans (sysRsm s'))"
    and "\<And>ch. cChan c = Some ch \<Longrightarrow> ch < length (chans (sysRsm s'))"
  shows "calls_sound H s'"
proof -
  have "cChan d = Some ch \<Longrightarrow> ch < length (chans (sysRsm s'))" if "d \<in> set (sysCalls s')" for d ch
    using that assms set_update_subset_insert [of "sysCalls s" n c]
    by (fastforce simp: calls_sound_def)
  then show ?thesis
    using assms by (auto simp: calls_sound_def nth_list_update)
qed

lemma finish_call_sound:
  assumes "chans_sound H (sysRsm s)" "calls_sound H s" "rets_sound H" "n < length (sysCalls s)"
    and "\<And>res. received = Some res \<Longrightarrow> \<exists>q. OExec (resIndex res) (resTerm res) q (resValue res) \<in> set H"
    and fin: "finish_call n received s = (s', os)"
  shows "chans_sound (H @ os) (sysRsm s') \<and> calls_sound (H @ os) s' \<and> rets_sound (H @ os)"
proof -
  let ?c = "sysCalls s ! n"
  have started: "OStart n (cIndex ?c) (cTerm ?c) (cReq ?c) \<in> set H"
    using assms(2,4) by (simp add: calls_sound_def)
  obtain e v where os: "os = [ORet n e v]" and calls: "sysCalls s' = (sysCalls s)[n := ?c\<lparr>cDone := True\<rparr>]"
    and chs: "chans (sysRsm s') = chans (sysRsm s)"
    and ev: "e = OK \<Longrightarrow> \<exists>res. received = Some res \<and> resIndex res = cIndex ?c \<and> resTerm res = cTerm ?c \<and>
               v = Some (resValue res)"
    using fin by (auto simp: finish_call_def submit_finish_def Let_def split: option.splits if_splits)
  have "calls_sound H s'"
    by (rule calls_sound_update [OF assms(2,4) _ _ _ calls])
      (simp_all add: chs calls_sound_chan [OF assms(2,4)])
  moreover have "rets_sound (H @ os)"
    unfolding os
  proof (rule rets_sound_ret [OF assms(3)])
    assume "e = OK"
    with ev obtain res where "received = Some res" "resIndex res = cIndex ?c" "resTerm res = cTerm ?c"
      "v = Some (resValue res)" by blast
    with assms(5) [of res] started
    show "\<exists>i t q q' w. v = Some w \<and> OStart n i t q \<in> set H \<and> OExec i t q' w \<in> set H"
      by auto
  qed
  ultimately show ?thesis
    using assms(1) by (simp add: os calls_sound_append chans_sound_append chans_sound_cong [OF chs])
qed

lemma notify_sound:
  assumes "chans_sound H rsm" "OExec i t q v \<in> set H"
  shows "chans_sound H (notify i t v rsm)"
proof (cases "waitChs rsm i")
  case (Some c)
  have "chans_sound H (rsm\<lparr>chans := (chans rsm)[c := chan_offer 1 \<lparr>resIndex = i, resTerm = t, resValue = v\<rparr>
          (chans rsm ! c)]\<rparr>)"
  proof (cases "c < length (chans rsm)")
    case True
    then have "chans rsm ! c \<in> set (chans rsm)" by simp
    with assms show ?thesis
      by (intro chans_sound_update) (auto simp: chan_offer_def chans_sound_def split: if_splits)
  qed (use assms in \<open>simp add: chans_sound_def not_less list_update_beyond\<close>)
  with Some show ?thesis by (simp add: notify_def Let_def)
qed (use assms in \<open>simp add: notify_def\<close>)

lemma length_chans_notify [simp]: "length (chans (notify i t v rsm)) = length (chans rsm)"
  by (simp add: notify_def Let_def split: option.splits)

lemma notify_fields [simp]:
  "rsmRaft (notify i t v rsm) = rsmRaft rsm" "rsmSm (notify i t v rsm) = rsmSm rsm"
  "waitChs (notify i t v rsm) = waitChs rsm" "maxraftstate (notify i t v rsm) = maxraftstate rsm"
  by (simp_all add: notify_def Let_def split: option.splits)

lemma trySnapShot_ok:
  assumes "raft_inv (rsmRaft rsm)"
  shows "returns (trySnapShot nbytes sm i rsm) (\<lambda>rsm'. raft_inv (rsmRaft rsm') \<and> rsmSm rsm' = rsmSm rsm \<and>
    chans rsm' = chans rsm \<and> waitChs rsm' = waitChs rsm)"
  using assms returns_mono [OF Snapshot_ok [OF assms]]
  by (auto simp: trySnapShot_def Let_def steps_ok_def)

section \<open>The contract of a state machine\<close>

text \<open>\<open>good\<close> holds of the states of a running server, \<open>valid\<close> of the requests it knows, \<open>decodes\<close> of
  the snapshots it understands, and \<open>view\<close> is the part of the state that is replicated: executing
  requests depends on it and on nothing else. That is enough for a service without snapshots
  (\<open>executor\<close>); a state machine also has to bring \<open>view\<close> back from a snapshot.\<close>

locale executor =
  fixes sm :: "('q, 'v, 's, 'm) StateMachine"
    and good :: "'m \<Rightarrow> bool" and valid :: "'q \<Rightarrow> bool" and decodes :: "'s list \<Rightarrow> bool"
    and view :: "'m \<Rightarrow> 'a"
  assumes DoOp_good: "good s \<Longrightarrow> valid q \<Longrightarrow> returns (smDoOp sm q s) (\<lambda>(s', v). good s')"
    and DoOp_view: "good s \<Longrightarrow> good t \<Longrightarrow> view s = view t \<Longrightarrow> smDoOp sm q s = Some (s', v) \<Longrightarrow>
        \<exists>t'. smDoOp sm q t = Some (t', v) \<and> view t' = view s'"
    and Restore_good: "decodes d \<Longrightarrow> d \<noteq> [] \<and> returns (smRestore sm d t) good"

locale state_machine = executor sm good valid decodes view
  for sm :: "('q, 'v, 's, 'm) StateMachine"
    and good :: "'m \<Rightarrow> bool" and valid :: "'q \<Rightarrow> bool" and decodes :: "'s list \<Rightarrow> bool"
    and view :: "'m \<Rightarrow> 'a" +
  assumes Snapshot_decodes: "good s \<Longrightarrow> decodes (smSnapshot sm s)"
    and Restore_Snapshot: "good s \<Longrightarrow> smRestore sm (smSnapshot sm s) t = Some r \<Longrightarrow> view r = view s"

fun rsm_ok :: "('q \<Rightarrow> bool) \<Rightarrow> ('s list \<Rightarrow> bool) \<Rightarrow> ('q, 's) rsm_event \<Rightarrow> ('q, 'v, 's, 'm) rsm_sys \<Rightarrow> bool" where
  "rsm_ok valid decodes (RsmMsg msg) s \<longleftrightarrow>
     (if CommandValid msg then (case Command msg of None \<Rightarrow> True | Some op \<Rightarrow> valid (opReq op))
      else SnapshotValid msg \<longrightarrow> decodes (Snapshot_data msg))"
| "rsm_ok valid decodes (RsmRaft e) s \<longleftrightarrow> event_ok e (rsmRaft (sysRsm s))"
| "rsm_ok valid decodes _ s \<longleftrightarrow> True"

text \<open>What a running service keeps: its parts are well-formed and every result is accounted for.\<close>

definition rsm_sound :: "('m \<Rightarrow> bool) \<Rightarrow> ('q, 'v) rsm_obs list \<Rightarrow> ('q, 'v, 's, 'm) rsm_sys \<Rightarrow> bool" where
  "rsm_sound good H s \<longleftrightarrow>
     raft_inv (rsmRaft (sysRsm s)) \<and> good (rsmSm (sysRsm s)) \<and>
     chans_sound H (sysRsm s) \<and> calls_sound H s \<and> rets_sound H"

context executor
begin

lemma reader_msg_good:
  assumes "raft_inv (rsmRaft rsm)" "good (rsmSm rsm)" "rsm_ok valid decodes (RsmMsg msg) s"
  shows "returns (reader_msg nbytes sm msg rsm) (\<lambda>rsm'. raft_inv (rsmRaft rsm') \<and> good (rsmSm rsm') \<and>
    length (chans rsm') = length (chans rsm))"
proof (cases "CommandValid msg")
  case True
  show ?thesis
  proof (cases "Command msg")
    case None
    with True assms show ?thesis by (simp add: reader_msg_def)
  next
    case (Some op)
    have "valid (opReq op)" using True Some assms(3) by simp
    then obtain st v where st: "smDoOp sm (opReq op) (rsmSm rsm) = Some (st, v)" "good st"
      using DoOp_good [of "rsmSm rsm" "opReq op"] assms(2) by (auto elim!: returnsE)
    have "returns (trySnapShot nbytes sm (CommandIndex msg) (rsm\<lparr>rsmSm := st\<rparr>)) (\<lambda>rsm'.
        raft_inv (rsmRaft rsm') \<and> good (rsmSm rsm') \<and> length (chans rsm') = length (chans rsm))"
      by (rule returns_mono [OF trySnapShot_ok]) (use assms(1) st(2) in simp_all)
    with True Some st show ?thesis by (simp add: reader_msg_def returns_bind)
  qed
next
  case False
  then show ?thesis
    using assms Restore_good [of "Snapshot_data msg" "rsmSm rsm"]
    by (auto simp: reader_msg_def elim!: returnsE)
qed

lemma reader_msg_sound:
  assumes "chans_sound H rsm" "raft_inv (rsmRaft rsm)" "reader_msg nbytes sm msg rsm = Some rsm'"
    and "\<And>op. CommandValid msg \<Longrightarrow> Command msg = Some op \<Longrightarrow>
      OExec (CommandIndex msg) (CommandTerm msg) (opReq op) (snd (the (smDoOp sm (opReq op) (rsmSm rsm)))) \<in> set H"
  shows "chans_sound H rsm'"
proof (cases "CommandValid msg \<and> Command msg \<noteq> None")
  case True
  then obtain op where op: "CommandValid msg" "Command msg = Some op" by auto
  with assms(3) obtain st v rsm1 where st: "smDoOp sm (opReq op) (rsmSm rsm) = Some (st, v)"
    and snap: "trySnapShot nbytes sm (CommandIndex msg) (rsm\<lparr>rsmSm := st\<rparr>) = Some rsm1"
    and rsm': "rsm' = notify (CommandIndex msg) (CommandTerm msg) v rsm1"
    by (auto simp: reader_msg_def bind_Some_iff)
  have "chans rsm1 = chans rsm"
    using trySnapShot_ok [of "rsm\<lparr>rsmSm := st\<rparr>" nbytes sm "CommandIndex msg"] assms(2) snap by simp
  then have "chans_sound H rsm1" using assms(1) chans_sound_cong by metis
  with assms(4) [OF op] st show ?thesis
    unfolding rsm' by (auto intro: notify_sound)
next
  case False
  then have "chans rsm' = chans rsm"
    using assms(3) by (auto simp: reader_msg_def bind_Some_iff split: if_splits option.splits)
  from chans_sound_cong [OF this] assms(1) show ?thesis by simp
qed

lemma submit_sound:
  assumes "rsm_sound good H s"
  shows "returns (rsm_step nbytes sm (RsmSubmit q) s) (\<lambda>(s', os). rsm_sound good (H @ os) s')"
proof -
  let ?op = "\<lparr>opMe = rsmMe (sysRsm s), opId = 0, opReq = q\<rparr>"
  have inv: "raft_inv (rsmRaft (sysRsm s))" "good (rsmSm (sysRsm s))" "chans_sound H (sysRsm s)"
    "calls_sound H s" "rets_sound H"
    using assms by (simp_all add: rsm_sound_def)
  obtain rf i t l where st: "Start ?op (rsmRaft (sysRsm s)) = Some (rf, i, t, l)" and rf: "raft_inv rf"
    using Start_ok [OF inv(1), of ?op] by (auto simp: steps_ok_def elim!: returnsE)
  let ?rsm = "(sysRsm s)\<lparr>rsmRaft := rf\<rparr>"
  let ?c = "\<lparr>cReq = q, cIndex = i, cTerm = t, cChan = None, cDone = False\<rparr>"
  have "calls_sound (H @ [OStart (length (sysCalls s)) i t q])
      (s\<lparr>sysRsm := ?rsm, sysCalls := sysCalls s @ [?c]\<rparr>)"
    using inv(4) by (auto simp: calls_sound_def nth_append less_Suc_eq)
  moreover have "calls_sound H (s\<lparr>sysRsm := ?rsm\<rparr>)"
    by (rule calls_sound_cong [OF inv(4)]) simp_all
  moreover have "chans_sound H' ?rsm = chans_sound H' (sysRsm s)" for H' :: "('q, 'v) rsm_obs list"
    by (rule chans_sound_cong) simp
  ultimately show ?thesis
    using inv rf by (simp add: submit_start_def st rsm_sound_def chans_sound_append rets_sound_append)
qed

lemma register_sound:
  assumes "rsm_sound good H s"
  shows "returns (rsm_step nbytes sm (RsmRegister n) s) (\<lambda>(s', os). rsm_sound good (H @ os) s')"
proof (cases "n < length (sysCalls s) \<and> cChan (sysCalls s ! n) = None")
  case True
  let ?c = "sysCalls s ! n" and ?k = "length (chans (sysRsm s))"
  let ?rsm = "(sysRsm s)\<lparr>chans := chans (sysRsm s) @ [[]], waitChs := (waitChs (sysRsm s))(cIndex ?c \<mapsto> ?k)\<rparr>"
  have inv: "chans_sound H (sysRsm s)" "calls_sound H s"
    using assms by (simp_all add: rsm_sound_def)
  have "calls_sound H (s\<lparr>sysRsm := ?rsm, sysCalls := (sysCalls s)[n := ?c\<lparr>cChan := Some ?k\<rparr>]\<rparr>)"
    by (rule calls_sound_update [OF inv(2), of n "?c\<lparr>cChan := Some ?k\<rparr>"]) (use True in auto)
  moreover have "chans_sound H ?rsm"
    using inv(1) by (auto simp: chans_sound_def)
  ultimately show ?thesis
    using True assms by (simp add: submit_register_def Let_def rsm_sound_def)
qed (use assms in auto)

lemma receive_sound:
  assumes "rsm_sound good H s"
  shows "returns (rsm_step nbytes sm (RsmReceive n) s) (\<lambda>(s', os). rsm_sound good (H @ os) s')"
proof -
  have inv: "raft_inv (rsmRaft (sysRsm s))" "good (rsmSm (sysRsm s))" "chans_sound H (sysRsm s)"
    "calls_sound H s" "rets_sound H"
    using assms by (simp_all add: rsm_sound_def)
  show ?thesis
  proof (cases "n < length (sysCalls s) \<and> \<not> cDone (sysCalls s ! n) \<and> cChan (sysCalls s ! n) \<noteq> None \<and>
      chans (sysRsm s) ! the (cChan (sysCalls s ! n)) \<noteq> []")
    case True
    then obtain ch res rest where n: "n < length (sysCalls s)" "\<not> cDone (sysCalls s ! n)"
      and ch: "cChan (sysCalls s ! n) = Some ch" and res: "chans (sysRsm s) ! ch = res # rest"
      by (auto simp: neq_Nil_conv)
    have "ch < length (chans (sysRsm s))" using calls_sound_chan [OF inv(4) n(1) ch] .
    then have "res # rest \<in> set (chans (sysRsm s))" using res nth_mem by metis
    then have exec: "\<exists>q. OExec (resIndex r) (resTerm r) q (resValue r) \<in> set H" if "r \<in> set (res # rest)" for r
      using inv(3) that unfolding chans_sound_def by blast
    let ?s = "s\<lparr>sysRsm := (sysRsm s)\<lparr>chans := (chans (sysRsm s))[ch := rest]\<rparr>\<rparr>"
    obtain s' os where fin: "finish_call n (Some res) ?s = (s', os)" by fastforce
    have "chans_sound H (sysRsm ?s)"
      using chans_sound_update [OF inv(3), of rest ch] exec by simp
    moreover have "calls_sound H ?s"
      by (rule calls_sound_cong [OF inv(4)]) simp_all
    ultimately have "chans_sound (H @ os) (sysRsm s') \<and> calls_sound (H @ os) s' \<and> rets_sound (H @ os)"
      using exec n inv(5) by (intro finish_call_sound [OF _ _ _ _ _ fin]) auto
    moreover have "rsmRaft (sysRsm s') = rsmRaft (sysRsm s)" "rsmSm (sysRsm s') = rsmSm (sysRsm s)"
      using fin by (auto simp: finish_call_def submit_finish_def Let_def split: if_splits)
    ultimately show ?thesis using n ch res fin inv by (simp add: rsm_sound_def)
  qed (use assms in \<open>auto split: option.splits list.splits\<close>)
qed

lemma timeout_sound:
  assumes "rsm_sound good H s"
  shows "returns (rsm_step nbytes sm (RsmTimeout n) s) (\<lambda>(s', os). rsm_sound good (H @ os) s')"
proof -
  obtain s' os where fin: "finish_call n None s = (s', os)" by fastforce
  have "rsmRaft (sysRsm s') = rsmRaft (sysRsm s)" "rsmSm (sysRsm s') = rsmSm (sysRsm s)"
    using fin by (auto simp: finish_call_def submit_finish_def Let_def)
  then show ?thesis
    using assms fin finish_call_sound [OF _ _ _ _ _ fin, of H] by (auto simp: rsm_sound_def)
qed

lemma msg_sound:
  assumes "rsm_sound good H s" "rsm_ok valid decodes (RsmMsg msg) s"
  shows "returns (rsm_step nbytes sm (RsmMsg msg) s) (\<lambda>(s', os). rsm_sound good (H @ os) s')"
proof -
  have inv: "raft_inv (rsmRaft (sysRsm s))" "good (rsmSm (sysRsm s))" "chans_sound H (sysRsm s)"
    "calls_sound H s" "rets_sound H"
    using assms by (simp_all add: rsm_sound_def)
  obtain rsm where st: "reader_msg nbytes sm msg (sysRsm s) = Some rsm"
    and rsm: "raft_inv (rsmRaft rsm)" "good (rsmSm rsm)" "length (chans rsm) = length (chans (sysRsm s))"
    using reader_msg_good [OF inv(1,2) assms(2)] by (auto elim!: returnsE)
  let ?os = "case (CommandValid msg, Command msg) of
      (True, Some op) \<Rightarrow> [OExec (CommandIndex msg) (CommandTerm msg) (opReq op)
                   (snd (the (smDoOp sm (opReq op) (rsmSm (sysRsm s)))))]
    | _ \<Rightarrow> []"
  have os: "OStart n i t q \<notin> set ?os" "ORet n e r \<notin> set ?os" for n i t q e r
    by (auto split: option.splits bool.splits)
  have "chans_sound (H @ ?os) rsm"
    by (rule reader_msg_sound [OF chans_sound_append [OF inv(3)] inv(1) st]) simp
  moreover have "calls_sound H (s\<lparr>sysRsm := rsm\<rparr>)"
    by (rule calls_sound_cong [OF inv(4)]) (simp_all add: rsm)
  ultimately show ?thesis
    using inv rsm os by (simp add: st rsm_sound_def calls_sound_append rets_sound_append)
qed

lemma raft_sound:
  assumes "rsm_sound good H s" "event_ok e (rsmRaft (sysRsm s))"
  shows "returns (rsm_step nbytes sm (RsmRaft e) s) (\<lambda>(s', os). rsm_sound good (H @ os) s')"
proof -
  have inv: "raft_inv (rsmRaft (sysRsm s))" "good (rsmSm (sysRsm s))" "chans_sound H (sysRsm s)"
    "calls_sound H s" "rets_sound H"
    using assms by (simp_all add: rsm_sound_def)
  obtain rf vs where st: "peer_step e (rsmRaft (sysRsm s)) = Some (rf, vs)" and rf: "raft_inv rf"
    using peer_step_inv [OF inv(1) assms(2)] by (auto elim!: returnsE)
  have "calls_sound H (s\<lparr>sysRsm := (sysRsm s)\<lparr>rsmRaft := rf\<rparr>\<rparr>)"
    by (rule calls_sound_cong [OF inv(4)]) simp_all
  moreover have "chans_sound H ((sysRsm s)\<lparr>rsmRaft := rf\<rparr>) = chans_sound H (sysRsm s)"
    by (rule chans_sound_cong) simp
  ultimately show ?thesis using inv rf by (simp add: st rsm_sound_def)
qed

lemma rsm_step_sound:
  assumes "rsm_sound good H s" "rsm_ok valid decodes e s"
  shows "returns (rsm_step nbytes sm e s) (\<lambda>(s', os). rsm_sound good (H @ os) s')"
proof (cases e)
  case (RsmMsg msg)
  show ?thesis using assms unfolding RsmMsg by (rule msg_sound)
next
  case (RsmRaft e')
  show ?thesis using assms unfolding RsmRaft rsm_ok.simps by (rule raft_sound)
next
  case (RsmSubmit q)
  show ?thesis unfolding RsmSubmit by (rule submit_sound [OF assms(1)])
next
  case (RsmRegister n)
  show ?thesis unfolding RsmRegister by (rule register_sound [OF assms(1)])
next
  case (RsmReceive n)
  show ?thesis unfolding RsmReceive by (rule receive_sound [OF assms(1)])
next
  case (RsmTimeout n)
  show ?thesis unfolding RsmTimeout by (rule timeout_sound [OF assms(1)])
qed

end

text \<open>A service over an executor that keeps its contract is a machine that keeps its results
  accounted for.\<close>

sublocale executor < answers: machine "rsm_step nbytes sm" "rsm_ok valid decodes" "rsm_sound good"
  for nbytes
  by unfold_locales (rule rsm_step_sound)

end
