(* ===== verification/RSM_Recovery.thy ===== *)
theory RSM_Recovery
  imports RSM
begin

text \<open>
  What replication is for: servers that read the same commands hold the same state, and a server that
  crashes is brought back by its last snapshot and the commands after it.
\<close>

fun apply_reqs ::
  "('q, 'v, 's, 'm) StateMachine \<Rightarrow> 'q list \<Rightarrow> 'm \<Rightarrow> ('m \<times> 'v list) option" where
  "apply_reqs sm [] s = Some (s, [])"
| "apply_reqs sm (q # qs) s =
     do { (s1, v) \<leftarrow> smDoOp sm q s; (s2, vs) \<leftarrow> apply_reqs sm qs s1; Some (s2, v # vs) }"

lemma apply_reqs_append:
  "apply_reqs sm (ps @ qs) s =
     do { (s1, vs) \<leftarrow> apply_reqs sm ps s; (s2, ws) \<leftarrow> apply_reqs sm qs s1; Some (s2, vs @ ws) }"
proof (induction ps arbitrary: s)
  case (Cons p ps)
  show ?case
    by (cases "smDoOp sm p s") (auto simp: Cons split: Option.bind_splits)
qed (auto split: Option.bind_splits)

text \<open>A message that carries the command \<open>op\<close>, as the applier sends it.\<close>

definition cmd_msg :: "int \<Rightarrow> int \<Rightarrow> 'q Op \<Rightarrow> ('q Op, 's) ApplyMsg" where
  "cmd_msg i t op =
     \<lparr>CommandValid = True, Command = Some op, CommandIndex = i, CommandTerm = t,
      SnapshotValid = False, Snapshot_data = [], SnapshotTerm = 0, SnapshotIndex = 0\<rparr>"

lemma cmd_msg_fields [simp]:
  "CommandValid (cmd_msg i t op)" "Command (cmd_msg i t op) = Some op"
  "CommandIndex (cmd_msg i t op) = i" "CommandTerm (cmd_msg i t op) = t"
  by (simp_all add: cmd_msg_def)

fun execs :: "('q, 'v) rsm_obs list \<Rightarrow> 'q list" where
  "execs [] = []"
| "execs (OExec i t q v # os) = q # execs os"
| "execs (_ # os) = execs os"

lemma execs_append [simp]: "execs (xs @ ys) = execs xs @ execs ys"
  by (induction xs rule: execs.induct) auto

section \<open>In-order delivery\<close>

text \<open>A service whose commands arrive in order and without gaps, which is what \<^verbatim>\<open>applier\<close> provides; \<open>n\<close>
  counts them. Everything else happens in between.\<close>

datatype ('q, 's) feed_event = Deliver "'q Op" int | Between "('q, 's) rsm_event"

fun feed_step ::
  "('q Op raft_item list \<Rightarrow> int) \<Rightarrow> ('q, 'v, 's, 'm) StateMachine \<Rightarrow> ('q, 's) feed_event \<Rightarrow>
   nat \<times> ('q, 'v, 's, 'm) rsm_sys \<Rightarrow> ((nat \<times> ('q, 'v, 's, 'm) rsm_sys) \<times> ('q, 'v) rsm_obs list) option" where
  "feed_step nbytes sm (Deliver op t) (n, s) =
     do { (s', os) \<leftarrow> rsm_step nbytes sm (RsmMsg (cmd_msg (int n + 1) t op)) s; Some ((Suc n, s'), os) }"
| "feed_step nbytes sm (Between e) (n, s) =
     do { (s', os) \<leftarrow> rsm_step nbytes sm e s; Some ((n, s'), os) }"

text \<open>The events of the peer that leave the snapshot to the service.\<close>

fun keeps_snapshot :: "('c, 's) event \<Rightarrow> bool" where
  "keeps_snapshot (EvInstallSnapshot a) \<longleftrightarrow> False"
| "keeps_snapshot (EvSnapshot i sn) \<longleftrightarrow> False"
| "keeps_snapshot EvRestart \<longleftrightarrow> False"
| "keeps_snapshot _ \<longleftrightarrow> True"

fun between_ok :: "('q, 's) rsm_event \<Rightarrow> ('q, 'v, 's, 'm) rsm_sys \<Rightarrow> bool" where
  "between_ok (RsmMsg msg) s \<longleftrightarrow> False"
| "between_ok (RsmRaft e) s \<longleftrightarrow> keeps_snapshot e \<and> event_ok e (rsmRaft (sysRsm s))"
| "between_ok _ s \<longleftrightarrow> True"

fun feed_ok :: "('q \<Rightarrow> bool) \<Rightarrow> ('q, 's) feed_event \<Rightarrow> nat \<times> ('q, 'v, 's, 'm) rsm_sys \<Rightarrow> bool" where
  "feed_ok valid (Deliver op t) ns \<longleftrightarrow> valid (opReq op)"
| "feed_ok valid (Between e) (n, s) \<longleftrightarrow> between_ok e s"

section \<open>The snapshot on disk\<close>

lemma snapshot_persist [simp]: "ReadSnapshot (persister (persist rf)) = ReadSnapshot (persister rf)"
  by (simp add: persist_def Let_def)

lemma merge_entries_snapshot:
  "merge_entries es i rf = Some rf' \<Longrightarrow> ReadSnapshot (persister rf') = ReadSnapshot (persister rf) \<and>
   lastIncludedIndex rf' = lastIncludedIndex rf"
  by (induction es i rf rule: merge_entries.induct) (auto simp: bind_Some_iff split: if_splits)

lemma commit_snapshot:
  "commit rf = Some rf' \<Longrightarrow> persister rf' = persister rf \<and> lastIncludedIndex rf' = lastIncludedIndex rf"
  by (auto simp: commit_def Let_def bind_Some_iff split: if_splits)

lemma peer_step_snapshot:
  assumes "keeps_snapshot e" "peer_step e rf = Some (rf', vs)"
  shows "ReadSnapshot (persister rf') = ReadSnapshot (persister rf) \<and>
         lastIncludedIndex rf' = lastIncludedIndex rf"
proof (cases e)
  case (EvRequestVote a)
  with assms show ?thesis by (auto simp: RequestVote_def Let_def bind_Some_iff split: if_splits)
next
  case (EvAppendEntries a)
  with assms show ?thesis
    by (auto simp: AppendEntries_def Let_def bind_Some_iff dest!: merge_entries_snapshot split: if_splits)
next
  case EvStartElection
  with assms show ?thesis by (auto simp: StartElection_def Let_def bind_Some_iff)
next
  case (EvVoteReply a r el)
  with assms show ?thesis by (auto simp: handleVoteReply_def Let_def bind_Some_iff split: if_splits)
next
  case (EvAppendReply i a r)
  with assms show ?thesis
    by (auto simp: handleAppendEntriesReply_def bind_Some_iff dest!: commit_snapshot split: if_splits)
next
  case (EvSnapshotReply i a r)
  with assms show ?thesis by (auto simp: handleInstallSnapshotReply_def bind_Some_iff split: if_splits)
next
  case (EvBroadcast i)
  with assms show ?thesis by (auto simp: broadcast_to_def Let_def bind_Some_iff split: if_splits)
next
  case (EvStart c)
  with assms show ?thesis by (auto simp: Start_def Let_def bind_Some_iff split: if_splits)
next
  case EvApply
  with assms show ?thesis by (auto simp: applier_step_def Let_def bind_Some_iff split: if_splits)
qed (use assms in auto)

lemma Snapshot_saves:
  assumes "raft_inv rf" "lastIncludedIndex rf < i"
  shows "returns (Snapshot i sn rf) (\<lambda>rf'. lastIncludedIndex rf' = i \<and> ReadSnapshot (persister rf') = sn)"
proof -
  have "logs rf \<noteq> []" using assms(1) by (simp add: raft_inv_def raft_wf_def)
  moreover have "0 < go_len (drop (nat (i - lastIncludedIndex rf)) (logs rf))"
    if "i - lastIncludedIndex rf < go_len (logs rf)"
    using that assms(2) by (simp add: go_len_def)
  ultimately show ?thesis
    using assms(2) by (auto simp: Snapshot_def Let_def)
qed

text \<open>The disk holds no snapshot, or the snapshot of the state after the commands up to
  \<^verbatim>\<open>lastIncludedIndex\<close>; \<open>s0\<close> is the state the service started from.\<close>

definition disk_current ::
  "('q, 'v, 's, 'm) StateMachine \<Rightarrow> ('m \<Rightarrow> bool) \<Rightarrow> 'm \<Rightarrow> 'q list \<Rightarrow> ('c, 's) Raft \<Rightarrow> bool" where
  "disk_current sm good s0 qs rf \<longleftrightarrow>
     lastIncludedIndex rf = 0 \<and> ReadSnapshot (persister rf) = [] \<or>
     (\<exists>k m vs. lastIncludedIndex rf = int k \<and> k \<le> length qs \<and> good m \<and>
        apply_reqs sm (take k qs) s0 = Some (m, vs) \<and> ReadSnapshot (persister rf) = smSnapshot sm m)"

definition recoverable ::
  "('q, 'v, 's, 'm) StateMachine \<Rightarrow> ('m \<Rightarrow> bool) \<Rightarrow> ('q \<Rightarrow> bool) \<Rightarrow> 'm \<Rightarrow> ('q, 'v) rsm_obs list \<Rightarrow>
   nat \<times> ('q, 'v, 's, 'm) rsm_sys \<Rightarrow> bool" where
  "recoverable sm good valid s0 H = (\<lambda>(n, s).
     n = length (execs H) \<and> (\<forall>q \<in> set (execs H). valid q) \<and> raft_inv (rsmRaft (sysRsm s)) \<and> good (rsmSm (sysRsm s)) \<and>
     (\<exists>vs. apply_reqs sm (execs H) s0 = Some (rsmSm (sysRsm s), vs)) \<and>
     disk_current sm good s0 (execs H) (rsmRaft (sysRsm s)))"

lemma disk_current_append:
  assumes "disk_current sm good s0 qs rf"
  shows "disk_current sm good s0 (qs @ rs) rf"
  using assms unfolding disk_current_def
proof (elim disjE exE conjE)
  fix k m vs
  assume "lastIncludedIndex rf = int k" "k \<le> length qs" "good m"
    "apply_reqs sm (take k qs) s0 = Some (m, vs)" "ReadSnapshot (persister rf) = smSnapshot sm m"
  moreover have "take k (qs @ rs) = take k qs" "k \<le> length (qs @ rs)"
    using \<open>k \<le> length qs\<close> by simp_all
  ultimately show "lastIncludedIndex rf = 0 \<and> ReadSnapshot (persister rf) = [] \<or>
     (\<exists>k m vs. lastIncludedIndex rf = int k \<and> k \<le> length (qs @ rs) \<and> good m \<and>
        apply_reqs sm (take k (qs @ rs)) s0 = Some (m, vs) \<and> ReadSnapshot (persister rf) = smSnapshot sm m)"
    by metis
qed simp

lemma disk_current_index: "disk_current sm good s0 qs rf \<Longrightarrow> lastIncludedIndex rf \<le> int (length qs)"
  by (auto simp: disk_current_def)

lemma disk_current_cong:
  "disk_current sm good s0 qs rf \<Longrightarrow> ReadSnapshot (persister rf') = ReadSnapshot (persister rf) \<Longrightarrow>
   lastIncludedIndex rf' = lastIncludedIndex rf \<Longrightarrow> disk_current sm good s0 qs rf'"
  by (simp add: disk_current_def)

text \<open>A step between deliveries executes no command and leaves the state machine alone.\<close>

lemma between_frame:
  assumes "between_ok e s" "rsm_step nbytes sm e s = Some (s', os)"
  shows "execs os = [] \<and> rsmSm (sysRsm s') = rsmSm (sysRsm s) \<and>
    (e \<in> range RsmRaft \<or> e \<in> range RsmSubmit \<or> rsmRaft (sysRsm s') = rsmRaft (sysRsm s))"
  using assms
  by (cases e) (auto simp: submit_start_def submit_register_def finish_call_def submit_finish_def Let_def
      bind_Some_iff split: if_splits option.splits list.splits)

lemma between_disk:
  assumes "between_ok e s" "rsm_step nbytes sm e s = Some (s', os)"
  shows "ReadSnapshot (persister (rsmRaft (sysRsm s'))) = ReadSnapshot (persister (rsmRaft (sysRsm s))) \<and>
    lastIncludedIndex (rsmRaft (sysRsm s')) = lastIncludedIndex (rsmRaft (sysRsm s))"
proof (cases "e \<in> range RsmRaft \<or> e \<in> range RsmSubmit")
  case True
  then consider e' where "e = RsmRaft e'" | q where "e = RsmSubmit q" by auto
  then show ?thesis
  proof cases
    case 1
    with assms obtain rf vs where "keeps_snapshot e'" "peer_step e' (rsmRaft (sysRsm s)) = Some (rf, vs)"
      "rsmRaft (sysRsm s') = rf"
      by (auto simp: bind_Some_iff)
    with peer_step_snapshot show ?thesis by metis
  next
    case 2
    with assms show ?thesis
      by (auto simp: submit_start_def Start_def Let_def bind_Some_iff split: if_splits)
  qed
qed (use between_frame [OF assms] in auto)

context executor
begin

lemma apply_reqs_good:
  "good s \<Longrightarrow> \<forall>q \<in> set qs. valid q \<Longrightarrow> returns (apply_reqs sm qs s) (\<lambda>(s', vs). good s')"
proof (induction qs arbitrary: s)
  case (Cons q qs)
  then obtain s1 v where "smDoOp sm q s = Some (s1, v)" "good s1"
    using DoOp_good [of s q] by (auto elim!: returnsE)
  with Cons.IH [of s1] Cons.prems show ?case by (auto elim!: returnsE)
qed simp

text \<open>Servers with the same replicated state give the same answers and stay equal.\<close>

lemma replicas_agree:
  "good s \<Longrightarrow> good t \<Longrightarrow> view s = view t \<Longrightarrow> \<forall>q \<in> set qs. valid q \<Longrightarrow>
   apply_reqs sm qs s = Some (s', vs) \<Longrightarrow>
   \<exists>t'. apply_reqs sm qs t = Some (t', vs) \<and> view t' = view s' \<and> good t'"
proof (induction qs arbitrary: s t vs)
  case (Cons q qs)
  from Cons.prems(5) obtain s1 v ws where s1: "smDoOp sm q s = Some (s1, v)"
    and rest: "apply_reqs sm qs s1 = Some (s', ws)" and vs: "vs = v # ws"
    by (auto simp: bind_Some_iff)
  obtain t1 where t1: "smDoOp sm q t = Some (t1, v)" "view t1 = view s1"
    using DoOp_view [OF Cons.prems(1-3) s1] by blast
  have "good s1" "good t1"
    using DoOp_good [of s q] DoOp_good [of t q] Cons.prems s1 t1 by auto
  with Cons.IH [of s1 t1 ws] Cons.prems rest t1 vs show ?case by auto
qed simp

end

context state_machine
begin

text \<open>Reading a message: the server executes the command, and the disk is left alone or gets the
  snapshot of the new state.\<close>

lemma reader_cmd:
  assumes "reader_msg nbytes sm (cmd_msg i t op) rsm = Some rsm'" "raft_inv (rsmRaft rsm)"
    and "lastIncludedIndex (rsmRaft rsm) < i"
  shows "\<exists>v. smDoOp sm (opReq op) (rsmSm rsm) = Some (rsmSm rsm', v) \<and> raft_inv (rsmRaft rsm') \<and>
    (rsmRaft rsm' = rsmRaft rsm \<or>
     lastIncludedIndex (rsmRaft rsm') = i \<and>
     ReadSnapshot (persister (rsmRaft rsm')) = smSnapshot sm (rsmSm rsm'))"
proof -
  from assms(1) obtain st v rsm1 where st: "smDoOp sm (opReq op) (rsmSm rsm) = Some (st, v)"
    and snap: "trySnapShot nbytes sm i (rsm\<lparr>rsmSm := st\<rparr>) = Some rsm1"
    and rsm': "rsm' = notify i t v rsm1"
    by (auto simp: reader_msg_def cmd_msg_def bind_Some_iff)
  have "raft_inv (rsmRaft rsm1)" "rsmSm rsm1 = st"
    using trySnapShot_ok [of "rsm\<lparr>rsmSm := st\<rparr>" nbytes sm i] assms(2) snap by auto
  moreover have "rsmRaft rsm1 = rsmRaft rsm \<or> lastIncludedIndex (rsmRaft rsm1) = i \<and>
      ReadSnapshot (persister (rsmRaft rsm1)) = smSnapshot sm st"
    using snap Snapshot_saves [OF assms(2,3), of "smSnapshot sm st"]
    by (auto simp: trySnapShot_def Let_def bind_Some_iff split: if_splits)
  ultimately show ?thesis using st by (simp add: rsm')
qed

lemma deliver_recoverable:
  assumes rec: "recoverable sm good valid s0 H (n, s)" and val: "valid (opReq op)"
  shows "returns (feed_step nbytes sm (Deliver op t) (n, s)) (\<lambda>(s', os). recoverable sm good valid s0 (H @ os) s')"
proof -
  let ?rsm = "sysRsm s" and ?qs = "execs H"
  from rec obtain vs where n: "n = length ?qs" and inv: "raft_inv (rsmRaft ?rsm)" "good (rsmSm ?rsm)"
    and app: "apply_reqs sm ?qs s0 = Some (rsmSm ?rsm, vs)"
    and disk: "disk_current sm good s0 ?qs (rsmRaft ?rsm)"
    by (auto simp: recoverable_def)
  obtain rsm' where rd: "reader_msg nbytes sm (cmd_msg (int n + 1) t op) ?rsm = Some rsm'"
    and good': "good (rsmSm rsm')"
    using reader_msg_good [OF inv, of "cmd_msg (int n + 1) t op" s] val
    by (auto simp: cmd_msg_def elim!: returnsE)
  have lt: "lastIncludedIndex (rsmRaft ?rsm) < int n + 1"
    using disk_current_index [OF disk] n by simp
  from reader_cmd [OF rd inv(1) lt] obtain v where
    step: "smDoOp sm (opReq op) (rsmSm ?rsm) = Some (rsmSm rsm', v)" and inv': "raft_inv (rsmRaft rsm')"
    and snap: "rsmRaft rsm' = rsmRaft ?rsm \<or> lastIncludedIndex (rsmRaft rsm') = int n + 1 \<and>
      ReadSnapshot (persister (rsmRaft rsm')) = smSnapshot sm (rsmSm rsm')"
    by blast
  have app': "apply_reqs sm (?qs @ [opReq op]) s0 = Some (rsmSm rsm', vs @ [v])"
    using app step by (simp add: apply_reqs_append)
  have "disk_current sm good s0 (?qs @ [opReq op]) (rsmRaft rsm')"
    using snap
  proof
    assume "rsmRaft rsm' = rsmRaft ?rsm"
    with disk_current_append [OF disk] show ?thesis by simp
  next
    assume "lastIncludedIndex (rsmRaft rsm') = int n + 1 \<and>
      ReadSnapshot (persister (rsmRaft rsm')) = smSnapshot sm (rsmSm rsm')"
    with app' good' n show ?thesis
      unfolding disk_current_def by (intro disjI2 exI [of _ "Suc n"]) auto
  qed
  with n inv' good' app' val rec show ?thesis
    by (simp add: rd [unfolded n] recoverable_def)
qed

lemma between_recoverable:
  assumes rec: "recoverable sm good valid s0 H (n, s)" and ok: "between_ok e s"
  shows "returns (feed_step nbytes sm (Between e) (n, s)) (\<lambda>(s', os). recoverable sm good valid s0 (H @ os) s')"
proof -
  have inv: "raft_inv (rsmRaft (sysRsm s))" using rec by (auto simp: recoverable_def)
  have "returns (rsm_step nbytes sm e s) (\<lambda>(s', os). raft_inv (rsmRaft (sysRsm s')))"
  proof (cases e)
    case (RsmSubmit q)
    then show ?thesis
      using Start_ok [OF inv, of "\<lparr>opMe = rsmMe (sysRsm s), opId = 0, opReq = q\<rparr>"]
      by (auto simp: submit_start_def steps_ok_def elim!: returnsE)
  next
    case (RsmRaft e')
    with ok peer_step_inv [OF inv, of e'] show ?thesis by (auto elim!: returnsE)
  qed (use inv ok in \<open>auto simp: submit_register_def finish_call_def submit_finish_def Let_def
        split: option.splits list.splits\<close>)
  then obtain s' os where st: "rsm_step nbytes sm e s = Some (s', os)" and inv': "raft_inv (rsmRaft (sysRsm s'))"
    by (auto elim!: returnsE)
  have "disk_current sm good s0 (execs H) (rsmRaft (sysRsm s'))"
    using rec between_disk [OF ok st] by (auto simp: recoverable_def elim: disk_current_cong)
  with rec inv' between_frame [OF ok st] show ?thesis
    by (simp add: st recoverable_def)
qed

lemma feed_step_recoverable:
  assumes "recoverable sm good valid s0 H ns" "feed_ok valid e ns"
  shows "returns (feed_step nbytes sm e ns) (\<lambda>(s', os). recoverable sm good valid s0 (H @ os) s')"
proof -
  obtain n s where ns: "ns = (n, s)" by fastforce
  show ?thesis
  proof (cases e)
    case (Deliver op t)
    with assms deliver_recoverable [of s0 H n s op nbytes t] show ?thesis by (simp only: ns feed_ok.simps)
  next
    case (Between e')
    with assms between_recoverable [of s0 H n s e' nbytes] show ?thesis by (simp only: ns feed_ok.simps)
  qed
qed

text \<open>After a crash: a new server on the old disk that reads the commands after the snapshot has the
  state of the old server.\<close>

lemma recovers:
  assumes rec: "recoverable sm good valid s0 H (n, s)"
    and start: "good s0" "good t" "view t = view s0"
    and size: "\<And>xs. 0 < nsnap xs \<longleftrightarrow> xs \<noteq> []"
    and ps: "ps = persister (rsmRaft (sysRsm s))"
  shows "\<exists>r st vs. MakeRSM nsnap servers i ps maxstate sm t = Some r \<and>
    apply_reqs sm (drop (nat (lastIncludedIndex (rsmRaft (sysRsm s)))) (execs H)) (rsmSm r) = Some (st, vs) \<and>
    view st = view (rsmSm (sysRsm s))"
proof -
  let ?rf = "rsmRaft (sysRsm s)" and ?qs = "execs H"
  from rec obtain ws where app: "apply_reqs sm ?qs s0 = Some (rsmSm (sysRsm s), ws)"
    and disk: "disk_current sm good s0 ?qs ?rf" and vals: "\<forall>q \<in> set (execs H). valid q"
    by (auto simp: recoverable_def)
  from disk consider "lastIncludedIndex ?rf = 0" "ReadSnapshot ps = []"
    | k m vs where "lastIncludedIndex ?rf = int k" "good m" "apply_reqs sm (take k ?qs) s0 = Some (m, vs)"
        "ReadSnapshot ps = smSnapshot sm m"
    by (auto simp: disk_current_def ps)
  then show ?thesis
  proof cases
    case 1
    then have "SnapshotSize nsnap ps \<le> 0" using size [of "[]"] by (simp add: SnapshotSize_def ReadSnapshot_def)
    with 1 replicas_agree [OF start(1,2) start(3) [symmetric] vals app] show ?thesis
      by (auto simp: MakeRSM_def)
  next
    case (2 k m vs)
    from app 2(3) obtain us where rest: "apply_reqs sm (drop k ?qs) m = Some (rsmSm (sysRsm s), us)"
      using apply_reqs_append [of sm "take k ?qs" "drop k ?qs" s0]
      by (cases "apply_reqs sm (drop k ?qs) m") auto
    have dec: "decodes (ReadSnapshot ps)" using Snapshot_decodes 2 by simp
    then obtain r where r: "smRestore sm (ReadSnapshot ps) t = Some r" "good r"
      using Restore_good [of "ReadSnapshot ps" t] by (auto elim!: returnsE)
    then have "view m = view r" using Restore_Snapshot [OF 2(2), of t r] 2(4) by simp
    moreover have "\<forall>q \<in> set (drop k ?qs). valid q" using vals by (meson in_set_dropD)
    ultimately obtain st where "apply_reqs sm (drop k ?qs) r = Some (st, us)" "view st = view (rsmSm (sysRsm s))"
      using replicas_agree [OF 2(2) r(2) _ _ rest] by blast
    moreover have "0 < SnapshotSize nsnap ps"
      using size Restore_good [OF dec] by (simp add: SnapshotSize_def ReadSnapshot_def)
    ultimately show ?thesis using r 2(1) by (simp add: MakeRSM_def)
  qed
qed

end

sublocale state_machine < feed: machine "feed_step nbytes sm" "feed_ok valid" "recoverable sm good valid s0"
  for nbytes s0
  by unfold_locales (rule feed_step_recoverable)

end
