(* ===== verification/KVServer.thy ===== *)
theory KVServer
  imports RSM_Recovery
begin

text \<open>
  \<^verbatim>\<open>lec-2025/src/kvraft1/server.go\<close>: the versioned key/value state machine that the replicated
  service runs. \<^verbatim>\<open>log.Fatalf\<close> and a write to a nil map are \<open>None\<close>.
\<close>

text \<open>What \<^verbatim>\<open>any\<close> can hold: a pointer to a request (as a handler submits it), a request (as the log
  decodes it), or something else.\<close>

datatype kv_req = GetPtr GetArgs | PutPtr PutArgs | GetVal GetArgs | PutVal PutArgs | OtherReq

datatype kv_rep = GetRep GetReply | PutRep PutReply | NilRep

record KVServer =
  kvMe :: int
  kvDead :: int
  KeyValue :: kvmap

definition get_op :: "GetArgs \<Rightarrow> KVServer \<Rightarrow> KVServer \<times> kv_rep" where
  "get_op getreq kv =
     (let getReply = \<lparr>getValue = [], getVersion = 0, getErr = NoErr\<rparr> in
      (kv, GetRep
         (case kv_lookup (KeyValue kv) (getKey getreq) of
            None \<Rightarrow> getReply\<lparr>getErr := ErrNoKey\<rparr>
          | Some entry \<Rightarrow> getReply\<lparr>getValue := Value entry, getVersion := Version entry, getErr := OK\<rparr>)))"

definition put_op :: "PutArgs \<Rightarrow> KVServer \<Rightarrow> (KVServer \<times> kv_rep) option" where
  "put_op putreq kv =
     (case kv_lookup (KeyValue kv) (putKey putreq) of
        None \<Rightarrow>
          if putVersion putreq = 0 then do {
            m \<leftarrow> kv_store (KeyValue kv) (putKey putreq) \<lparr>Value = putValue putreq, Version = 1\<rparr>;
            Some (kv\<lparr>KeyValue := m\<rparr>, PutRep \<lparr>putErr = OK\<rparr>) }
          else Some (kv, PutRep \<lparr>putErr = ErrVersion\<rparr>)
      | Some entry \<Rightarrow>
          if putVersion putreq \<noteq> Version entry then Some (kv, PutRep \<lparr>putErr = ErrVersion\<rparr>)
          else do {
            m \<leftarrow> kv_store (KeyValue kv) (putKey putreq)
                  \<lparr>Value = putValue putreq, Version = Version entry + 1\<rparr>;
            Some (kv\<lparr>KeyValue := m\<rparr>, PutRep \<lparr>putErr = OK\<rparr>) })"

fun DoOp :: "kv_req \<Rightarrow> KVServer \<Rightarrow> (KVServer \<times> kv_rep) option" where
  "DoOp (GetPtr a) kv = Some (get_op a kv)"
| "DoOp (PutPtr a) kv = put_op a kv"
| "DoOp (GetVal a) kv = Some (get_op a kv)"
| "DoOp (PutVal a) kv = put_op a kv"
| "DoOp OtherReq kv = None"

text \<open>The encoder writes the map as one item; \<^verbatim>\<open>Restore\<close> of an empty snapshot returns, and of one that
  does not decode keeps the state. The encoder writes a nil map like an empty one, and the decoder
  always makes a map.\<close>

datatype kv_item = GobKVMap "string \<rightharpoonup> ValueEntry" | GobOther

definition kvSnapshot :: "KVServer \<Rightarrow> kv_item list" where
  "kvSnapshot kv = [GobKVMap (kv_lookup (KeyValue kv))]"

definition kvRestore :: "kv_item list \<Rightarrow> KVServer \<Rightarrow> KVServer" where
  "kvRestore data kv =
     (case data of
        [] \<Rightarrow> kv
      | GobKVMap m # _ \<Rightarrow> kv\<lparr>KeyValue := Some m\<rparr>
      | GobOther # _ \<Rightarrow> kv)"

definition kv_sm :: "(kv_req, kv_rep, kv_item, KVServer) StateMachine" where
  "kv_sm = \<lparr>smDoOp = DoOp, smSnapshot = kvSnapshot, smRestore = (\<lambda>d kv. Some (kvRestore d kv))\<rparr>"

text \<open>The RPC handlers, from what \<^verbatim>\<open>Submit\<close> returns on; a failed type assertion leaves the error of
  \<^verbatim>\<open>Submit\<close>.\<close>

definition KVServer_Get :: "Err \<times> kv_rep option \<Rightarrow> GetReply" where
  "KVServer_Get sub =
     (let reply = \<lparr>getValue = [], getVersion = 0, getErr = fst sub\<rparr> in
      case snd sub of
        Some (GetRep getResult) \<Rightarrow> if fst sub = OK then getResult else reply
      | _ \<Rightarrow> reply)"

definition KVServer_Put :: "Err \<times> kv_rep option \<Rightarrow> PutReply" where
  "KVServer_Put sub =
     (let reply = \<lparr>putErr = fst sub\<rparr> in
      case snd sub of
        Some (PutRep putResult) \<Rightarrow> if fst sub = OK then reply\<lparr>putErr := putErr putResult\<rparr> else reply
      | _ \<Rightarrow> reply)"

definition KVServer_Kill :: "KVServer \<Rightarrow> KVServer" where
  "KVServer_Kill kv = kv\<lparr>kvDead := 1\<rparr>"

definition KVServer_killed :: "KVServer \<Rightarrow> bool" where
  "KVServer_killed kv \<longleftrightarrow> kvDead kv = 1"

text \<open>The server is made without a map; \<^verbatim>\<open>MakeRSM\<close> may restore one, and otherwise an empty map is made
  afterwards.\<close>

definition StartKVServer ::
  "(kv_item list \<Rightarrow> int) \<Rightarrow> int \<Rightarrow> int \<Rightarrow> (kv_req Op raft_item, kv_item) Persister \<Rightarrow> int \<Rightarrow>
   (kv_req, kv_rep, kv_item, KVServer) RSM option" where
  "StartKVServer nsnap servers i ps maxstate =
     do {
       let kv = \<lparr>kvMe = i, kvDead = 0, KeyValue = None\<rparr>;
       rsm \<leftarrow> MakeRSM nsnap servers i ps maxstate kv_sm kv;
       let kv1 = (rsmSm rsm)\<lparr>kvDead := 0\<rparr>;
       Some (rsm\<lparr>rsmSm := (if KeyValue kv1 = None then kv1\<lparr>KeyValue := Some Map.empty\<rparr> else kv1)\<rparr>)
     }"

section \<open>The contract\<close>

definition kv_good :: "KVServer \<Rightarrow> bool" where
  "kv_good kv \<longleftrightarrow> KeyValue kv \<noteq> None"

fun kv_valid :: "kv_req \<Rightarrow> bool" where
  "kv_valid OtherReq \<longleftrightarrow> False"
| "kv_valid _ \<longleftrightarrow> True"

fun kv_decodes :: "kv_item list \<Rightarrow> bool" where
  "kv_decodes (GobKVMap m # r) \<longleftrightarrow> True"
| "kv_decodes _ \<longleftrightarrow> False"

lemma put_op_good: "kv_good kv \<Longrightarrow> returns (put_op a kv) (\<lambda>(kv', v). kv_good kv')"
  by (auto simp: put_op_def kv_good_def split: option.splits)

lemma put_op_view:
  "put_op a s = Some (s', v) \<Longrightarrow> KeyValue t = KeyValue s \<Longrightarrow>
   \<exists>t'. put_op a t = Some (t', v) \<and> KeyValue t' = KeyValue s'"
  by (auto simp: put_op_def bind_Some_iff split: option.splits if_splits)

interpretation kvsm: state_machine kv_sm kv_good kv_valid kv_decodes KeyValue
proof
  fix s q assume "kv_good s" "kv_valid q"
  then show "returns (smDoOp kv_sm q s) (\<lambda>(s', v). kv_good s')"
    by (cases q) (auto simp: kv_sm_def get_op_def put_op_good Let_def)
next
  fix s t s' :: KVServer and q v
  assume "KeyValue s = KeyValue t" "smDoOp kv_sm q s = Some (s', v)"
  then show "\<exists>t'. smDoOp kv_sm q t = Some (t', v) \<and> KeyValue t' = KeyValue s'"
    using put_op_view by (cases q) (auto simp: kv_sm_def get_op_def Let_def)
next
  fix d t assume "kv_decodes d"
  then show "d \<noteq> [] \<and> returns (smRestore kv_sm d t) kv_good"
    by (cases d rule: kv_decodes.cases) (auto simp: kv_sm_def kvRestore_def kv_good_def)
qed (auto simp: kv_sm_def kvSnapshot_def kvRestore_def kv_good_def kv_lookup_def fun_eq_iff)

section \<open>Refinement of the sequential specification\<close>

text \<open>How the tester records an operation (\<^verbatim>\<open>kvtest1/porcupine.go\<close>): the request and the reply as
  the input and the output of \<^verbatim>\<open>KvModel\<close>.\<close>

fun err_string :: "Err \<Rightarrow> string" where
  "err_string NoErr = []"
| "err_string OK = ''OK''"
| "err_string ErrNoKey = ''ErrNoKey''"
| "err_string ErrVersion = ''ErrVersion''"
| "err_string ErrMaybe = ''ErrMaybe''"
| "err_string ErrWrongLeader = ''ErrWrongLeader''"
| "err_string ErrWrongGroup = ''ErrWrongGroup''"

definition get_input :: "GetArgs \<Rightarrow> KvInput" where
  "get_input a = \<lparr>inOp = 0, inKey = getKey a, inValue = [], inVersion = 0\<rparr>"

definition put_input :: "PutArgs \<Rightarrow> KvInput" where
  "put_input a = \<lparr>inOp = 1, inKey = putKey a, inValue = putValue a, inVersion = putVersion a\<rparr>"

fun kv_input :: "kv_req \<Rightarrow> KvInput" where
  "kv_input (GetPtr a) = get_input a"
| "kv_input (GetVal a) = get_input a"
| "kv_input (PutPtr a) = put_input a"
| "kv_input (PutVal a) = put_input a"
| "kv_input OtherReq = \<lparr>inOp = 2, inKey = [], inValue = [], inVersion = 0\<rparr>"

fun kv_output :: "kv_rep \<Rightarrow> KvOutput" where
  "kv_output (GetRep r) = \<lparr>outValue = getValue r, outVersion = getVersion r, outErr = err_string (getErr r)\<rparr>"
| "kv_output (PutRep r) = \<lparr>outValue = [], outVersion = 0, outErr = err_string (putErr r)\<rparr>"
| "kv_output NilRep = \<lparr>outValue = [], outVersion = 0, outErr = []\<rparr>"

text \<open>The state of one key, as the specification sees it.\<close>

definition kv_abs :: "KVServer \<Rightarrow> string \<Rightarrow> KvState" where
  "kv_abs kv k =
     (case kv_lookup (KeyValue kv) k of
        None \<Rightarrow> KvModel_Init
      | Some e \<Rightarrow> \<lparr>stValue = Value e, stVersion = Version e\<rparr>)"

lemma get_op_refines:
  "KvModel_Step (kv_abs kv (getKey a)) (get_input a) (kv_output (snd (get_op a kv))) =
     (True, Some (kv_abs kv (getKey a)))"
  by (simp add: KvModel_Step_def get_input_def get_op_def kv_abs_def KvModel_Init_def Let_def split: option.splits)

lemma put_op_refines:
  assumes "put_op a kv = Some (kv', r)" "kv_good kv"
  shows "KvModel_Step (kv_abs kv (putKey a)) (put_input a) (kv_output r) = (True, Some (kv_abs kv' (putKey a)))"
    and "k \<noteq> putKey a \<Longrightarrow> kv_abs kv' k = kv_abs kv k"
  using assms
  by (auto simp: KvModel_Step_def put_input_def put_op_def kv_abs_def KvModel_Init_def kv_good_def
      split: option.splits if_splits)

lemma DoOp_refines:
  assumes "DoOp q kv = Some (kv', r)" "kv_good kv" "kv_valid q"
  shows "KvModel_Step (kv_abs kv (inKey (kv_input q))) (kv_input q) (kv_output r) =
           (True, Some (kv_abs kv' (inKey (kv_input q))))"
    and "k \<noteq> inKey (kv_input q) \<Longrightarrow> kv_abs kv' k = kv_abs kv k"
proof -
  have keys: "inKey (get_input a) = getKey a" "inKey (put_input b) = putKey b" for a b
    by (simp_all add: get_input_def put_input_def)
  have fst: "fst (get_op a kv) = kv" for a by (simp add: get_op_def Let_def)
  have get: "kv' = kv \<and> r = snd (get_op a kv)" if "get_op a kv = (kv', r)" for a
    using that fst [of a] by simp
  show "KvModel_Step (kv_abs kv (inKey (kv_input q))) (kv_input q) (kv_output r) =
           (True, Some (kv_abs kv' (inKey (kv_input q))))"
    using assms get_op_refines [of kv] by (cases q) (auto simp: keys put_op_refines(1) dest!: get)
  show "k \<noteq> inKey (kv_input q) \<Longrightarrow> kv_abs kv' k = kv_abs kv k"
    using assms by (cases q) (auto simp: keys put_op_refines(2) dest!: get)
qed

text \<open>A history of one key that the specification explains, step by step.\<close>

fun model_accepts :: "KvState \<Rightarrow> (KvInput \<times> KvOutput) list \<Rightarrow> bool" where
  "model_accepts st [] \<longleftrightarrow> True"
| "model_accepts st ((i, out) # h) \<longleftrightarrow>
     (case KvModel_Step st i out of (True, Some st') \<Rightarrow> model_accepts st' h | _ \<Rightarrow> False)"

definition kv_history :: "kv_req list \<Rightarrow> kv_rep list \<Rightarrow> (KvInput \<times> KvOutput) list" where
  "kv_history qs rs = zip (map kv_input qs) (map kv_output rs)"

lemma history_accepted:
  assumes "kv_good kv" "\<forall>q \<in> set qs. kv_valid q" "apply_reqs kv_sm qs kv = Some (kv', rs)"
  shows "model_accepts (kv_abs kv k) (filter (\<lambda>(i, out). inKey i = k) (kv_history qs rs))"
  using assms
proof (induction qs arbitrary: kv rs)
  case (Cons q qs)
  from Cons.prems(3) obtain kv1 r rs' where st: "DoOp q kv = Some (kv1, r)"
    and rest: "apply_reqs kv_sm qs kv1 = Some (kv', rs')" and rs: "rs = r # rs'"
    by (auto simp: bind_Some_iff kv_sm_def)
  have val: "kv_valid q" using Cons.prems(2) by simp
  have "kv_good kv1"
    using kvsm.DoOp_good [OF Cons.prems(1) val] st by (simp add: kv_sm_def)
  with Cons.IH [OF _ _ rest] Cons.prems(2)
  have IH: "model_accepts (kv_abs kv1 k) (filter (\<lambda>(i, out). inKey i = k) (kv_history qs rs'))" by simp
  show ?case
  proof (cases "inKey (kv_input q) = k")
    case True
    with DoOp_refines(1) [OF st Cons.prems(1) val] IH show ?thesis
      by (simp add: rs kv_history_def)
  next
    case False
    with DoOp_refines(2) [OF st Cons.prems(1) val, of k] IH show ?thesis
      by (auto simp: rs kv_history_def)
  qed
qed (simp add: kv_history_def)

text \<open>C8. The server refines the specification the testers use: the history of any sequence of requests
  on a new server, split by key the way \<^verbatim>\<open>KvModel.Partition\<close> splits it, is accepted by \<^verbatim>\<open>KvModel.Step\<close>
  key by key, versions that wrap around included.\<close>

theorem kv_refines_model:
  assumes "\<forall>q \<in> set qs. kv_valid q"
    and "apply_reqs kv_sm qs \<lparr>kvMe = i, kvDead = 0, KeyValue = Some Map.empty\<rparr> = Some (kv', rs)"
    and "h \<in> set (KvModel_Partition (\<lambda>(i, out). inKey i) (kv_history qs rs))"
  shows "model_accepts KvModel_Init h"
proof -
  let ?kv = "\<lparr>kvMe = i, kvDead = 0, KeyValue = Some Map.empty\<rparr>"
  from assms(3) obtain k where h: "h = filter (\<lambda>(i, out). inKey i = k) (kv_history qs rs)"
    by (auto simp: KvModel_Partition_eq split_def)
  have "kv_good ?kv" "kv_abs ?kv k = KvModel_Init" by (simp_all add: kv_good_def kv_abs_def)
  with history_accepted [OF _ assms(1,2), of k] show ?thesis by (simp add: h)
qed

theorem kv_refines_model_witness:
  "\<exists>kv' rs h. apply_reqs kv_sm [PutVal \<lparr>putKey = ''x'', putValue = ''a'', putVersion = 0\<rparr>, GetVal \<lparr>getKey = ''x''\<rparr>]
       \<lparr>kvMe = 0, kvDead = 0, KeyValue = Some Map.empty\<rparr> = Some (kv', rs) \<and>
     h \<in> set (KvModel_Partition (\<lambda>(i, out). inKey i)
            (kv_history [PutVal \<lparr>putKey = ''x'', putValue = ''a'', putVersion = 0\<rparr>, GetVal \<lparr>getKey = ''x''\<rparr>] rs)) \<and>
     length h = 2 \<and> model_accepts KvModel_Init h"
proof -
  let ?qs = "[PutVal \<lparr>putKey = ''x'', putValue = ''a'', putVersion = 0\<rparr>, GetVal \<lparr>getKey = ''x''\<rparr>]"
  let ?rs = "[PutRep \<lparr>putErr = OK\<rparr>, GetRep \<lparr>getValue = ''a'', getVersion = 1, getErr = OK\<rparr>]"
  let ?kv = "\<lparr>kvMe = 0, kvDead = 0, KeyValue = Some Map.empty\<rparr>"
  have run: "\<exists>kv'. apply_reqs kv_sm ?qs ?kv = Some (kv', ?rs)"
    by (simp add: kv_sm_def put_op_def get_op_def)
  have mem: "kv_history ?qs ?rs \<in> set (KvModel_Partition (\<lambda>(i, out). inKey i) (kv_history ?qs ?rs))"
    by (simp add: KvModel_Partition_eq kv_history_def get_input_def put_input_def)
  from run obtain kv' where run': "apply_reqs kv_sm ?qs ?kv = Some (kv', ?rs)" by blast
  have "model_accepts KvModel_Init (kv_history ?qs ?rs)"
    by (rule kv_refines_model [OF _ run' mem]) simp
  moreover have "length (kv_history ?qs ?rs) = 2" by (simp add: kv_history_def)
  ultimately show ?thesis using run' mem by blast
qed

end
