(* ===== verification/KV_Service.thy ===== *)
theory KV_Service
  imports KVServer
begin

text \<open>
  The replicated key/value service: \<^verbatim>\<open>kvraft1/server.go\<close> on \<^verbatim>\<open>rsm.go\<close> on \<^verbatim>\<open>raft.go\<close>. What a client
  of one server can rely on, and what survives a crash.
\<close>

abbreviation fresh_kv :: "int \<Rightarrow> KVServer" where
  "fresh_kv i \<equiv> \<lparr>kvMe = i, kvDead = 0, KeyValue = Some Map.empty\<rparr>"

lemma StartKVServer_eq:
  "StartKVServer nsnap servers i ps maxstate = MakeRSM nsnap servers i ps maxstate kv_sm (fresh_kv i)"
  by (auto simp: StartKVServer_def MakeRSM_def kv_sm_def kvRestore_def split: list.splits kv_item.splits)

lemma Make_fresh_fields:
  "lastIncludedIndex (Make n i MakePersister) = 0" "persister (Make n i MakePersister) = MakePersister"
  by (simp_all add: Make_def MakePersister_def ReadRaftState_def readPersist_def Let_def)

lemma kv_fresh_sound:
  assumes "0 \<le> i" "i < servers" "StartKVServer nsnap servers i MakePersister maxstate = Some rsm"
  shows "rsm_sound kv_good [] \<lparr>sysRsm = rsm, sysCalls = []\<rparr>"
    and "recoverable kv_sm kv_good kv_valid (fresh_kv i) [] (0, \<lparr>sysRsm = rsm, sysCalls = []\<rparr>)"
proof -
  have rsm: "rsm = \<lparr>rsmMe = i, rsmRaft = Make servers i MakePersister, maxraftstate = maxstate,
      rsmSm = fresh_kv i, waitChs = Map.empty, chans = [], closed = []\<rparr>"
    using assms(3) by (auto simp: StartKVServer_eq MakeRSM_def kv_sm_def kvRestore_def MakePersister_def
        ReadSnapshot_def split: if_splits)
  show "rsm_sound kv_good [] \<lparr>sysRsm = rsm, sysCalls = []\<rparr>"
    using Make_fresh_ok [OF assms(1,2)]
    by (simp add: rsm rsm_sound_def chans_sound_def calls_sound_def rets_sound_def kv_good_def)
  show "recoverable kv_sm kv_good kv_valid (fresh_kv i) [] (0, \<lparr>sysRsm = rsm, sysCalls = []\<rparr>)"
    using Make_fresh_ok [OF assms(1,2)]
    by (simp add: rsm recoverable_def kv_good_def disk_current_def Make_fresh_fields)
      (simp add: ReadSnapshot_def MakePersister_def)
qed



section \<open>Instances\<close>

definition sample_put :: kv_req where
  "sample_put = PutPtr \<lparr>putKey = ''x'', putValue = ''a'', putVersion = 0\<rparr>"

definition elect :: "(kv_req Op, kv_item) event list" where
  "elect =
     [EvStartElection,
      EvVoteReply \<lparr>rvTerm = 1, CandidateId = 0, LastLogIndex = 0, LastLogTerm = 0\<rparr>
        \<lparr>rvrTerm = 1, VoteGranted = True\<rparr> new_election]"

definition sample_rsm :: "(kv_req, kv_rep, kv_item, KVServer) RSM" where
  "sample_rsm = the (StartKVServer (\<lambda>xs. int (length xs)) 3 0 MakePersister 4)"

lemma sample_rsm_start: "StartKVServer (\<lambda>xs. int (length xs)) 3 0 MakePersister 4 = Some sample_rsm"
  by (simp add: sample_rsm_def StartKVServer_eq MakeRSM_def SnapshotSize_def MakePersister_def)

abbreviation sample_service :: "(kv_req, kv_rep, kv_item, KVServer) rsm_sys" where
  "sample_service \<equiv> \<lparr>sysRsm = sample_rsm, sysCalls = []\<rparr>"

definition sample_calls :: "(kv_req, kv_item) rsm_event list" where
  "sample_calls =
     map RsmRaft elect @
     [RsmSubmit sample_put, RsmRegister 0,
      RsmMsg (cmd_msg 1 1 \<lparr>opMe = 0, opId = 0, opReq = sample_put\<rparr>), RsmReceive 0]"


definition sample_feed :: "(kv_req, kv_item) feed_event list" where
  "sample_feed =
     map (Between \<circ> RsmRaft) elect @
     [Between (RsmSubmit sample_put), Deliver \<lparr>opMe = 0, opId = 0, opReq = sample_put\<rparr> 1,
      Deliver \<lparr>opMe = 0, opId = 0, opReq = GetPtr \<lparr>getKey = ''x''\<rparr>\<rparr> 1]"


end
