(* ===== verification/KVClerk.thy ===== *)
theory KVClerk
  imports KVServer
begin

text \<open>
  \<^verbatim>\<open>lec-2025/src/kvraft1/client.go\<close>: the clerk of the replicated service. The network and the servers
  are the parameter \<open>call\<close>: what the \<open>n\<close>-th RPC of the operation, to server \<open>i\<close>, brings back, \<open>None\<close>
  when \<^verbatim>\<open>Call\<close> returns false. The loops may run forever; then the result is \<open>None\<close>.
\<close>

datatype 'a outcome = Panicked | Returned 'a

record Clerk =
  nservers :: int
  lastLeader :: int

definition MakeClerk :: "int \<Rightarrow> Clerk" where
  "MakeClerk servers = \<lparr>nservers = servers, lastLeader = -1\<rparr>"

definition first_server :: "Clerk \<Rightarrow> int" where
  "first_server ck = (if lastLeader ck = -1 then 0 else lastLeader ck)"

partial_function (option) get_loop ::
  "(nat \<Rightarrow> int \<Rightarrow> GetReply option) \<Rightarrow> nat \<Rightarrow> int \<Rightarrow> Clerk \<Rightarrow> (Clerk \<times> GetReply) outcome option" where
  "get_loop call n i ck =
     (if i < 0 \<or> nservers ck \<le> i then Some Panicked
      else case call n i of
        Some reply \<Rightarrow>
          if getErr reply \<noteq> ErrWrongLeader then Some (Returned (ck\<lparr>lastLeader := i\<rparr>, reply))
          else get_loop call (Suc n) ((i + 1) mod nservers ck) ck
      | None \<Rightarrow> get_loop call (Suc n) ((i + 1) mod nservers ck) ck)"

definition Clerk_Get ::
  "(nat \<Rightarrow> int \<Rightarrow> GetReply option) \<Rightarrow> Clerk \<Rightarrow> (Clerk \<times> GetReply) outcome option" where
  "Clerk_Get call ck = get_loop call 0 (first_server ck) ck"

partial_function (option) put_loop ::
  "(nat \<Rightarrow> int \<Rightarrow> PutReply option) \<Rightarrow> nat \<Rightarrow> int \<Rightarrow> bool \<Rightarrow> Clerk \<Rightarrow> (Clerk \<times> Err) outcome option" where
  "put_loop call n i isResend ck =
     (if i < 0 \<or> nservers ck \<le> i then Some Panicked
      else case call n i of
        Some reply \<Rightarrow>
          if putErr reply \<noteq> ErrWrongLeader then
            Some (Returned (ck\<lparr>lastLeader := i\<rparr>,
                  if isResend \<and> putErr reply = ErrVersion then ErrMaybe else putErr reply))
          else put_loop call (Suc n) ((i + 1) mod nservers ck) True ck
      | None \<Rightarrow> put_loop call (Suc n) ((i + 1) mod nservers ck) True ck)"

definition Clerk_Put ::
  "(nat \<Rightarrow> int \<Rightarrow> PutReply option) \<Rightarrow> Clerk \<Rightarrow> (Clerk \<times> Err) outcome option" where
  "Clerk_Put call ck = put_loop call 0 (first_server ck) False ck"

section \<open>What the loops compute\<close>

text \<open>The server of the \<open>n\<close>-th attempt, and whether its answer ends the loop.\<close>

definition nth_server :: "Clerk \<Rightarrow> int \<Rightarrow> nat \<Rightarrow> int" where
  "nth_server ck i n = (i + int n) mod nservers ck"

definition put_answer :: "(nat \<Rightarrow> int \<Rightarrow> PutReply option) \<Rightarrow> Clerk \<Rightarrow> nat \<Rightarrow> Err option" where
  "put_answer call ck n =
     (case call n (nth_server ck (first_server ck) n) of
        None \<Rightarrow> None
      | Some r \<Rightarrow> if putErr r = ErrWrongLeader then None else Some (putErr r))"

definition get_answer :: "(nat \<Rightarrow> int \<Rightarrow> GetReply option) \<Rightarrow> Clerk \<Rightarrow> nat \<Rightarrow> GetReply option" where
  "get_answer call ck n =
     (case call n (nth_server ck (first_server ck) n) of
        None \<Rightarrow> None
      | Some r \<Rightarrow> if getErr r = ErrWrongLeader then None else Some r)"

definition clerk_wf :: "Clerk \<Rightarrow> bool" where
  "clerk_wf ck \<longleftrightarrow> 0 < nservers ck \<and> -1 \<le> lastLeader ck \<and> lastLeader ck < nservers ck"

lemma first_server_bounds: "clerk_wf ck \<Longrightarrow> 0 \<le> first_server ck \<and> first_server ck < nservers ck"
  by (auto simp: clerk_wf_def first_server_def)

lemma nth_server_bounds: "clerk_wf ck \<Longrightarrow> 0 \<le> nth_server ck i n \<and> nth_server ck i n < nservers ck"
  by (simp add: clerk_wf_def nth_server_def)

lemma nth_server_Suc: "(nth_server ck i n + 1) mod nservers ck = nth_server ck i (Suc n)"
  by (simp add: nth_server_def mod_add_right_eq add_ac)

lemma nth_server_0: "clerk_wf ck \<Longrightarrow> nth_server ck (first_server ck) 0 = first_server ck"
  using first_server_bounds [of ck] by (simp add: nth_server_def)

text \<open>An attempt without an answer moves on to the next server.\<close>

lemma put_loop_step:
  assumes "clerk_wf ck"
  shows "put_loop call n (nth_server ck (first_server ck) n) b ck =
    (case put_answer call ck n of
       Some e \<Rightarrow> Some (Returned (ck\<lparr>lastLeader := nth_server ck (first_server ck) n\<rparr>,
                        if b \<and> e = ErrVersion then ErrMaybe else e))
     | None \<Rightarrow> put_loop call (Suc n) (nth_server ck (first_server ck) (Suc n)) True ck)"
  using nth_server_bounds [OF assms, of "first_server ck" n]
  by (subst put_loop.simps) (auto simp: put_answer_def nth_server_Suc split: option.splits)

lemma get_loop_step:
  assumes "clerk_wf ck"
  shows "get_loop call n (nth_server ck (first_server ck) n) ck =
    (case get_answer call ck n of
       Some r \<Rightarrow> Some (Returned (ck\<lparr>lastLeader := nth_server ck (first_server ck) n\<rparr>, r))
     | None \<Rightarrow> get_loop call (Suc n) (nth_server ck (first_server ck) (Suc n)) ck)"
  using nth_server_bounds [OF assms, of "first_server ck" n]
  by (subst get_loop.simps) (auto simp: get_answer_def nth_server_Suc split: option.splits)

lemma put_loop_skip:
  assumes "clerk_wf ck" "\<forall>j < n. put_answer call ck j = None"
  shows "put_loop call 0 (nth_server ck (first_server ck) 0) b ck =
         put_loop call n (nth_server ck (first_server ck) n) (b \<or> 0 < n) ck"
  using assms(2)
proof (induction n)
  case (Suc n)
  then show ?case using put_loop_step [OF assms(1), of call n] by simp
qed simp

lemma get_loop_skip:
  assumes "clerk_wf ck" "\<forall>j < n. get_answer call ck j = None"
  shows "get_loop call 0 (nth_server ck (first_server ck) 0) ck =
         get_loop call n (nth_server ck (first_server ck) n) ck"
  using assms(2)
proof (induction n)
  case (Suc n)
  then show ?case using get_loop_step [OF assms(1), of call n] by simp
qed simp

lemma Clerk_Put_answered:
  assumes "clerk_wf ck" "\<forall>j < n. put_answer call ck j = None" "put_answer call ck n = Some e"
  shows "Clerk_Put call ck = Some (Returned (ck\<lparr>lastLeader := nth_server ck (first_server ck) n\<rparr>,
           if 0 < n \<and> e = ErrVersion then ErrMaybe else e))"
  using put_loop_skip [OF assms(1,2), of False] put_loop_step [OF assms(1), of call n "0 < n"] assms(3)
  by (simp add: Clerk_Put_def nth_server_0 [OF assms(1)])

lemma Clerk_Get_answered:
  assumes "clerk_wf ck" "\<forall>j < n. get_answer call ck j = None" "get_answer call ck n = Some r"
  shows "Clerk_Get call ck = Some (Returned (ck\<lparr>lastLeader := nth_server ck (first_server ck) n\<rparr>, r))"
  using get_loop_skip [OF assms(1,2)] get_loop_step [OF assms(1), of call n] assms(3)
  by (simp add: Clerk_Get_def nth_server_0 [OF assms(1)])

text \<open>A loop that returns was answered.\<close>

lemma put_loop_returns:
  assumes "put_loop call n i b ck = Some res"
  shows "clerk_wf ck \<longrightarrow> i = nth_server ck (first_server ck) n \<longrightarrow> (\<exists>m. put_answer call ck m \<noteq> None)"
proof (rule put_loop.raw_induct [where P = "\<lambda>call n i b ck res. clerk_wf ck \<longrightarrow>
      i = nth_server ck (first_server ck) n \<longrightarrow> (\<exists>m. put_answer call ck m \<noteq> None)", OF _ assms],
    intro impI, goal_cases)
  case (1 loop call n i b ck res)
  have i: "0 \<le> i" "i < nservers ck"
    using nth_server_bounds [OF 1(3), of "first_server ck" n] 1(4) by simp_all
  have nxt: "(i + 1) mod nservers ck = nth_server ck (first_server ck) (Suc n)"
    by (simp add: 1(4) nth_server_Suc)
  show ?case
  proof (cases "put_answer call ck n")
    case None
    with 1(2) i have "loop call (Suc n) ((i + 1) mod nservers ck) True ck = Some res"
      by (auto simp: put_answer_def 1(4) [symmetric] split: option.splits if_splits)
    from 1(1) [OF this] 1(3) nxt show ?thesis by blast
  qed auto
qed

lemma get_loop_returns:
  assumes "get_loop call n i ck = Some res"
  shows "clerk_wf ck \<longrightarrow> i = nth_server ck (first_server ck) n \<longrightarrow> (\<exists>m. get_answer call ck m \<noteq> None)"
proof (rule get_loop.raw_induct [where P = "\<lambda>call n i ck res. clerk_wf ck \<longrightarrow>
      i = nth_server ck (first_server ck) n \<longrightarrow> (\<exists>m. get_answer call ck m \<noteq> None)", OF _ assms],
    intro impI, goal_cases)
  case (1 loop call n i ck res)
  have i: "0 \<le> i" "i < nservers ck"
    using nth_server_bounds [OF 1(3), of "first_server ck" n] 1(4) by simp_all
  have nxt: "(i + 1) mod nservers ck = nth_server ck (first_server ck) (Suc n)"
    by (simp add: 1(4) nth_server_Suc)
  show ?case
  proof (cases "get_answer call ck n")
    case None
    with 1(2) i have "loop call (Suc n) ((i + 1) mod nservers ck) ck = Some res"
      by (auto simp: get_answer_def 1(4) [symmetric] split: option.splits if_splits)
    from 1(1) [OF this] 1(3) nxt show ?thesis by blast
  qed auto
qed

lemma first_answer:
  assumes "\<exists>m :: nat. f m \<noteq> None"
  obtains n x where "\<forall>j < n. f j = None" "f n = Some x"
proof -
  let ?n = "LEAST m. f m \<noteq> None"
  have "f ?n \<noteq> None" using assms by (rule LeastI_ex)
  moreover have "\<forall>j < ?n. f j = None" by (metis (mono_tags, lifting) not_less_Least)
  ultimately show ?thesis using that by blast
qed

text \<open>C28. \<^verbatim>\<open>Clerk.Get\<close> returns exactly when some attempt is answered by a server that is not a wrong
  leader, and then returns the first such answer and remembers that server; it never panics.\<close>

theorem Clerk_Get_correct:
  assumes "clerk_wf ck"
  shows "(Clerk_Get call ck = None \<longleftrightarrow> (\<forall>n. get_answer call ck n = None)) \<and>
    (\<forall>n r. (\<forall>j < n. get_answer call ck j = None) \<and> get_answer call ck n = Some r \<longrightarrow>
       Clerk_Get call ck = Some (Returned (ck\<lparr>lastLeader := nth_server ck (first_server ck) n\<rparr>, r)))"
proof (intro conjI iffI allI impI)
  fix n assume none: "Clerk_Get call ck = None"
  show "get_answer call ck n = None"
  proof (rule ccontr)
    assume "get_answer call ck n \<noteq> None"
    then obtain m r where "\<forall>j < m. get_answer call ck j = None" "get_answer call ck m = Some r"
      using first_answer [of "get_answer call ck"] by blast
    with Clerk_Get_answered [OF assms] none show False by fastforce
  qed
next
  assume "\<forall>n. get_answer call ck n = None"
  then show "Clerk_Get call ck = None"
    using get_loop_returns [of call 0 "first_server ck" ck] nth_server_0 [OF assms] assms
    by (cases "Clerk_Get call ck") (auto simp: Clerk_Get_def)
qed (use Clerk_Get_answered [OF assms] in blast)

theorem Clerk_Get_correct_witness:
  "Clerk_Get (\<lambda>n i. if i = 2 then Some \<lparr>getValue = ''a'', getVersion = 3, getErr = OK\<rparr> else None) (MakeClerk 3) =
     Some (Returned (\<lparr>nservers = 3, lastLeader = 2\<rparr>, \<lparr>getValue = ''a'', getVersion = 3, getErr = OK\<rparr>))"
proof -
  let ?call = "\<lambda>(n::nat) i. if i = 2 then Some \<lparr>getValue = ''a'', getVersion = 3, getErr = OK\<rparr> else None"
  have "clerk_wf (MakeClerk 3)" by (simp add: clerk_wf_def MakeClerk_def)
  moreover have "\<forall>j < 2. get_answer ?call (MakeClerk 3) j = None"
    by (auto simp: get_answer_def nth_server_def MakeClerk_def first_server_def less_Suc_eq numeral_2_eq_2)
  moreover have "get_answer ?call (MakeClerk 3) 2 = Some \<lparr>getValue = ''a'', getVersion = 3, getErr = OK\<rparr>"
    "nth_server (MakeClerk 3) (first_server (MakeClerk 3)) 2 = 2"
    by (simp_all add: get_answer_def nth_server_def MakeClerk_def first_server_def)
  ultimately show ?thesis
    using Clerk_Get_correct [of "MakeClerk 3" ?call] by (simp add: MakeClerk_def)
qed

section \<open>A Put takes effect at most once\<close>

text \<open>The successful Puts of a key among the executed requests.\<close>

fun put_args :: "kv_req \<Rightarrow> PutArgs option" where
  "put_args (PutPtr a) = Some a"
| "put_args (PutVal a) = Some a"
| "put_args _ = None"

definition put_done :: "string \<Rightarrow> kv_req \<Rightarrow> kv_rep \<Rightarrow> bool" where
  "put_done k q r \<longleftrightarrow>
     r = PutRep \<lparr>putErr = OK\<rparr> \<and> (case put_args q of None \<Rightarrow> False | Some a \<Rightarrow> putKey a = k)"

text \<open>The version of a key, 0 when it does not exist.\<close>

abbreviation version_of :: "string \<Rightarrow> KVServer \<Rightarrow> Tversion" where
  "version_of k kv \<equiv> stVersion (kv_abs kv k)"

lemma put_version_step:
  assumes "put_op a kv = Some (kv', r)" "kv_good kv"
  shows "version_of k kv' = version_of k kv + (if r = PutRep \<lparr>putErr = OK\<rparr> \<and> putKey a = k then 1 else 0)"
    and "r = PutRep \<lparr>putErr = OK\<rparr> \<longleftrightarrow> version_of (putKey a) kv = putVersion a"
  using assms
  by (auto simp: put_op_def kv_abs_def KvModel_Init_def kv_good_def split: option.splits if_splits)

lemma version_step:
  assumes "DoOp q kv = Some (kv', r)" "kv_good kv"
  shows "version_of k kv' = version_of k kv + (if put_done k q r then 1 else 0)"
    and "put_args q = Some a \<Longrightarrow> r = PutRep \<lparr>putErr = OK\<rparr> \<longleftrightarrow> version_of (putKey a) kv = putVersion a"
  using assms put_version_step
  by (cases q; force simp: put_done_def get_op_def Let_def)+

lemma version_steps:
  assumes "kv_good kv" "\<forall>q \<in> set qs. kv_valid q" "apply_reqs kv_sm qs kv = Some (kv', rs)"
  shows "length rs = length qs \<and> kv_good kv' \<and>
    version_of k kv' = version_of k kv + of_nat (length (filter (\<lambda>(q, r). put_done k q r) (zip qs rs)))"
  using assms
proof (induction qs arbitrary: kv rs)
  case (Cons q qs)
  from Cons.prems(3) obtain kv1 r rs' where st: "DoOp q kv = Some (kv1, r)"
    and rest: "apply_reqs kv_sm qs kv1 = Some (kv', rs')" and rs: "rs = r # rs'"
    by (auto simp: bind_Some_iff kv_sm_def)
  have "kv_good kv1"
    using kvsm.DoOp_good [of kv q] Cons.prems st by (simp add: kv_sm_def)
  with Cons.IH [OF _ _ rest] Cons.prems(2) version_step(1) [OF st Cons.prems(1), of k]
  show ?case by (simp add: rs)
qed simp

lemma apply_reqs_nth:
  assumes "apply_reqs sm qs s = Some (s', rs)" "j < length qs"
  shows "\<exists>s1 s2. apply_reqs sm (take j qs) s = Some (s1, take j rs) \<and> smDoOp sm (qs ! j) s1 = Some (s2, rs ! j) \<and>
    apply_reqs sm (drop (Suc j) qs) s2 = Some (s', drop (Suc j) rs)"
  using assms
proof (induction qs arbitrary: s rs j)
  case (Cons q qs)
  from Cons.prems(1) obtain s1 v ws where st: "smDoOp sm q s = Some (s1, v)"
    and rest: "apply_reqs sm qs s1 = Some (s', ws)" and rs: "rs = v # ws"
    by (auto simp: bind_Some_iff)
  show ?case
  proof (cases j)
    case (Suc i)
    from Cons.IH [OF rest, of i] Cons.prems(2) Suc show ?thesis by (auto simp: st rs)
  qed (use st rest rs in simp)
qed simp

lemma word64_nonzero: "0 < n \<Longrightarrow> n < 2 ^ 64 \<Longrightarrow> of_nat n \<noteq> (0 :: 64 word)"
  by (simp add: word_of_nat_eq_0_iff nat_dvd_not_less)

text \<open>Two executions of the same \<^verbatim>\<open>Put\<close> cannot both succeed while fewer than \<open>2 ^ 64\<close> requests are
  executed: the first raises the version, and the version does not come back before it wraps around.\<close>

lemma put_not_twice:
  assumes good: "kv_good kv" and vals: "\<forall>q \<in> set qs. kv_valid q"
    and run: "apply_reqs kv_sm qs kv = Some (kv', rs)"
    and few: "length qs < 2 ^ 64" and jk: "j < k" "k < length qs"
    and puts: "put_args (qs ! j) = Some a" "put_args (qs ! k) = Some a"
    and ok: "rs ! j = PutRep \<lparr>putErr = OK\<rparr>"
  shows "rs ! k \<noteq> PutRep \<lparr>putErr = OK\<rparr>"
proof
  assume ok': "rs ! k = PutRep \<lparr>putErr = OK\<rparr>"
  let ?key = "putKey a"
  have j: "j < length qs" using jk by simp
  from apply_reqs_nth [OF run j] obtain s1 s2 where
    s1: "apply_reqs kv_sm (take j qs) kv = Some (s1, take j rs)" and s2: "DoOp (qs ! j) s1 = Some (s2, rs ! j)"
    and rest: "apply_reqs kv_sm (drop (Suc j) qs) s2 = Some (kv', drop (Suc j) rs)"
    by (auto simp: kv_sm_def)
  have sub: "\<forall>q \<in> set (take n qs'). kv_valid q" if "set qs' \<subseteq> set qs" for n and qs' :: "kv_req list"
    using vals that set_take_subset [of n qs'] by blast
  have good1: "kv_good s1" using version_steps [OF good sub [OF subset_refl] s1] by simp
  have "version_of ?key s1 = putVersion a" using version_step(2) [OF s2 good1 puts(1)] ok by simp
  moreover have "put_done ?key (qs ! j) (rs ! j)" by (simp add: put_done_def puts ok)
  ultimately have v2: "version_of ?key s2 = putVersion a + 1"
    using version_step(1) [OF s2 good1, of ?key] by simp
  have good2: "kv_good s2"
    using kvsm.DoOp_good [OF good1, of "qs ! j"] s2 vals j by (simp add: kv_sm_def)
  let ?qs = "drop (Suc j) qs" and ?rs = "drop (Suc j) rs" and ?i = "k - Suc j"
  have i: "?i < length ?qs" and idx: "?qs ! ?i = qs ! k" "?rs ! ?i = rs ! k"
    using jk version_steps [OF good vals run] by simp_all
  from apply_reqs_nth [OF rest i] obtain s3 s4 where
    s3: "apply_reqs kv_sm (take ?i ?qs) s2 = Some (s3, take ?i ?rs)" and s4: "DoOp (qs ! k) s3 = Some (s4, rs ! k)"
    using idx by (auto simp: kv_sm_def)
  let ?c = "length (filter (\<lambda>(q, r). put_done ?key q r) (zip (take ?i ?qs) (take ?i ?rs)))"
  note steps = version_steps [OF good2 sub [OF set_drop_subset] s3, of ?key]
  have "version_of ?key s3 = putVersion a" using version_step(2) [OF s4 _ puts(2)] steps ok' by simp
  then have "of_nat (Suc ?c) = (0 :: 64 word)" using steps v2 by (simp add: algebra_simps)
  moreover have "?c \<le> ?i"
    by (rule order_trans [OF length_filter_le]) simp
  then have "Suc ?c < 2 ^ 64" using few jk by linarith
  ultimately show False using word64_nonzero [of "Suc ?c"] by (meson zero_less_Suc)
qed

section \<open>What the result of a Put means\<close>

text \<open>C25. What \<^verbatim>\<open>Clerk.Put\<close> returns tells how often the Put took effect. The service executes requests of
  all clients in some order (\<open>qs\<close>, with replies \<open>rs\<close>); the executions of this call are the positions
  \<open>X\<close>, at most one per attempt made (\<open>src\<close>), whether or not the clerk saw the reply; the last attempt
  \<open>n\<close> was answered with the reply of its execution. Then \<^verbatim>\<open>OK\<close> means exactly once, \<^verbatim>\<open>ErrVersion\<close>
  means never, and in every case it was at most once.\<close>

theorem Clerk_Put_exactly_once:
  assumes clerk: "clerk_wf ck" "\<forall>j < n. put_answer call ck j = None" "put_answer call ck n = Some e"
    and service: "kv_good kv" "\<forall>q \<in> set qs. kv_valid q" "apply_reqs kv_sm qs kv = Some (kv', rs)"
      "length qs < 2 ^ 64"
    and execs: "\<forall>j \<in> X. j < length qs \<and> put_args (qs ! j) = Some a \<and> src j \<le> n" "inj_on src X"
    and last: "p \<in> X" "src p = n" "rs ! p = PutRep \<lparr>putErr = e\<rparr>"
  shows "\<exists>res. Clerk_Put call ck = Some (Returned (ck\<lparr>lastLeader := nth_server ck (first_server ck) n\<rparr>, res)) \<and>
    (res = OK \<longrightarrow> {j \<in> X. rs ! j = PutRep \<lparr>putErr = OK\<rparr>} = {p}) \<and>
    (res = ErrVersion \<longrightarrow> {j \<in> X. rs ! j = PutRep \<lparr>putErr = OK\<rparr>} = {}) \<and>
    (\<forall>i \<in> X. \<forall>j \<in> X. rs ! i = PutRep \<lparr>putErr = OK\<rparr> \<longrightarrow> rs ! j = PutRep \<lparr>putErr = OK\<rparr> \<longrightarrow> i = j)"
proof -
  let ?done = "\<lambda>j. rs ! j = PutRep \<lparr>putErr = OK\<rparr>"
  let ?res = "if 0 < n \<and> e = ErrVersion then ErrMaybe else e"
  have once: "i = j" if "i \<in> X" "j \<in> X" "?done i" "?done j" for i j
  proof (rule ccontr)
    assume "i \<noteq> j"
    then consider "i < j" | "j < i" by linarith
    then show False
    proof cases
      case 1
      with put_not_twice [OF service(1-4), of i j a] execs(1) that show False by auto
    next
      case 2
      with put_not_twice [OF service(1-4), of j i a] execs(1) that show False by auto
    qed
  qed
  have "{j \<in> X. ?done j} = {p}" if "?res = OK"
  proof -
    have "?done p" using that last(3) by (auto split: if_splits)
    with once last(1) show ?thesis by blast
  qed
  moreover have "{j \<in> X. ?done j} = {}" if "?res = ErrVersion"
  proof -
    have "n = 0" "e = ErrVersion" using that by (auto split: if_splits)
    then have "src j = src p" if "j \<in> X" for j using execs(1) last(2) that by auto
    then have "X \<subseteq> {p}" using execs(2) last(1) by (auto dest: inj_onD)
    with last(3) \<open>e = ErrVersion\<close> show ?thesis by auto
  qed
  ultimately show ?thesis using Clerk_Put_answered [OF clerk] once by blast
qed

theorem Clerk_Put_exactly_once_witness:
  "Clerk_Put (\<lambda>n i. if n = 1 then Some \<lparr>putErr = ErrVersion\<rparr> else None) (MakeClerk 3) =
     Some (Returned (\<lparr>nservers = 3, lastLeader = 1\<rparr>, ErrMaybe)) \<and>
   (\<exists>kv' rs. apply_reqs kv_sm (replicate 2 (PutVal \<lparr>putKey = ''x'', putValue = ''a'', putVersion = 0\<rparr>))
       \<lparr>kvMe = 0, kvDead = 0, KeyValue = Some Map.empty\<rparr> = Some (kv', rs) \<and>
     rs ! 0 = PutRep \<lparr>putErr = OK\<rparr> \<and> rs ! 1 = PutRep \<lparr>putErr = ErrVersion\<rparr>)"
proof -
  let ?call = "\<lambda>(n::nat) (i::int). if n = 1 then Some \<lparr>putErr = ErrVersion\<rparr> else None"
  let ?a = "\<lparr>putKey = ''x'', putValue = ''a'', putVersion = 0\<rparr>"
  let ?qs = "replicate 2 (PutVal ?a)"
  let ?rs = "[PutRep \<lparr>putErr = OK\<rparr>, PutRep \<lparr>putErr = ErrVersion\<rparr>]"
  let ?kv = "\<lparr>kvMe = 0, kvDead = 0, KeyValue = Some Map.empty\<rparr>"
  have "\<exists>kv'. apply_reqs kv_sm ?qs ?kv = Some (kv', ?rs)"
    by (simp add: kv_sm_def put_op_def numeral_2_eq_2)
  then obtain kv' where run: "apply_reqs kv_sm ?qs ?kv = Some (kv', ?rs)" by blast
  have clerk: "clerk_wf (MakeClerk 3)" "\<forall>j < 1. put_answer ?call (MakeClerk 3) j = None"
    "put_answer ?call (MakeClerk 3) 1 = Some ErrVersion" "kv_good ?kv"
    by (auto simp: clerk_wf_def MakeClerk_def put_answer_def kv_good_def)
  have "\<exists>res. Clerk_Put ?call (MakeClerk 3) =
      Some (Returned ((MakeClerk 3)\<lparr>lastLeader := nth_server (MakeClerk 3) (first_server (MakeClerk 3)) 1\<rparr>, res)) \<and>
    (\<forall>i \<in> {0, 1}. \<forall>j \<in> {0, 1}. ?rs ! i = PutRep \<lparr>putErr = OK\<rparr> \<longrightarrow> ?rs ! j = PutRep \<lparr>putErr = OK\<rparr> \<longrightarrow> i = j)"
    using Clerk_Put_exactly_once [OF clerk(1-4) _ run, of "{0, 1}" ?a "\<lambda>j. j" 1]
    by (auto simp: nth_Cons')
  then obtain res where res: "Clerk_Put ?call (MakeClerk 3) = Some (Returned (\<lparr>nservers = 3, lastLeader = 1\<rparr>, res))"
    by (auto simp: MakeClerk_def nth_server_def first_server_def)
  moreover have "res = ErrMaybe"
    using Clerk_Put_answered [OF clerk(1-3)] res by (simp add: MakeClerk_def)
  ultimately show ?thesis using run by auto
qed

end
