(* ===== verification/RSM_Counter.thy ===== *)
theory RSM_Counter
  imports RSM_Recovery
begin

text \<open>
  \<^verbatim>\<open>lec-2025/src/kvraft1/rsm/server.go\<close>: the counter that the tests replicate, a second server that
  keeps the contract of a state machine.
\<close>

datatype rsm_req = Inc | Null | Dec

datatype rsm_rep = IncRep int | NullRep

record rsmSrv =
  srvMe :: int
  counter :: int

fun rsmSrv_DoOp :: "rsm_req \<Rightarrow> rsmSrv \<Rightarrow> (rsmSrv \<times> rsm_rep) option" where
  "rsmSrv_DoOp Inc rs = (let rs1 = rs\<lparr>counter := counter rs + 1\<rparr> in Some (rs1, IncRep (counter rs1)))"
| "rsmSrv_DoOp Null rs = Some (rs, NullRep)"
| "rsmSrv_DoOp Dec rs = None"

datatype counter_item = GobCounter int | GobJunk

definition rsmSrv_Snapshot :: "rsmSrv \<Rightarrow> counter_item list" where
  "rsmSrv_Snapshot rs = [GobCounter (counter rs)]"

fun rsmSrv_Restore :: "counter_item list \<Rightarrow> rsmSrv \<Rightarrow> rsmSrv option" where
  "rsmSrv_Restore (GobCounter n # r) rs = Some (rs\<lparr>counter := n\<rparr>)"
| "rsmSrv_Restore _ rs = None"

definition makeRsmSrv ::
  "(counter_item list \<Rightarrow> int) \<Rightarrow> int \<Rightarrow> int \<Rightarrow> (rsm_req Op raft_item, counter_item) Persister \<Rightarrow> int \<Rightarrow>
   (rsm_req, rsm_rep, counter_item, rsmSrv) RSM option" where
  "makeRsmSrv nsnap ends srv ps maxstate =
     MakeRSM nsnap ends srv ps maxstate
       \<lparr>smDoOp = rsmSrv_DoOp, smSnapshot = rsmSrv_Snapshot, smRestore = rsmSrv_Restore\<rparr>
       \<lparr>srvMe = srv, counter = 0\<rparr>"

definition counter_sm :: "(rsm_req, rsm_rep, counter_item, rsmSrv) StateMachine" where
  "counter_sm = \<lparr>smDoOp = rsmSrv_DoOp, smSnapshot = rsmSrv_Snapshot, smRestore = rsmSrv_Restore\<rparr>"

fun counter_decodes :: "counter_item list \<Rightarrow> bool" where
  "counter_decodes (GobCounter n # r) \<longleftrightarrow> True"
| "counter_decodes _ \<longleftrightarrow> False"

interpretation counter: state_machine counter_sm "\<lambda>rs. True" "\<lambda>q. q \<noteq> Dec" counter_decodes counter
proof
  fix s :: rsmSrv and q assume "q \<noteq> Dec"
  then show "returns (smDoOp counter_sm q s) (\<lambda>(s', v). True)"
    by (cases q) (simp_all add: counter_sm_def Let_def)
next
  fix s t s' :: rsmSrv and q v
  assume "counter s = counter t" "smDoOp counter_sm q s = Some (s', v)"
  then show "\<exists>t'. smDoOp counter_sm q t = Some (t', v) \<and> counter t' = counter s'"
    by (cases q) (auto simp: counter_sm_def Let_def)
next
  fix d and t :: rsmSrv assume "counter_decodes d"
  then show "d \<noteq> [] \<and> returns (smRestore counter_sm d t) (\<lambda>rs. True)"
    by (cases d rule: counter_decodes.cases) (simp_all add: counter_sm_def)
qed (auto simp: counter_sm_def rsmSrv_Snapshot_def)

end
