(* ===== verification/ShardCfg.thy ===== *)
theory ShardCfg
  imports Prelude "HOL-Library.AList"
begin

text \<open>
  \<^verbatim>\<open>lec-2025/src/shardkv1/shardcfg/shardcfg.go\<close>: configurations, which assign shards to groups. The
  array \<^verbatim>\<open>Shards\<close> is a list of length \<^verbatim>\<open>NShards\<close>, the map \<^verbatim>\<open>Groups\<close> an association list whose order
  is one order in which the code may range over the map. \<open>None\<close> is \<^verbatim>\<open>log.Fatalf\<close>, or a loop that does
  not end.
\<close>

definition NShards :: int where
  "NShards = 12"

section \<open>Keys to shards\<close>

definition Key2Shard :: "string \<Rightarrow> int" where
  "Key2Shard key = uint (fnv32a key) mod NShards"

lemma Key2Shard_bounds: "0 \<le> Key2Shard key" "Key2Shard key < NShards"
  by (simp_all add: Key2Shard_def NShards_def)

section \<open>Configurations\<close>

record ShardConfig =
  Num :: int
  Shards :: "int list"
  Groups :: "(int \<times> string list) list"

definition MakeShardConfig :: ShardConfig where
  "MakeShardConfig = \<lparr>Num = 0, Shards = replicate (nat NShards) 0, Groups = []\<rparr>"

definition cfgCopy :: "ShardConfig \<Rightarrow> ShardConfig" where
  "cfgCopy cfg =
     MakeShardConfig\<lparr>Num := Num cfg, Shards := Shards cfg,
       Groups := fold (\<lambda>(k, srvs) gs. AList.update k (map (\<lambda>i. srvs ! i) [0..<length srvs]) gs) (Groups cfg) []\<rparr>"

definition counts :: "ShardConfig \<Rightarrow> int \<Rightarrow> int" where
  "counts c = fold (\<lambda>g m. m(g := m g + 1)) (Shards c) (\<lambda>g. 0)"

text \<open>The loop over the sorted groups keeps \<open>(mg, mn, lg, ln)\<close>.\<close>

definition analyze :: "ShardConfig \<Rightarrow> int \<times> int \<times> int \<times> int" where
  "analyze c =
     fold (\<lambda>g (mg, mn, lg, ln).
             let (ln', lg') = (if counts c g < ln then (counts c g, g) else (ln, lg));
                 (mn', mg') = (if counts c g > mn then (counts c g, g) else (mn, mg))
             in (mg', mn', lg', ln'))
       (sort (map fst (Groups c))) (-1, -1, -1, 257)"

definition least :: "ShardConfig \<Rightarrow> int" where
  "least c = (let (_, _, lg, _) = analyze c in lg)"

text \<open>The loop that assigns the shards of groups that are gone; \<open>s\<close> runs over the shards.\<close>

definition assign_shard :: "nat \<Rightarrow> ShardConfig \<Rightarrow> ShardConfig" where
  "assign_shard s c =
     (if map_of (Groups c) (Shards c ! s) = None
      then c\<lparr>Shards := (Shards c)[s := least c]\<rparr> else c)"

text \<open>The inner loop that moves the first shard of \<open>mg\<close> to \<open>lg\<close>.\<close>

fun move_first :: "int \<Rightarrow> int \<Rightarrow> int list \<Rightarrow> int list" where
  "move_first mg lg [] = []"
| "move_first mg lg (g # gs) = (if g = mg then lg # gs else g # move_first mg lg gs)"

partial_function (option) rebalance_loop :: "ShardConfig \<Rightarrow> ShardConfig option" where
  "rebalance_loop c =
     (case analyze c of (mg, mn, lg, ln) \<Rightarrow>
        if mn < ln + 2 then Some c
        else rebalance_loop (c\<lparr>Shards := move_first mg lg (Shards c)\<rparr>))"

definition Rebalance :: "ShardConfig \<Rightarrow> ShardConfig option" where
  "Rebalance c =
     (if length (Groups c) < 1 then Some (c\<lparr>Shards := map (\<lambda>g. 0) (Shards c)\<rparr>)
      else rebalance_loop (fold assign_shard [0..<length (Shards c)] c))"

text \<open>The servers of all groups, against which \<^verbatim>\<open>Join\<close> checks a new group.\<close>

fun join_loop :: "(int \<times> string list) list \<Rightarrow> bool \<Rightarrow> ShardConfig \<Rightarrow> (ShardConfig \<times> bool \<times> bool) option" where
  "join_loop [] changed cfg = Some (cfg, changed, True)"
| "join_loop ((gid, srvs) # rest) changed cfg =
     (if map_of (Groups cfg) gid \<noteq> None then Some (cfg, changed, False)
      else if list_ex (\<lambda>(xgid, xsrvs). list_ex (\<lambda>s1. s1 \<in> set srvs) xsrvs) (Groups cfg) then None
      else join_loop rest True (cfg\<lparr>Groups := AList.update gid srvs (Groups cfg)\<rparr>))"

definition Join :: "(int \<times> string list) list \<Rightarrow> ShardConfig \<Rightarrow> (ShardConfig \<times> bool) option" where
  "Join servers cfg =
     do {
       (cfg1, changed, fresh) \<leftarrow> join_loop servers False cfg;
       if \<not> fresh then Some (cfg1, False)
       else if \<not> changed then None
       else Some (cfg1\<lparr>Num := Num cfg1 + 1\<rparr>, True)
     }"

fun leave_loop :: "int list \<Rightarrow> bool \<Rightarrow> ShardConfig \<Rightarrow> ShardConfig \<times> bool \<times> bool" where
  "leave_loop [] changed cfg = (cfg, changed, True)"
| "leave_loop (gid # rest) changed cfg =
     (if map_of (Groups cfg) gid = None then (cfg, changed, False)
      else leave_loop rest True (cfg\<lparr>Groups := AList.delete gid (Groups cfg)\<rparr>))"

definition Leave :: "int list \<Rightarrow> ShardConfig \<Rightarrow> (ShardConfig \<times> bool) option" where
  "Leave gids cfg =
     (let (cfg1, changed, present) = leave_loop gids False cfg in
      if \<not> present then Some (cfg1, False)
      else if \<not> changed then None
      else Some (cfg1\<lparr>Num := Num cfg1 + 1\<rparr>, True))"

definition JoinBalance :: "(int \<times> string list) list \<Rightarrow> ShardConfig \<Rightarrow> (ShardConfig \<times> bool) option" where
  "JoinBalance servers cfg =
     do { (cfg1, ok) \<leftarrow> Join servers cfg;
          if \<not> ok then Some (cfg1, False) else do { cfg2 \<leftarrow> Rebalance cfg1; Some (cfg2, True) } }"

definition LeaveBalance :: "int list \<Rightarrow> ShardConfig \<Rightarrow> (ShardConfig \<times> bool) option" where
  "LeaveBalance gids cfg =
     do { (cfg1, ok) \<leftarrow> Leave gids cfg;
          if \<not> ok then Some (cfg1, False) else do { cfg2 \<leftarrow> Rebalance cfg1; Some (cfg2, True) } }"

definition GidServers :: "int \<Rightarrow> ShardConfig \<Rightarrow> (int \<times> string list \<times> bool) option" where
  "GidServers sh cfg =
     do { gid \<leftarrow> go_index (Shards cfg) sh;
          case map_of (Groups cfg) gid of
            None \<Rightarrow> Some (gid, [], False)
          | Some srvs \<Rightarrow> Some (gid, srvs, True) }"

definition IsMember :: "int \<Rightarrow> ShardConfig \<Rightarrow> bool" where
  "IsMember gid cfg \<longleftrightarrow> list_ex (\<lambda>g. g = gid) (Shards cfg)"

text \<open>\<^verbatim>\<open>CheckConfig\<close>: whether it gets to its end without \<^verbatim>\<open>fatalf\<close>.\<close>

definition CheckConfig :: "int list \<Rightarrow> ShardConfig \<Rightarrow> bool" where
  "CheckConfig groups cfg \<longleftrightarrow>
     length (Groups cfg) = length groups \<and>
     list_all (\<lambda>g. map_of (Groups cfg) g \<noteq> None) groups \<and>
     (0 < length groups \<longrightarrow> list_all (\<lambda>g. map_of (Groups cfg) g \<noteq> None) (Shards cfg)) \<and>
     (let (mn, mx) = fold (\<lambda>(g, _) (mn, mx). (min mn (counts cfg g), max mx (counts cfg g))) (Groups cfg) (257, 0)
      in mx \<le> mn + 1)"

section \<open>Counting\<close>

lemma counts_eq: "counts c g = int (count_list (Shards c) g)"
proof -
  have "fold (\<lambda>g m. m(g := m g + 1)) xs m0 g = m0 g + int (count_list xs g)" for xs and m0 :: "int \<Rightarrow> int"
    by (induction xs arbitrary: m0) auto
  then show ?thesis by (simp add: counts_def)
qed

abbreviation gids :: "ShardConfig \<Rightarrow> int set" where
  "gids c \<equiv> fst ` set (Groups c)"

lemma map_of_gids: "map_of (Groups c) g = None \<longleftrightarrow> g \<notin> gids c"
  by (simp add: map_of_eq_None_iff)

definition cfg_wf :: "ShardConfig \<Rightarrow> bool" where
  "cfg_wf c \<longleftrightarrow> length (Shards c) = nat NShards \<and> distinct (map fst (Groups c))"

lemma counts_bounds: "cfg_wf c \<Longrightarrow> 0 \<le> counts c g \<and> counts c g < 257"
  using count_le_length [of "Shards c" g] by (simp add: counts_eq cfg_wf_def NShards_def)

text \<open>One pass over a list, for any way of counting.\<close>

lemma extremes_fold:
  fixes f :: "int \<Rightarrow> int"
  assumes "fold (\<lambda>g (mg, mn, lg, ln).
             let (ln', lg') = (if f g < ln then (f g, g) else (ln, lg));
                 (mn', mg') = (if f g > mn then (f g, g) else (mn, mg))
             in (mg', mn', lg', ln')) gs (mg, mn, lg, ln) = (mg', mn', lg', ln')"
  shows "mn \<le> mn' \<and> (\<forall>g \<in> set gs. f g \<le> mn') \<and> (mg' = mg \<and> mn' = mn \<or> mg' \<in> set gs \<and> mn' = f mg') \<and>
         ln' \<le> ln \<and> (\<forall>g \<in> set gs. ln' \<le> f g) \<and> (lg' = lg \<and> ln' = ln \<or> lg' \<in> set gs \<and> ln' = f lg')"
  using assms
proof (induction gs arbitrary: mg mn lg ln)
  case (Cons g gs)
  let ?mg = "if f g > mn then g else mg" and ?mn = "if f g > mn then f g else mn"
  let ?lg = "if f g < ln then g else lg" and ?ln = "if f g < ln then f g else ln"
  have "fold (\<lambda>g (mg, mn, lg, ln).
             let (ln', lg') = (if f g < ln then (f g, g) else (ln, lg));
                 (mn', mg') = (if f g > mn then (f g, g) else (mn, mg))
             in (mg', mn', lg', ln')) gs (?mg, ?mn, ?lg, ?ln) = (mg', mn', lg', ln')"
    using Cons.prems by (simp split: if_splits)
  from Cons.IH [OF this] show ?case by (auto split: if_splits)
qed simp

lemma analyze_spec:
  assumes "cfg_wf c" "Groups c \<noteq> []" "analyze c = (mg, mn, lg, ln)"
  shows "mg \<in> gids c" "mn = counts c mg" "lg \<in> gids c" "ln = counts c lg"
    "\<And>g. g \<in> gids c \<Longrightarrow> counts c g \<le> mn \<and> ln \<le> counts c g"
proof -
  note ex = extremes_fold [OF assms(3) [unfolded analyze_def]]
  obtain g where g: "g \<in> gids c" using assms(2) by (cases "Groups c") auto
  have "0 \<le> counts c g" "counts c g < 257" using counts_bounds [OF assms(1)] by auto
  with ex g show "mg \<in> gids c" "mn = counts c mg" "lg \<in> gids c" "ln = counts c lg"
    "\<And>g. g \<in> gids c \<Longrightarrow> counts c g \<le> mn \<and> ln \<le> counts c g"
    by fastforce+
qed

lemma least_in: "cfg_wf c \<Longrightarrow> Groups c \<noteq> [] \<Longrightarrow> least c \<in> gids c"
  using analyze_spec(3) by (auto simp: least_def split: prod.splits)

section \<open>Rebalance\<close>

definition assigned :: "ShardConfig \<Rightarrow> bool" where
  "assigned c \<longleftrightarrow> set (Shards c) \<subseteq> gids c"

definition balanced :: "ShardConfig \<Rightarrow> bool" where
  "balanced c \<longleftrightarrow> (\<forall>g \<in> gids c. \<forall>h \<in> gids c. counts c g \<le> counts c h + 1)"

definition same_groups :: "ShardConfig \<Rightarrow> ShardConfig \<Rightarrow> bool" where
  "same_groups c c' \<longleftrightarrow> Num c' = Num c \<and> Groups c' = Groups c \<and> length (Shards c') = length (Shards c)"

lemma assign_shard_spec:
  assumes "cfg_wf c" "Groups c \<noteq> []" "s < length (Shards c)"
  shows "same_groups c (assign_shard s c)" "Shards (assign_shard s c) ! s \<in> gids c"
    "\<And>t. t \<noteq> s \<Longrightarrow> Shards (assign_shard s c) ! t = Shards c ! t"
    "Shards c ! s \<in> gids c \<Longrightarrow> assign_shard s c = c"
  using assms least_in [OF assms(1,2)]
  by (auto simp: assign_shard_def same_groups_def map_of_gids)

lemma assign_loop:
  assumes "cfg_wf c" "Groups c \<noteq> []" "n \<le> length (Shards c)"
  shows "same_groups c (fold assign_shard [0..<n] c) \<and>
    (\<forall>t < n. Shards (fold assign_shard [0..<n] c) ! t \<in> gids c) \<and>
    (\<forall>t. n \<le> t \<or> t < n \<and> Shards c ! t \<in> gids c \<longrightarrow> Shards (fold assign_shard [0..<n] c) ! t = Shards c ! t)"
  using assms(3)
proof (induction n)
  case (Suc n)
  let ?c = "fold assign_shard [0..<n] c"
  have IH: "same_groups c ?c" "\<forall>t < n. Shards ?c ! t \<in> gids c"
    "\<forall>t. n \<le> t \<or> t < n \<and> Shards c ! t \<in> gids c \<longrightarrow> Shards ?c ! t = Shards c ! t"
    using Suc by auto
  have wf: "cfg_wf ?c" "Groups ?c \<noteq> []" "n < length (Shards ?c)" "gids ?c = gids c"
    using IH(1) assms Suc.prems by (auto simp: same_groups_def cfg_wf_def)
  note spec = assign_shard_spec [OF wf(1-3)]
  have fold: "fold assign_shard [0..<Suc n] c = assign_shard n ?c" by simp
  have "same_groups c (assign_shard n ?c)" using IH(1) spec(1) by (auto simp: same_groups_def)
  moreover have "\<forall>t < Suc n. Shards (assign_shard n ?c) ! t \<in> gids c"
    using spec(2,3) IH(2) wf(4) by (auto simp: less_Suc_eq)
  moreover have "Shards (assign_shard n ?c) ! t = Shards c ! t"
    if "Suc n \<le> t \<or> t < Suc n \<and> Shards c ! t \<in> gids c" for t
  proof (cases "t = n")
    case True
    then show ?thesis using that IH(3) spec(4) wf(4) by auto
  next
    case False
    then show ?thesis using that IH(3) spec(3) by auto
  qed
  ultimately show ?case unfolding fold by blast
qed (simp add: same_groups_def)

lemma length_move_first [simp]: "length (move_first mg lg gs) = length gs"
  by (induction mg lg gs rule: move_first.induct) auto

lemma set_move_first: "set (move_first mg lg gs) \<subseteq> insert lg (set gs)"
  by (induction mg lg gs rule: move_first.induct) auto

lemma count_move_first:
  "mg \<in> set gs \<Longrightarrow> mg \<noteq> lg \<Longrightarrow>
   int (count_list (move_first mg lg gs) g) =
     int (count_list gs g) - (if g = mg then 1 else 0) + (if g = lg then 1 else 0)"
  by (induction mg lg gs rule: move_first.induct) auto

text \<open>Moving a shard from the most to the least loaded group lowers the sum of the squares of the
  loads.\<close>

definition load :: "ShardConfig \<Rightarrow> nat" where
  "load c = (\<Sum>g \<in> gids c. count_list (Shards c) g ^ 2)"

lemma square_step: "a \<ge> b + 2 \<Longrightarrow> (a - 1)\<^sup>2 + (b + 1)\<^sup>2 < a\<^sup>2 + (b :: nat)\<^sup>2"
proof -
  assume "a \<ge> b + 2"
  then obtain d where "a = b + 2 + d" using le_Suc_ex by blast
  then show ?thesis by (simp add: power2_eq_square algebra_simps)
qed

lemma load_decreases:
  assumes "mg \<in> gids c" "lg \<in> gids c" "counts c mg \<ge> counts c lg + 2"
  shows "load (c\<lparr>Shards := move_first mg lg (Shards c)\<rparr>) < load c"
proof -
  let ?n = "count_list (Shards c)" and ?n' = "count_list (move_first mg lg (Shards c))"
  have ne: "mg \<noteq> lg" and ge: "?n mg \<ge> ?n lg + 2" using assms(3) by (auto simp: counts_eq)
  have mem: "mg \<in> set (Shards c)" using ge by (metis add_leD2 count_notin not_numeral_le_zero)
  note move = count_move_first [OF mem ne]
  have cnt: "?n' mg = ?n mg - 1" "?n' lg = ?n lg + 1"
    using move [of mg] move [of lg] ne ge by simp_all
  have other: "?n' g = ?n g" if "g \<noteq> mg" "g \<noteq> lg" for g
    using move [of g] that by simp
  have split: "(\<Sum>g \<in> gids c. f g) = f mg + (f lg + (\<Sum>g \<in> gids c - {mg} - {lg}. f g))" for f :: "int \<Rightarrow> nat"
    using assms(1,2) ne by (simp add: sum.remove [of _ mg] sum.remove [of _ lg])
  have "(\<Sum>g \<in> gids c. (?n' g)\<^sup>2) < (\<Sum>g \<in> gids c. (?n g)\<^sup>2)"
    using square_step [OF ge] cnt other by (simp add: split)
  then show ?thesis by (simp add: load_def)
qed

lemma rebalance_loop_spec:
  assumes "cfg_wf c" "Groups c \<noteq> []" "assigned c"
  shows "returns (rebalance_loop c) (\<lambda>c'. same_groups c c' \<and> assigned c' \<and> balanced c')"
  using assms
proof (induction "load c" arbitrary: c rule: less_induct)
  case less
  obtain mg mn lg ln where an: "analyze c = (mg, mn, lg, ln)" by (metis prod_cases4)
  note spec = analyze_spec [OF less.prems(1,2) an]
  show ?case
  proof (cases "mn < ln + 2")
    case True
    have "counts c g \<le> counts c h + 1" if "g \<in> gids c" "h \<in> gids c" for g h
      using spec(5) [OF that(1)] spec(5) [OF that(2)] True by linarith
    then have "balanced c" by (simp add: balanced_def)
    with True an less.prems(3) show ?thesis
      by (subst rebalance_loop.simps) (simp add: same_groups_def)
  next
    case False
    let ?c = "c\<lparr>Shards := move_first mg lg (Shards c)\<rparr>"
    have "load ?c < load c" using load_decreases [OF spec(1,3)] False spec(2,4) by simp
    moreover have "cfg_wf ?c" using less.prems(1) by (simp add: cfg_wf_def)
    moreover have "assigned ?c"
      using less.prems(3) spec(3) set_move_first [of mg lg "Shards c"] by (auto simp: assigned_def)
    ultimately have "returns (rebalance_loop ?c) (\<lambda>c'. same_groups ?c c' \<and> assigned c' \<and> balanced c')"
      using less.hyps less.prems(2) by simp
    moreover have "rebalance_loop c = rebalance_loop ?c"
      using False an by (subst rebalance_loop.simps) simp
    ultimately show ?thesis by (auto simp: same_groups_def elim!: returns_mono)
  qed
qed

lemma Rebalance_spec:
  assumes "cfg_wf c"
  shows "returns (Rebalance c) (\<lambda>c'. same_groups c c' \<and>
    (if Groups c = [] then set (Shards c') = {0} else assigned c' \<and> balanced c'))"
proof (cases "Groups c = []")
  case True
  then show ?thesis
    using assms by (cases "Shards c") (auto simp: Rebalance_def same_groups_def cfg_wf_def NShards_def)
next
  case False
  let ?c = "fold assign_shard [0..<length (Shards c)] c"
  note loop = assign_loop [OF assms False order_refl]
  then have same: "same_groups c ?c" by blast
  then have "assigned ?c" "cfg_wf ?c" "Groups ?c \<noteq> []"
    using loop assms False by (auto simp: assigned_def same_groups_def in_set_conv_nth cfg_wf_def)
  then have "returns (rebalance_loop ?c) (\<lambda>c'. same_groups ?c c' \<and> assigned c' \<and> balanced c')"
    by (intro rebalance_loop_spec)
  with False same show ?thesis
    by (auto simp: Rebalance_def same_groups_def elim!: returns_mono)
qed

section \<open>CheckConfig\<close>

lemma check_extremes:
  fixes f :: "int \<Rightarrow> int"
  assumes "fold (\<lambda>(g, _) (mn, mx). (min mn (f g), max mx (f g))) gs (mn0, mx0) = (mn, mx)"
  shows "(mn = mn0 \<or> (\<exists>g \<in> fst ` set gs. mn = f g)) \<and> (mx = mx0 \<or> (\<exists>g \<in> fst ` set gs. mx = f g)) \<and>
         (\<forall>g \<in> fst ` set gs. mn \<le> f g \<and> f g \<le> mx) \<and> mn \<le> mn0 \<and> mx0 \<le> mx"
  using assms
proof (induction gs arbitrary: mn0 mx0)
  case (Cons p gs)
  obtain g x where p: "p = (g, x)" by fastforce
  from Cons.IH [of "min mn0 (f g)" "max mx0 (f g)"] Cons.prems show ?case
    by (auto simp: p min_def max_def split: if_splits)
qed simp

lemma CheckConfig_ok:
  assumes "cfg_wf c" "Groups c = [] \<or> assigned c \<and> balanced c" "distinct groups" "set groups = gids c"
  shows "CheckConfig groups c"
proof -
  have len: "length (Groups c) = length groups"
    using assms(1,3,4) distinct_card [of groups] distinct_card [of "map fst (Groups c)"]
    by (simp add: cfg_wf_def)
  obtain mn mx where f: "fold (\<lambda>(g, _) (mn, mx). (min mn (counts c g), max mx (counts c g))) (Groups c) (257, 0) = (mn, mx)"
    by fastforce
  note ex = check_extremes [OF f]
  have "mx \<le> mn + 1"
  proof (cases "Groups c = []")
    case False
    then obtain g where g: "g \<in> gids c" by (cases "Groups c") auto
    have "mn \<le> counts c g" "counts c g < 257" using ex g counts_bounds [OF assms(1)] by blast+
    then obtain h where h: "h \<in> gids c" "mn = counts c h" using ex by auto
    have "mx = 0 \<or> (\<exists>g \<in> gids c. mx = counts c g)" "0 \<le> counts c h"
      using ex counts_bounds [OF assms(1)] by blast+
    moreover have "counts c g \<le> counts c h + 1" if "g \<in> gids c" for g
      using assms(2) False that h(1) by (auto simp: balanced_def)
    ultimately show ?thesis using h(2) by auto
  qed (use f in simp)
  with len f assms show ?thesis
    by (auto simp: CheckConfig_def list_all_iff map_of_gids assigned_def)
qed

section \<open>Join and Leave\<close>

lemma gids_update: "fst ` set (AList.update k v xs) = insert k (fst ` set xs)"
  by (simp add: dom_update)

lemma join_loop_spec:
  assumes "join_loop servers changed cfg = Some (cfg', changed', True)" "cfg_wf cfg"
  shows "cfg_wf cfg' \<and> Num cfg' = Num cfg \<and> Shards cfg' = Shards cfg \<and>
    gids cfg' = gids cfg \<union> fst ` set servers \<and> gids cfg \<inter> fst ` set servers = {}"
  using assms
proof (induction servers changed cfg rule: join_loop.induct)
  case (2 gid srvs rest changed cfg)
  let ?cfg = "cfg\<lparr>Groups := AList.update gid srvs (Groups cfg)\<rparr>"
  have cond: "map_of (Groups cfg) gid = None"
    "\<not> list_ex (\<lambda>(xgid, xsrvs). list_ex (\<lambda>s1. s1 \<in> set srvs) xsrvs) (Groups cfg)"
    and rest: "join_loop rest True ?cfg = Some (cfg', changed', True)"
    using "2.prems"(1) by (auto split: if_splits)
  have "cfg_wf ?cfg" using "2.prems"(2) by (simp add: cfg_wf_def distinct_update)
  from "2.IH" [OF _ cond(2) rest this] cond(1) show ?case
    by (auto simp: gids_update map_of_gids)
qed simp

lemma gids_delete: "fst ` set (AList.delete k xs) = fst ` set xs - {k}"
  by (simp add: delete_keys filter_id_conv flip: image_set) (auto simp: AList.delete_eq)

lemma leave_loop_spec:
  assumes "leave_loop gs changed cfg = (cfg', changed', True)" "cfg_wf cfg"
  shows "cfg_wf cfg' \<and> Num cfg' = Num cfg \<and> Shards cfg' = Shards cfg \<and>
    gids cfg' = gids cfg - set gs \<and> set gs \<subseteq> gids cfg"
  using assms
proof (induction gs changed cfg rule: leave_loop.induct)
  case (2 gid rest changed cfg)
  let ?cfg = "cfg\<lparr>Groups := AList.delete gid (Groups cfg)\<rparr>"
  have cond: "map_of (Groups cfg) gid \<noteq> None" and rest: "leave_loop rest True ?cfg = (cfg', changed', True)"
    using "2.prems"(1) by (auto split: if_splits)
  have "cfg_wf ?cfg" using "2.prems"(2) by (simp add: cfg_wf_def distinct_delete)
  from "2.IH" [OF cond rest this] cond show ?case
    by (auto simp: gids_delete map_of_gids)
qed simp

lemma JoinBalance_cases:
  assumes "JoinBalance servers cfg = Some (cfg', True)" "cfg_wf cfg"
  obtains c1 where "cfg_wf c1" "Num c1 = Num cfg" "gids c1 = gids cfg \<union> fst ` set servers"
    "Rebalance (c1\<lparr>Num := Num c1 + 1\<rparr>) = Some cfg'"
proof -
  obtain c1 where "join_loop servers False cfg = Some (c1, True, True)"
    "Rebalance (c1\<lparr>Num := Num c1 + 1\<rparr>) = Some cfg'"
    using assms(1) by (auto simp: JoinBalance_def Join_def bind_eq_Some_conv split: if_splits)
  with join_loop_spec [OF this(1) assms(2)] that show ?thesis by blast
qed

lemma LeaveBalance_cases:
  assumes "LeaveBalance gs cfg = Some (cfg', True)" "cfg_wf cfg"
  obtains c1 where "cfg_wf c1" "Num c1 = Num cfg" "gids c1 = gids cfg - set gs"
    "Rebalance (c1\<lparr>Num := Num c1 + 1\<rparr>) = Some cfg'"
proof -
  obtain c1 where "leave_loop gs False cfg = (c1, True, True)"
    "Rebalance (c1\<lparr>Num := Num c1 + 1\<rparr>) = Some cfg'"
    using assms(1) by (auto simp: LeaveBalance_def Leave_def bind_eq_Some_conv split: if_splits prod.splits)
  with leave_loop_spec [OF this(1) assms(2)] that show ?thesis by blast
qed

section \<open>Properties\<close>

text \<open>C12. \<^verbatim>\<open>Rebalance\<close> ends on every configuration: it keeps the groups and the number, gives every shard
  to an existing group (to group 0 when there is none), leaves the loads of any two groups at most one
  apart, and does not touch a configuration that already is assigned and balanced.\<close>

theorem Rebalance_correct:
  assumes "cfg_wf c"
  shows "returns (Rebalance c) (\<lambda>c'. Num c' = Num c \<and> Groups c' = Groups c \<and> length (Shards c') = length (Shards c) \<and>
    (if Groups c = [] then set (Shards c') = {0}
     else (\<forall>g \<in> set (Shards c'). g \<in> gids c) \<and>
          (\<forall>g \<in> gids c. \<forall>h \<in> gids c. counts c' g \<le> counts c' h + 1)) \<and>
    (Groups c \<noteq> [] \<and> assigned c \<and> balanced c \<longrightarrow> c' = c))"
proof -
  have "Rebalance c = Some c" if "Groups c \<noteq> []" "assigned c" "balanced c"
  proof -
    have "fold assign_shard ns c = c" if "set ns \<subseteq> {..<length (Shards c)}" for ns
      using that
    proof (induction ns)
      case (Cons s ns)
      then have "assign_shard s c = c"
        using assign_shard_spec(4) [OF assms \<open>Groups c \<noteq> []\<close>] \<open>assigned c\<close> by (auto simp: assigned_def subset_iff)
      with Cons show ?case by simp
    qed simp
    then have "fold assign_shard [0..<length (Shards c)] c = c" by (simp add: subset_iff)
    moreover obtain mg mn lg ln where an: "analyze c = (mg, mn, lg, ln)" by (metis prod_cases4)
    moreover have "mn < ln + 2"
      using analyze_spec [OF assms that(1) an] that(3) by (fastforce simp: balanced_def)
    ultimately show ?thesis
      using that(1) by (simp add: Rebalance_def) (simp add: rebalance_loop.simps)
  qed
  then have stable: "c' = c" if "Rebalance c = Some c'" "Groups c \<noteq> []" "assigned c" "balanced c" for c'
    using that by simp
  obtain c' where c': "Rebalance c = Some c'" "same_groups c c'"
    "if Groups c = [] then set (Shards c') = {0} else assigned c' \<and> balanced c'"
    using Rebalance_spec [OF assms] by (auto elim!: returnsE)
  have "(\<forall>g \<in> set (Shards c'). g \<in> gids c) \<and> (\<forall>g \<in> gids c. \<forall>h \<in> gids c. counts c' g \<le> counts c' h + 1)"
    if "Groups c \<noteq> []"
    using c'(2,3) that unfolding same_groups_def assigned_def balanced_def by auto
  with c' stable [OF c'(1)] show ?thesis
    by (simp add: same_groups_def split: if_splits)
qed

definition sample_config :: ShardConfig where
  "sample_config = \<lparr>Num = 1, Shards = replicate 12 1, Groups = [(1, [''a'']), (2, [''b'']), (3, [''c''])]\<rparr>"

theorem Rebalance_correct_witness:
  "\<exists>c'. Rebalance sample_config = Some c' \<and> counts c' 1 \<le> counts c' 3 + 1 \<and> counts c' 3 \<le> counts c' 1 + 1"
proof -
  have "cfg_wf sample_config" by (simp add: sample_config_def cfg_wf_def NShards_def)
  from Rebalance_correct [OF this] show ?thesis
    by (auto simp: sample_config_def elim!: returnsE)
qed

text \<open>C29. A successful \<^verbatim>\<open>JoinBalance\<close> or \<^verbatim>\<open>LeaveBalance\<close> gives the next configuration: the number is one
  higher, exactly the named groups are added or gone, and the result passes the testers'
  \<^verbatim>\<open>CheckConfig\<close> against the list of its groups, in any order.\<close>

theorem reconfigure_checks:
  assumes "cfg_wf cfg"
    and "JoinBalance servers cfg = Some (cfg', True) \<and> G = gids cfg \<union> fst ` set servers \<or>
         LeaveBalance gs cfg = Some (cfg', True) \<and> G = gids cfg - set gs"
    and "distinct groups" "set groups = G"
  shows "cfg_wf cfg' \<and> Num cfg' = Num cfg + 1 \<and> gids cfg' = G \<and> CheckConfig groups cfg'"
proof -
  obtain c1 where c1: "cfg_wf c1" "Num c1 = Num cfg" "gids c1 = G"
    and reb: "Rebalance (c1\<lparr>Num := Num c1 + 1\<rparr>) = Some cfg'"
    using assms(2) JoinBalance_cases [OF _ assms(1)] LeaveBalance_cases [OF _ assms(1)] by metis
  let ?c = "c1\<lparr>Num := Num c1 + 1\<rparr>"
  have wf: "cfg_wf ?c" using c1(1) by (simp add: cfg_wf_def)
  have "same_groups ?c cfg' \<and> (if Groups ?c = [] then set (Shards cfg') = {0} else assigned cfg' \<and> balanced cfg')"
    using Rebalance_spec [OF wf] reb by simp
  then have "cfg_wf cfg'" "Num cfg' = Num cfg + 1" "gids cfg' = G" "Groups cfg' = [] \<or> assigned cfg' \<and> balanced cfg'"
    using wf c1 by (auto simp: same_groups_def cfg_wf_def)
  then show ?thesis using CheckConfig_ok [of cfg' groups] assms(3,4) by auto
qed

theorem reconfigure_checks_witness:
  "\<exists>cfg'. LeaveBalance [2] sample_config = Some (cfg', True) \<and> CheckConfig [3, 1] cfg' \<and> Num cfg' = 2"
proof -
  have wf: "cfg_wf sample_config" by (simp add: sample_config_def cfg_wf_def NShards_def)
  let ?c = "\<lparr>Num = 2, Shards = replicate 12 1, Groups = [(1, [''a'']), (3, [''c''])]\<rparr>"
  have "Leave [2] sample_config = Some (?c, True)"
    by (simp add: Leave_def sample_config_def AList.delete_eq)
  moreover have "cfg_wf ?c" by (simp add: cfg_wf_def NShards_def)
  then obtain c' where "Rebalance ?c = Some c'" using Rebalance_spec [of ?c] by (auto elim!: returnsE)
  ultimately have "LeaveBalance [2] sample_config = Some (c', True)" by (simp add: LeaveBalance_def)
  moreover have "gids sample_config - set [2] = {1, 3}" by (auto simp: sample_config_def)
  ultimately show ?thesis
    using reconfigure_checks [OF wf, of "[]" c' "{1, 3}" "[2]" "[3, 1]"]
    by (simp add: insert_commute) (simp add: sample_config_def)
qed



end
