(* ===== verification/ShardGrp.thy ===== *)
theory ShardGrp
  imports RSM_Recovery ShardCfg
begin

text \<open>
  \<^verbatim>\<open>lec-2025/src/shardkv1/shardgrp/server.go\<close> with \<^verbatim>\<open>shardrpc/shardrpc.go\<close>: the server of a shard group, a
  key/value state machine that also freezes, installs and deletes shards. \<^verbatim>\<open>StartServerShardGrp\<close>
  makes the four maps together, so they are one optional record, \<open>None\<close> while they are nil;
  \<^verbatim>\<open>log.Fatalf\<close> and a write to a nil map are \<open>None\<close> results.
\<close>

section \<open>Requests and replies\<close>

text \<open>The bytes in \<^verbatim>\<open>State\<close>: the JSON of a map from keys to entries, or (like the zero value nil) something
  that does not decode. Encoding such a map does not fail, and decoding gives it back: keys and values
  are valid UTF-8.\<close>

datatype shard_bytes = JsonMap "string \<rightharpoonup> ValueEntry" | NoJson

record FreezeShardArgs =
  fzShard :: int
  fzNum :: int

record FreezeShardReply =
  fzState :: shard_bytes
  fzReplyNum :: int
  fzErr :: Err

record InstallShardArgs =
  isShard :: int
  isState :: shard_bytes
  isNum :: int

record InstallShardReply =
  isErr :: Err

record DeleteShardArgs =
  dsShard :: int
  dsNum :: int

record DeleteShardReply =
  dsErr :: Err

datatype grp_req =
    FreezePtr FreezeShardArgs | FreezeVal FreezeShardArgs
  | InstallPtr InstallShardArgs | InstallVal InstallShardArgs
  | DeletePtr DeleteShardArgs | DeleteVal DeleteShardArgs
  | GGetPtr GetArgs | GPutPtr PutArgs | GGetVal GetArgs | GPutVal PutArgs
  | GOther

datatype grp_rep =
    FreezeRep FreezeShardReply | InstallRep InstallShardReply | DeleteRep DeleteShardReply
  | GGetRep GetReply | GPutRep PutReply

section \<open>The server\<close>

record shard_maps =
  grpKeyValue :: "string \<rightharpoonup> ValueEntry"
  frozenShards :: "int \<rightharpoonup> bool"
  maxShardNum :: "int \<rightharpoonup> int"
  migratedShards :: "int \<rightharpoonup> bool"

record GrpServer =
  grpMe :: int
  grpDead :: int
  grpGid :: int
  grpMaps :: "shard_maps option"

definition empty_maps :: shard_maps where
  "empty_maps = \<lparr>grpKeyValue = Map.empty, frozenShards = Map.empty, maxShardNum = Map.empty,
     migratedShards = Map.empty\<rparr>"

text \<open>\<^verbatim>\<open>v, ok := m[shard]; ok && v\<close>.\<close>

definition marked :: "(int \<rightharpoonup> bool) \<Rightarrow> int \<Rightarrow> bool" where
  "marked m s \<longleftrightarrow> (case m s of Some b \<Rightarrow> b | None \<Rightarrow> False)"

definition grp_get :: "GetArgs \<Rightarrow> shard_maps \<Rightarrow> GetReply" where
  "grp_get getreq m =
     (let getReply = \<lparr>getValue = [], getVersion = 0, getErr = NoErr\<rparr>;
          shard = Key2Shard (getKey getreq)
      in if marked (migratedShards m) shard then getReply\<lparr>getErr := ErrWrongGroup\<rparr>
         else if marked (frozenShards m) shard then getReply\<lparr>getErr := ErrWrongGroup\<rparr>
         else case grpKeyValue m (getKey getreq) of
                None \<Rightarrow> getReply\<lparr>getErr := ErrNoKey\<rparr>
              | Some entry \<Rightarrow> getReply\<lparr>getValue := Value entry, getVersion := Version entry, getErr := OK\<rparr>)"

definition grp_put :: "PutArgs \<Rightarrow> shard_maps \<Rightarrow> shard_maps \<times> PutReply" where
  "grp_put putreq m =
     (let shard = Key2Shard (putKey putreq) in
      if marked (migratedShards m) shard then (m, \<lparr>putErr = ErrWrongGroup\<rparr>)
      else if marked (frozenShards m) shard then (m, \<lparr>putErr = ErrWrongGroup\<rparr>)
      else case grpKeyValue m (putKey putreq) of
             None \<Rightarrow>
               if putVersion putreq = 0
               then (m\<lparr>grpKeyValue := (grpKeyValue m)(putKey putreq \<mapsto> \<lparr>Value = putValue putreq, Version = 1\<rparr>)\<rparr>,
                     \<lparr>putErr = OK\<rparr>)
               else (m, \<lparr>putErr = ErrVersion\<rparr>)
           | Some entry \<Rightarrow>
               if putVersion putreq \<noteq> Version entry then (m, \<lparr>putErr = ErrVersion\<rparr>)
               else (m\<lparr>grpKeyValue := (grpKeyValue m)(putKey putreq \<mapsto>
                         \<lparr>Value = putValue putreq, Version = Version entry + 1\<rparr>)\<rparr>,
                     \<lparr>putErr = OK\<rparr>))"

text \<open>The loop that collects the keys of a shard.\<close>

definition shardData :: "int \<Rightarrow> shard_maps \<Rightarrow> string \<rightharpoonup> ValueEntry" where
  "shardData s m = (\<lambda>k. if Key2Shard k = s then grpKeyValue m k else None)"

definition doFreezeShard :: "FreezeShardArgs \<Rightarrow> shard_maps \<Rightarrow> shard_maps \<times> FreezeShardReply" where
  "doFreezeShard args m =
     (let reply = \<lparr>fzState = NoJson, fzReplyNum = 0, fzErr = NoErr\<rparr>;
          fresh = (m\<lparr>frozenShards := (frozenShards m)(fzShard args \<mapsto> True),
                     maxShardNum := (maxShardNum m)(fzShard args \<mapsto> fzNum args)\<rparr>,
                   reply\<lparr>fzState := JsonMap (shardData (fzShard args) m), fzReplyNum := fzNum args, fzErr := OK\<rparr>)
      in case maxShardNum m (fzShard args) of
           Some maxNum \<Rightarrow>
             if fzNum args < maxNum then (m, reply\<lparr>fzErr := ErrMaybe\<rparr>)
             else if fzNum args = maxNum then
               if marked (migratedShards m) (fzShard args)
               then (m, reply\<lparr>fzState := JsonMap Map.empty, fzReplyNum := fzNum args, fzErr := OK\<rparr>)
               else (m, reply\<lparr>fzState := JsonMap (shardData (fzShard args) m), fzReplyNum := fzNum args, fzErr := OK\<rparr>)
             else fresh
         | None \<Rightarrow> fresh)"

definition doInstallShard :: "InstallShardArgs \<Rightarrow> shard_maps \<Rightarrow> shard_maps \<times> InstallShardReply" where
  "doInstallShard args m =
     (let m1 = m\<lparr>maxShardNum := (maxShardNum m)(isShard args \<mapsto> isNum args),
                 migratedShards := (migratedShards m)(isShard args := None)\<rparr>;
          fresh = (case isState args of
             NoJson \<Rightarrow> (m1, \<lparr>isErr = ErrMaybe\<rparr>)
           | JsonMap d \<Rightarrow> (m1\<lparr>grpKeyValue := grpKeyValue m1 ++ d,
                             frozenShards := (frozenShards m1)(isShard args := None)\<rparr>, \<lparr>isErr = OK\<rparr>))
      in case maxShardNum m (isShard args) of
           Some maxNum \<Rightarrow>
             if isNum args < maxNum then (m, \<lparr>isErr = ErrMaybe\<rparr>)
             else if isNum args = maxNum then (m, \<lparr>isErr = OK\<rparr>)
             else fresh
         | None \<Rightarrow> fresh)"

definition doDeleteShard :: "DeleteShardArgs \<Rightarrow> shard_maps \<Rightarrow> shard_maps \<times> DeleteShardReply" where
  "doDeleteShard args m =
     (let s = dsShard args;
          fresh = (m\<lparr>maxShardNum := (maxShardNum m)(s \<mapsto> dsNum args),
                     migratedShards := (migratedShards m)(s \<mapsto> True),
                     grpKeyValue := (\<lambda>k. if Key2Shard k = s then None else grpKeyValue m k),
                     frozenShards := (frozenShards m)(s := None)\<rparr>, \<lparr>dsErr = OK\<rparr>)
      in case maxShardNum m s of
           Some maxNum \<Rightarrow>
             if dsNum args < maxNum then (m, \<lparr>dsErr = ErrMaybe\<rparr>)
             else if dsNum args = maxNum
             then (m\<lparr>migratedShards := (migratedShards m)(s \<mapsto> True),
                     frozenShards := (frozenShards m)(s := None)\<rparr>, \<lparr>dsErr = OK\<rparr>)
             else fresh
         | None \<Rightarrow> fresh)"

fun exec_maps :: "grp_req \<Rightarrow> shard_maps \<Rightarrow> (shard_maps \<times> grp_rep) option" where
  "exec_maps (FreezePtr a) m = Some (map_prod id FreezeRep (doFreezeShard a m))"
| "exec_maps (FreezeVal a) m = Some (map_prod id FreezeRep (doFreezeShard a m))"
| "exec_maps (InstallPtr a) m = Some (map_prod id InstallRep (doInstallShard a m))"
| "exec_maps (InstallVal a) m = Some (map_prod id InstallRep (doInstallShard a m))"
| "exec_maps (DeletePtr a) m = Some (map_prod id DeleteRep (doDeleteShard a m))"
| "exec_maps (DeleteVal a) m = Some (map_prod id DeleteRep (doDeleteShard a m))"
| "exec_maps (GGetPtr a) m = Some (m, GGetRep (grp_get a m))"
| "exec_maps (GPutPtr a) m = Some (map_prod id GPutRep (grp_put a m))"
| "exec_maps (GGetVal a) m = Some (m, GGetRep (grp_get a m))"
| "exec_maps (GPutVal a) m = Some (map_prod id GPutRep (grp_put a m))"
| "exec_maps GOther m = None"

text \<open>With nil maps a \<^verbatim>\<open>Get\<close> and a \<^verbatim>\<open>Put\<close> that is refused only read; everything else writes and panics.\<close>

definition nil_maps_op :: "grp_req \<Rightarrow> grp_rep option" where
  "nil_maps_op q =
     (case q of
        GGetPtr a \<Rightarrow> Some (GGetRep (grp_get a empty_maps))
      | GGetVal a \<Rightarrow> Some (GGetRep (grp_get a empty_maps))
      | GPutPtr a \<Rightarrow> if putVersion a = 0 then None else Some (GPutRep \<lparr>putErr = ErrVersion\<rparr>)
      | GPutVal a \<Rightarrow> if putVersion a = 0 then None else Some (GPutRep \<lparr>putErr = ErrVersion\<rparr>)
      | _ \<Rightarrow> None)"

definition grp_DoOp :: "grp_req \<Rightarrow> GrpServer \<Rightarrow> (GrpServer \<times> grp_rep) option" where
  "grp_DoOp q kv =
     (case grpMaps kv of
        Some m \<Rightarrow> do { (m', r) \<leftarrow> exec_maps q m; Some (kv\<lparr>grpMaps := Some m'\<rparr>, r) }
      | None \<Rightarrow> do { r \<leftarrow> nil_maps_op q; Some (kv, r) })"

text \<open>\<^verbatim>\<open>Snapshot\<close> returns nil and \<^verbatim>\<open>Restore\<close> does nothing.\<close>

definition grp_Snapshot :: "GrpServer \<Rightarrow> unit list" where
  "grp_Snapshot kv = []"

definition grp_Restore :: "unit list \<Rightarrow> GrpServer \<Rightarrow> GrpServer" where
  "grp_Restore data kv = kv"

definition grp_sm :: "(grp_req, grp_rep, unit, GrpServer) StateMachine" where
  "grp_sm = \<lparr>smDoOp = grp_DoOp, smSnapshot = grp_Snapshot, smRestore = (\<lambda>d kv. Some (grp_Restore d kv))\<rparr>"

section \<open>The handlers, from what Submit returns on\<close>

definition grp_Get :: "Err \<times> grp_rep option \<Rightarrow> GetReply" where
  "grp_Get sub =
     (let reply = \<lparr>getValue = [], getVersion = 0, getErr = fst sub\<rparr> in
      case snd sub of
        Some (GGetRep getResult) \<Rightarrow> if fst sub = OK then getResult else reply
      | _ \<Rightarrow> reply)"

definition grp_Put :: "Err \<times> grp_rep option \<Rightarrow> PutReply" where
  "grp_Put sub =
     (let reply = \<lparr>putErr = fst sub\<rparr> in
      case snd sub of
        Some (GPutRep putResult) \<Rightarrow> if fst sub = OK then reply\<lparr>putErr := putErr putResult\<rparr> else reply
      | _ \<Rightarrow> reply)"

definition grp_FreezeShard :: "Err \<times> grp_rep option \<Rightarrow> FreezeShardReply" where
  "grp_FreezeShard sub =
     (let reply = \<lparr>fzState = NoJson, fzReplyNum = 0, fzErr = fst sub\<rparr> in
      case snd sub of
        Some (FreezeRep res) \<Rightarrow> if fst sub = OK then res else reply
      | _ \<Rightarrow> reply)"

text \<open>\<^verbatim>\<open>InstallShard\<close> and \<^verbatim>\<open>DeleteShard\<close> drop the reply of the state machine.\<close>

definition grp_InstallShard :: "Err \<times> grp_rep option \<Rightarrow> InstallShardReply" where
  "grp_InstallShard sub = \<lparr>isErr = fst sub\<rparr>"

definition grp_DeleteShard :: "Err \<times> grp_rep option \<Rightarrow> DeleteShardReply" where
  "grp_DeleteShard sub = \<lparr>dsErr = fst sub\<rparr>"

definition grp_Kill :: "GrpServer \<Rightarrow> GrpServer" where
  "grp_Kill kv = kv\<lparr>grpDead := 1\<rparr>"

definition grp_killed :: "GrpServer \<Rightarrow> bool" where
  "grp_killed kv \<longleftrightarrow> grpDead kv = 1"

definition StartServerShardGrp ::
  "(unit list \<Rightarrow> int) \<Rightarrow> int \<Rightarrow> int \<Rightarrow> int \<Rightarrow> (grp_req Op raft_item, unit) Persister \<Rightarrow> int \<Rightarrow>
   (grp_req, grp_rep, unit, GrpServer) RSM option" where
  "StartServerShardGrp nsnap servers gid i ps maxstate =
     do {
       let kv = \<lparr>grpMe = i, grpDead = 0, grpGid = gid, grpMaps = None\<rparr>;
       rsm \<leftarrow> MakeRSM nsnap servers i ps maxstate grp_sm kv;
       let kv1 = (rsmSm rsm)\<lparr>grpDead := 0\<rparr>;
       Some (rsm\<lparr>rsmSm := (if grpMaps kv1 = None then kv1\<lparr>grpMaps := Some empty_maps\<rparr> else kv1)\<rparr>)
     }"

section \<open>The numbers of a shard\<close>

text \<open>The shard and the number of a request of the controller, the key of a request of a client, and the
  error of a reply.\<close>

fun admin :: "grp_req \<Rightarrow> (int \<times> int) option" where
  "admin (FreezePtr a) = Some (fzShard a, fzNum a)"
| "admin (FreezeVal a) = Some (fzShard a, fzNum a)"
| "admin (InstallPtr a) = Some (isShard a, isNum a)"
| "admin (InstallVal a) = Some (isShard a, isNum a)"
| "admin (DeletePtr a) = Some (dsShard a, dsNum a)"
| "admin (DeleteVal a) = Some (dsShard a, dsNum a)"
| "admin _ = None"

fun op_key :: "grp_req \<Rightarrow> string option" where
  "op_key (GGetPtr a) = Some (getKey a)"
| "op_key (GGetVal a) = Some (getKey a)"
| "op_key (GPutPtr a) = Some (putKey a)"
| "op_key (GPutVal a) = Some (putKey a)"
| "op_key _ = None"

fun grp_err :: "grp_rep \<Rightarrow> Err" where
  "grp_err (FreezeRep r) = fzErr r"
| "grp_err (InstallRep r) = isErr r"
| "grp_err (DeleteRep r) = dsErr r"
| "grp_err (GGetRep r) = getErr r"
| "grp_err (GPutRep r) = putErr r"

lemmas admin_defs = doFreezeShard_def doInstallShard_def doDeleteShard_def Let_def

lemma op_key_admin: "op_key q = Some k \<Longrightarrow> admin q = None"
  by (cases q) auto

lemma exec_maps_total: "q \<noteq> GOther \<Longrightarrow> exec_maps q m \<noteq> None"
  by (cases q) auto

text \<open>A request by its operation, whether it came as a pointer or as a value.\<close>

lemma exec_maps_cases:
  assumes "exec_maps q m = Some (m', r)"
  obtains (freeze) a where "admin q = Some (fzShard a, fzNum a)" "op_key q = None"
      "m' = fst (doFreezeShard a m)" "r = FreezeRep (snd (doFreezeShard a m))"
  | (install) a where "admin q = Some (isShard a, isNum a)" "op_key q = None"
      "m' = fst (doInstallShard a m)" "r = InstallRep (snd (doInstallShard a m))" "q = InstallPtr a \<or> q = InstallVal a"
  | (delete) a where "admin q = Some (dsShard a, dsNum a)" "op_key q = None"
      "m' = fst (doDeleteShard a m)" "r = DeleteRep (snd (doDeleteShard a m))"
  | (get) a where "admin q = None" "op_key q = Some (getKey a)" "m' = m" "r = GGetRep (grp_get a m)"
  | (put) a where "admin q = None" "op_key q = Some (putKey a)"
      "m' = fst (grp_put a m)" "r = GPutRep (snd (grp_put a m))"
  using assms
  by (cases q) (auto simp: prod_eq_iff map_prod_def split_beta)

lemma grp_put_frame [simp]:
  "maxShardNum (fst (grp_put a m)) = maxShardNum m" "frozenShards (fst (grp_put a m)) = frozenShards m"
  "migratedShards (fst (grp_put a m)) = migratedShards m"
  by (simp_all add: grp_put_def Let_def split: option.splits)

text \<open>Executing a request: the number of a shard is the largest that was executed for it.\<close>

lemma exec_maps_num:
  assumes "exec_maps q m = Some (m', r)"
  shows "maxShardNum m' t =
    (case admin q of
       Some (s, n) \<Rightarrow> if s = t then Some (case maxShardNum m t of None \<Rightarrow> n | Some k \<Rightarrow> max k n) else maxShardNum m t
     | None \<Rightarrow> maxShardNum m t)"
  using assms
proof (cases rule: exec_maps_cases)
  case freeze
  then show ?thesis by (simp add: doFreezeShard_def Let_def max_def split: option.splits)
next
  case install
  then show ?thesis by (simp add: doInstallShard_def Let_def max_def split: option.splits shard_bytes.splits)
next
  case delete
  then show ?thesis by (simp add: doDeleteShard_def Let_def max_def split: option.splits)
qed simp_all

lemma exec_maps_stale:
  assumes "admin q = Some (s, n)" "maxShardNum m s = Some k" "n < k" "exec_maps q m = Some (m', r)"
  shows "m' = m \<and> grp_err r = ErrMaybe"
  using assms(4)
  by (cases rule: exec_maps_cases) (use assms(1-3) in \<open>simp_all add: admin_defs\<close>)

text \<open>Only the shard of a request changes.\<close>

definition same_shard :: "int \<Rightarrow> shard_maps \<Rightarrow> shard_maps \<Rightarrow> bool" where
  "same_shard s m m' \<longleftrightarrow> shardData s m' = shardData s m \<and> maxShardNum m' s = maxShardNum m s \<and>
     frozenShards m' s = frozenShards m s \<and> migratedShards m' s = migratedShards m s"

text \<open>The data of an installed state belongs to its shard.\<close>

fun state_ok :: "grp_req \<Rightarrow> bool" where
  "state_ok (InstallPtr a) \<longleftrightarrow> (\<forall>d k. isState a = JsonMap d \<and> d k \<noteq> None \<longrightarrow> Key2Shard k = isShard a)"
| "state_ok (InstallVal a) \<longleftrightarrow> (\<forall>d k. isState a = JsonMap d \<and> d k \<noteq> None \<longrightarrow> Key2Shard k = isShard a)"
| "state_ok GOther \<longleftrightarrow> False"
| "state_ok _ \<longleftrightarrow> True"

definition req_shard :: "grp_req \<Rightarrow> int option" where
  "req_shard q = (case admin q of Some (s, n) \<Rightarrow> Some s | None \<Rightarrow> map_option Key2Shard (op_key q))"

lemma doInstall_same:
  assumes "\<forall>d k. isState a = JsonMap d \<and> d k \<noteq> None \<longrightarrow> Key2Shard k = isShard a" "isShard a \<noteq> s"
  shows "same_shard s m (fst (doInstallShard a m))"
proof -
  have "(grpKeyValue m ++ d) k = grpKeyValue m k" if "isState a = JsonMap d" "Key2Shard k = s" for d k
    using assms that by (cases "d k") (auto simp: map_add_def)
  then show ?thesis
    using assms(2) by (auto simp: admin_defs same_shard_def shardData_def fun_eq_iff split: option.splits shard_bytes.splits)
qed

lemma grp_put_same: "Key2Shard (putKey a) \<noteq> s \<Longrightarrow> shardData s (fst (grp_put a m)) = shardData s m"
  by (auto simp: grp_put_def Let_def shardData_def fun_eq_iff split: option.splits)

lemma exec_maps_same:
  assumes "exec_maps q m = Some (m', r)" "state_ok q" "req_shard q \<noteq> Some s"
  shows "same_shard s m m'"
  using assms(1)
proof (cases rule: exec_maps_cases)
  case (install a)
  with assms(2,3) show ?thesis by (auto simp: req_shard_def intro!: doInstall_same)
next
  case (freeze a)
  with assms(3) show ?thesis
    by (auto simp: req_shard_def doFreezeShard_def Let_def same_shard_def shardData_def fun_eq_iff split: option.splits)
next
  case (delete a)
  with assms(3) show ?thesis
    by (auto simp: req_shard_def doDeleteShard_def Let_def same_shard_def shardData_def fun_eq_iff split: option.splits)
qed (use assms(3) in \<open>simp_all add: req_shard_def same_shard_def grp_put_same\<close>)

section \<open>A group as a machine\<close>

definition grp_step :: "grp_req \<Rightarrow> shard_maps \<Rightarrow> (shard_maps \<times> (grp_req \<times> grp_rep) list) option" where
  "grp_step q m = do { (m', r) \<leftarrow> exec_maps q m; Some (m', [(q, r)]) }"

definition nums_cover :: "(grp_req \<times> grp_rep) list \<Rightarrow> shard_maps \<Rightarrow> bool" where
  "nums_cover H m \<longleftrightarrow> (\<forall>q r s n. (q, r) \<in> set H \<and> admin q = Some (s, n) \<longrightarrow>
     (\<exists>k. maxShardNum m s = Some k \<and> n \<le> k))"

lemma nums_cover_exec:
  assumes "nums_cover H m" "exec_maps q m = Some (m', r)"
  shows "nums_cover (H @ [(q, r)]) m'"
proof -
  have "\<exists>k. maxShardNum m' s = Some k \<and> n \<le> k" if h: "(q', r') \<in> set H" "admin q' = Some (s, n)" for q' r' s n
  proof -
    obtain k where "maxShardNum m s = Some k" "n \<le> k" using assms(1) h unfolding nums_cover_def by blast
    then show ?thesis
      using exec_maps_num [OF assms(2), of s] by (auto simp: max_def split: option.splits)
  qed
  moreover have "\<exists>k. maxShardNum m' s = Some k \<and> n \<le> k" if "admin q = Some (s, n)" for s n
    using exec_maps_num [OF assms(2), of s] that by (auto split: option.splits)
  ultimately show ?thesis by (auto simp: nums_cover_def)
qed

interpretation numbers: machine grp_step "\<lambda>q m. q \<noteq> GOther" nums_cover
proof
  fix H :: "(grp_req \<times> grp_rep) list" and m q assume "nums_cover H m" "q \<noteq> GOther"
  then show "returns (grp_step q m) (\<lambda>(m', os). nums_cover (H @ os) m')"
    using exec_maps_total [of q m] by (auto simp: grp_step_def nums_cover_exec)
qed

text \<open>A frozen shard: what \<^verbatim>\<open>FreezeShard\<close> returned is the data of the shard as long as the controller does not
  go on to a higher number, and nobody is served from it.\<close>

definition below :: "int \<Rightarrow> int \<Rightarrow> grp_req \<Rightarrow> shard_maps \<Rightarrow> bool" where
  "below s n q m \<longleftrightarrow> state_ok q \<and> (case admin q of Some (t, k) \<Rightarrow> t = s \<longrightarrow> k \<le> n | None \<Rightarrow> True)"

definition handed_over :: "int \<Rightarrow> int \<Rightarrow> (string \<rightharpoonup> ValueEntry) \<Rightarrow> (grp_req \<times> grp_rep) list \<Rightarrow> shard_maps \<Rightarrow> bool" where
  "handed_over s n d H m \<longleftrightarrow>
     maxShardNum m s = Some n \<and> shardData s m = d \<and>
     (marked (frozenShards m) s \<or> marked (migratedShards m) s) \<and>
     (\<forall>q r k. (q, r) \<in> set H \<and> op_key q = Some k \<and> Key2Shard k = s \<longrightarrow> grp_err r = ErrWrongGroup)"

lemma frozen_exec:
  assumes "handed_over s n d H m" "below s n q m" "exec_maps q m = Some (m', r)" "req_shard q = Some s"
  shows "handed_over s n d (H @ [(q, r)]) m'"
proof -
  have m: "maxShardNum m s = Some n" "shardData s m = d" "marked (frozenShards m) s \<or> marked (migratedShards m) s"
    and H: "\<forall>q r k. (q, r) \<in> set H \<and> op_key q = Some k \<and> Key2Shard k = s \<longrightarrow> grp_err r = ErrWrongGroup"
    using assms(1) by (simp_all add: handed_over_def)
  have num: "admin q = Some (s, k) \<Longrightarrow> k \<le> n" for k using assms(2) by (simp add: below_def)
  have shard: "admin q = Some (t, k) \<Longrightarrow> t = s" "op_key q = Some key \<Longrightarrow> admin q = None \<Longrightarrow> Key2Shard key = s" for t k key
    using assms(4) by (simp_all add: req_shard_def)
  have "maxShardNum m' s = Some n \<and> shardData s m' = d \<and> (marked (frozenShards m') s \<or> marked (migratedShards m') s) \<and>
      (op_key q \<noteq> None \<longrightarrow> grp_err r = ErrWrongGroup)"
    using assms(3)
  proof (cases rule: exec_maps_cases)
    case (freeze a)
    then show ?thesis using m num shard by (auto simp: doFreezeShard_def Let_def)
  next
    case (install a)
    then show ?thesis using m num shard by (auto simp: doInstallShard_def Let_def)
  next
    case (delete a)
    then show ?thesis using m num shard by (auto simp: doDeleteShard_def Let_def marked_def shardData_def)
  next
    case (get a)
    then show ?thesis using m shard by (auto simp: grp_get_def Let_def)
  next
    case (put a)
    then show ?thesis using m shard by (auto simp: grp_put_def Let_def)
  qed
  with H show ?thesis by (auto simp: handed_over_def)
qed

lemma handed_over_exec:
  assumes "handed_over s n d H m" "below s n q m" "exec_maps q m = Some (m', r)"
  shows "handed_over s n d (H @ [(q, r)]) m'"
proof (cases "req_shard q = Some s")
  case False
  have "state_ok q" using assms(2) by (simp add: below_def)
  moreover have "Key2Shard k \<noteq> s" if "op_key q = Some k" for k
    using False that op_key_admin [OF that] by (simp add: req_shard_def)
  ultimately show ?thesis
    using exec_maps_same [OF assms(3) _ False] assms(1) by (auto simp: handed_over_def same_shard_def marked_def)
qed (use assms frozen_exec in blast)

interpretation handover: machine grp_step "below s n" "handed_over s n d" for s n d
proof
  fix H :: "(grp_req \<times> grp_rep) list" and m q assume "handed_over s n d H m" "below s n q m"
  moreover from this have "q \<noteq> GOther" by (auto simp: below_def)
  ultimately show "returns (grp_step q m) (\<lambda>(m', os). handed_over s n d (H @ os) m')"
    using exec_maps_total [of q m] by (auto simp: grp_step_def intro: handed_over_exec)
qed

section \<open>Properties\<close>

lemma run_grp_step_snoc:
  "run grp_step (qs @ [q]) m =
     do { (m1, H) \<leftarrow> run grp_step qs m; (m2, r) \<leftarrow> exec_maps q m1; Some (m2, H @ [(q, r)]) }"
  by (auto simp: run_append grp_step_def split: Option.bind_splits)

lemma run_grp_step_reqs: "run grp_step qs m = Some (m', H) \<Longrightarrow> map fst H = qs"
  by (induction qs arbitrary: m H) (auto simp: grp_step_def bind_Some_iff)

lemma admissible_all: "\<forall>q \<in> set qs. ok q \<Longrightarrow> admissible step (\<lambda>q s. ok q) qs s"
  by (induction qs arbitrary: s) (auto split: option.splits)

lemma run_grp_step_total:
  assumes "\<forall>q \<in> set qs. q \<noteq> GOther"
  obtains m' H where "run grp_step qs m = Some (m', H)"
  using numbers.run_keeps [of "[]" m qs] admissible_all [OF assms, of grp_step m]
  by (auto simp: nums_cover_def elim!: returnsE)

text \<open>C31. Requests of an old configuration are refused: once a group has executed a Freeze, Install or Delete
  of a shard with some number, whatever it executes afterwards, a request for that shard with a
  smaller number gets \<^verbatim>\<open>ErrMaybe\<close> and changes nothing.\<close>

theorem stale_refused:
  assumes "\<forall>q \<in> set qs. q \<noteq> GOther" "run grp_step qs m = Some (m', H)"
    and "q \<in> set qs" "admin q = Some (s, n)" "admin q' = Some (s, n')" "n' < n"
  shows "returns (exec_maps q' m') (\<lambda>(m'', r). m'' = m' \<and> grp_err r = ErrMaybe)"
proof -
  have "nums_cover [] m" by (simp add: nums_cover_def)
  then have "nums_cover H m'"
    using numbers.run_from_start [of m qs] admissible_all [of qs "\<lambda>q. q \<noteq> GOther" grp_step m] assms(1,2) by simp
  moreover obtain r where "(q, r) \<in> set H"
    using run_grp_step_reqs [OF assms(2)] assms(3) by force
  ultimately obtain k where "maxShardNum m' s = Some k" "n \<le> k"
    using assms(4) unfolding nums_cover_def by blast
  moreover have "exec_maps q' m' \<noteq> None" using assms(5) by (intro exec_maps_total) auto
  ultimately show ?thesis
    using exec_maps_stale [OF assms(5), of m' k] assms(6) by (auto simp: returns_def)
qed

definition sample_freeze :: grp_req where
  "sample_freeze = FreezeVal \<lparr>fzShard = Key2Shard ''x'', fzNum = 2\<rparr>"

definition sample_gput :: grp_req where
  "sample_gput = GPutVal \<lparr>putKey = ''x'', putValue = ''a'', putVersion = 0\<rparr>"

theorem stale_refused_witness:
  "\<exists>m' H. run grp_step [sample_gput, sample_freeze] empty_maps = Some (m', H) \<and>
     returns (exec_maps (InstallVal \<lparr>isShard = Key2Shard ''x'', isState = JsonMap Map.empty, isNum = 1\<rparr>) m')
       (\<lambda>(m'', r). m'' = m' \<and> grp_err r = ErrMaybe)"
proof -
  obtain m' H where run: "run grp_step [sample_gput, sample_freeze] empty_maps = Some (m', H)"
    by (rule run_grp_step_total [of "[sample_gput, sample_freeze]" empty_maps])
      (auto simp: sample_freeze_def sample_gput_def)
  have "returns (exec_maps (InstallVal \<lparr>isShard = Key2Shard ''x'', isState = JsonMap Map.empty, isNum = 1\<rparr>) m')
       (\<lambda>(m'', r). m'' = m' \<and> grp_err r = ErrMaybe)"
    by (rule stale_refused [OF _ run, of sample_freeze "Key2Shard ''x''" 2 _ 1])
      (auto simp: sample_freeze_def sample_gput_def)
  with run show ?thesis by blast
qed

text \<open>C13. The handover of a shard: after a new Freeze the group returns the data of the shard and from then on,
  whatever requests it executes as long as none for this shard has a higher number, duplicates and
  late requests included, no Get or Put of the shard is served and the data stays what was returned.\<close>

theorem Freeze_hands_over:
  assumes "maxShardNum m s = None \<or> (\<exists>k < n. maxShardNum m s = Some k)"
    and "admissible grp_step (below s n) qs (fst (doFreezeShard \<lparr>fzShard = s, fzNum = n\<rparr> m))"
  shows "snd (doFreezeShard \<lparr>fzShard = s, fzNum = n\<rparr> m) =
           \<lparr>fzState = JsonMap (shardData s m), fzReplyNum = n, fzErr = OK\<rparr> \<and>
    returns (run grp_step qs (fst (doFreezeShard \<lparr>fzShard = s, fzNum = n\<rparr> m))) (\<lambda>(m', H).
      shardData s m' = shardData s m \<and>
      (\<forall>q r k. (q, r) \<in> set H \<and> op_key q = Some k \<and> Key2Shard k = s \<longrightarrow> grp_err r = ErrWrongGroup))"
proof -
  let ?m = "fst (doFreezeShard \<lparr>fzShard = s, fzNum = n\<rparr> m)"
  have "handed_over s n (shardData s m) [] ?m"
    using assms(1) by (auto simp: handed_over_def doFreezeShard_def Let_def marked_def shardData_def)
  from handover.run_from_start [OF this assms(2)]
  have "returns (run grp_step qs ?m) (\<lambda>(m', H). shardData s m' = shardData s m \<and>
      (\<forall>q r k. (q, r) \<in> set H \<and> op_key q = Some k \<and> Key2Shard k = s \<longrightarrow> grp_err r = ErrWrongGroup))"
    by (auto simp: handed_over_def elim!: returns_mono)
  moreover have "snd (doFreezeShard \<lparr>fzShard = s, fzNum = n\<rparr> m) =
      \<lparr>fzState = JsonMap (shardData s m), fzReplyNum = n, fzErr = OK\<rparr>"
    using assms(1) by (auto simp: doFreezeShard_def Let_def)
  ultimately show ?thesis by blast
qed

theorem Freeze_hands_over_witness:
  "returns (run grp_step [sample_gput, sample_freeze, DeleteVal \<lparr>dsShard = Key2Shard ''x'', dsNum = 2\<rparr>]
      (fst (doFreezeShard \<lparr>fzShard = Key2Shard ''x'', fzNum = 2\<rparr> empty_maps)))
    (\<lambda>(m', H). \<forall>r. (sample_gput, r) \<in> set H \<longrightarrow> grp_err r = ErrWrongGroup)"
proof -
  let ?qs = "[sample_gput, sample_freeze, DeleteVal \<lparr>dsShard = Key2Shard ''x'', dsNum = 2\<rparr>]"
  let ?m = "fst (doFreezeShard \<lparr>fzShard = Key2Shard ''x'', fzNum = 2\<rparr> empty_maps)"
  have "admissible grp_step (below (Key2Shard ''x'') 2) ?qs ?m"
    by (auto simp: below_def sample_gput_def sample_freeze_def split: option.splits)
  then have "returns (run grp_step ?qs ?m) (\<lambda>(m', H). shardData (Key2Shard ''x'') m' = shardData (Key2Shard ''x'') empty_maps \<and>
      (\<forall>q r k. (q, r) \<in> set H \<and> op_key q = Some k \<and> Key2Shard k = Key2Shard ''x'' \<longrightarrow> grp_err r = ErrWrongGroup))"
    using Freeze_hands_over [of empty_maps "Key2Shard ''x''" 2 ?qs] by (simp only: empty_maps_def) simp
  then show ?thesis
    by (rule returns_mono) (fastforce simp: sample_gput_def)
qed

text \<open>C32. \<^verbatim>\<open>DeleteShard\<close> after \<^verbatim>\<open>FreezeShard\<close> with the same number, as the controller calls them, takes the branch
  for repeated requests: it answers \<^verbatim>\<open>OK\<close> and marks the shard as moved away, but keeps all its data.\<close>

theorem Delete_after_Freeze_keeps_data:
  assumes "maxShardNum m s = None \<or> (\<exists>k < n. maxShardNum m s = Some k)"
  shows "case doDeleteShard \<lparr>dsShard = s, dsNum = n\<rparr> (fst (doFreezeShard \<lparr>fzShard = s, fzNum = n\<rparr> m)) of
    (m', reply) \<Rightarrow> dsErr reply = OK \<and> marked (migratedShards m') s \<and> \<not> marked (frozenShards m') s \<and>
      grpKeyValue m' = grpKeyValue m"
  using assms by (auto simp: admin_defs marked_def)

theorem Delete_after_Freeze_keeps_data_witness:
  "\<exists>m. grpKeyValue m ''x'' \<noteq> None \<and>
     grpKeyValue (fst (doDeleteShard \<lparr>dsShard = Key2Shard ''x'', dsNum = 2\<rparr>
       (fst (doFreezeShard \<lparr>fzShard = Key2Shard ''x'', fzNum = 2\<rparr> m)))) ''x'' \<noteq> None"
proof -
  let ?m = "empty_maps\<lparr>grpKeyValue := [''x'' \<mapsto> \<lparr>Value = ''a'', Version = 1\<rparr>]\<rparr>"
  have "maxShardNum ?m (Key2Shard ''x'') = None" by (simp add: empty_maps_def)
  from Delete_after_Freeze_keeps_data [of ?m "Key2Shard ''x''" 2, OF disjI1, OF this] show ?thesis
    by (intro exI [of _ ?m]) (auto split: prod.splits)
qed

section \<open>Replication of a group\<close>

definition grp_good :: "GrpServer \<Rightarrow> bool" where
  "grp_good kv \<longleftrightarrow> grpMaps kv \<noteq> None"

text \<open>A group executes requests like any replicated server. It has no snapshots to decode, so it only is
  an \<open>executor\<close>.\<close>

interpretation grpsm: executor grp_sm grp_good "\<lambda>q. q \<noteq> GOther" "\<lambda>d. False" grpMaps
proof
  fix s q assume "grp_good s" "q \<noteq> GOther"
  then obtain m where "grpMaps s = Some m" by (auto simp: grp_good_def)
  moreover obtain m' r where "exec_maps q m = Some (m', r)"
    using exec_maps_total [OF \<open>q \<noteq> GOther\<close>, of m] by auto
  ultimately show "returns (smDoOp grp_sm q s) (\<lambda>(s', v). grp_good s')"
    by (simp add: grp_sm_def grp_DoOp_def grp_good_def)
next
  fix s t s' :: GrpServer and q v
  assume "grp_good s" "grpMaps s = grpMaps t" "smDoOp grp_sm q s = Some (s', v)"
  then show "\<exists>t'. smDoOp grp_sm q t = Some (t', v) \<and> grpMaps t' = grpMaps s'"
    by (auto simp: grp_sm_def grp_DoOp_def grp_good_def bind_Some_iff)
qed simp

lemma StartServerShardGrp_maps:
  "StartServerShardGrp nsnap servers gid i ps maxstate = Some rsm \<Longrightarrow> grpMaps (rsmSm rsm) = Some empty_maps"
  by (auto simp: StartServerShardGrp_def MakeRSM_def grp_sm_def grp_Restore_def Let_def split: if_splits)


definition sample_grp :: "int \<Rightarrow> (grp_req, grp_rep, unit, GrpServer) RSM" where
  "sample_grp maxstate = the (StartServerShardGrp (\<lambda>xs. int (length xs)) 3 1 0 MakePersister maxstate)"

lemma sample_grp_start:
  "StartServerShardGrp (\<lambda>xs. int (length xs)) 3 1 0 MakePersister n = Some (sample_grp n)"
  by (simp add: sample_grp_def StartServerShardGrp_def MakeRSM_def SnapshotSize_def MakePersister_def)


definition sample_loss :: "(grp_req, unit) feed_event list" where
  "sample_loss =
     [Between (RsmRaft EvStartElection),
      Between (RsmRaft (EvVoteReply \<lparr>rvTerm = 1, CandidateId = 0, LastLogIndex = 0, LastLogTerm = 0\<rparr>
        \<lparr>rvrTerm = 1, VoteGranted = True\<rparr> new_election)),
      Between (RsmSubmit sample_gput), Deliver \<lparr>opMe = 0, opId = 0, opReq = sample_gput\<rparr> 1]"


end
