(* ===== verification/ShardGrp_Clerk.thy ===== *)
theory ShardGrp_Clerk
  imports ShardGrp KVClerk
begin

text \<open>
  \<^verbatim>\<open>lec-2025/src/shardkv1/shardgrp/client.go\<close>, the clerk of one shard group, and
  \<^verbatim>\<open>lec-2025/src/shardkv1/client.go\<close>, the clerk of the sharded service. What the network and the servers
  do is the parameter \<open>call\<close>: what the \<open>n\<close>-th RPC of an operation, to the server with the given name,
  brings back, \<open>None\<close> when \<^verbatim>\<open>Call\<close> returns false. A loop that does not end is \<open>None\<close>.
\<close>

section \<open>The clerk of a group\<close>

record GrpClerk =
  gcServers :: "string list"
  gcLastLeader :: int

definition grp_MakeClerk :: "string list \<Rightarrow> GrpClerk" where
  "grp_MakeClerk servers = \<lparr>gcServers = servers, gcLastLeader = -1\<rparr>"

definition gc_first :: "GrpClerk \<Rightarrow> int" where
  "gc_first ck = (if gcLastLeader ck = -1 then 0 else gcLastLeader ck)"

text \<open>The loop of all five operations: call server \<open>i\<close>, return on an answer that is accepted, otherwise go on
  to the next server. \<open>isResend\<close> is the variable of \<^verbatim>\<open>Put\<close>, which the others do not have. The index
  of \<^verbatim>\<open>ck.servers\<close> is checked.\<close>

partial_function (option) retry_loop ::
  "('r \<Rightarrow> bool) \<Rightarrow> (nat \<Rightarrow> string \<Rightarrow> 'r option) \<Rightarrow> nat \<Rightarrow> int \<Rightarrow> bool \<Rightarrow> string list \<Rightarrow>
   (int \<times> bool \<times> 'r) outcome option" where
  "retry_loop accept call n i isResend servers =
     (case go_index servers i of
        None \<Rightarrow> Some Panicked
      | Some server \<Rightarrow>
          (case call n server of
             Some reply \<Rightarrow>
               if accept reply then Some (Returned (i, isResend, reply))
               else retry_loop accept call (Suc n) ((i + 1) mod go_len servers) True servers
           | None \<Rightarrow> retry_loop accept call (Suc n) ((i + 1) mod go_len servers) True servers))"

definition gc_Get ::
  "(nat \<Rightarrow> string \<Rightarrow> GetReply option) \<Rightarrow> GrpClerk \<Rightarrow> (GrpClerk \<times> GetReply) outcome option" where
  "gc_Get call ck =
     map_option (map_outcome (\<lambda>(i, _, reply). (ck\<lparr>gcLastLeader := i\<rparr>, reply)))
       (retry_loop (\<lambda>reply. getErr reply \<noteq> ErrWrongLeader) call 0 (gc_first ck) False (gcServers ck))"

definition gc_Put ::
  "(nat \<Rightarrow> string \<Rightarrow> PutReply option) \<Rightarrow> GrpClerk \<Rightarrow> (GrpClerk \<times> Err) outcome option" where
  "gc_Put call ck =
     map_option (map_outcome (\<lambda>(i, isResend, reply).
         (ck\<lparr>gcLastLeader := i\<rparr>, if isResend \<and> putErr reply = ErrVersion then ErrMaybe else putErr reply)))
       (retry_loop (\<lambda>reply. putErr reply \<noteq> ErrWrongLeader) call 0 (gc_first ck) False (gcServers ck))"

definition gc_FreezeShard ::
  "(nat \<Rightarrow> string \<Rightarrow> FreezeShardReply option) \<Rightarrow> GrpClerk \<Rightarrow> (GrpClerk \<times> shard_bytes \<times> Err) outcome option" where
  "gc_FreezeShard call ck =
     map_option (map_outcome (\<lambda>(i, _, reply). (ck\<lparr>gcLastLeader := i\<rparr>, fzState reply, fzErr reply)))
       (retry_loop (\<lambda>reply. fzErr reply = OK) call 0 (gc_first ck) False (gcServers ck))"

definition gc_InstallShard ::
  "(nat \<Rightarrow> string \<Rightarrow> InstallShardReply option) \<Rightarrow> GrpClerk \<Rightarrow> (GrpClerk \<times> Err) outcome option" where
  "gc_InstallShard call ck =
     map_option (map_outcome (\<lambda>(i, _, reply). (ck\<lparr>gcLastLeader := i\<rparr>, isErr reply)))
       (retry_loop (\<lambda>reply. isErr reply = OK) call 0 (gc_first ck) False (gcServers ck))"

definition gc_DeleteShard ::
  "(nat \<Rightarrow> string \<Rightarrow> DeleteShardReply option) \<Rightarrow> GrpClerk \<Rightarrow> (GrpClerk \<times> Err) outcome option" where
  "gc_DeleteShard call ck =
     map_option (map_outcome (\<lambda>(i, _, reply). (ck\<lparr>gcLastLeader := i\<rparr>, dsErr reply)))
       (retry_loop (\<lambda>reply. dsErr reply = OK) call 0 (gc_first ck) False (gcServers ck))"

section \<open>The clerk of the sharded service\<close>

text \<open>\<open>query r\<close> is the configuration that \<^verbatim>\<open>Query\<close> returns in round \<open>r\<close>, \<open>None\<close> for nil; \<open>call r\<close> are the RPCs
  of that round. A nil configuration is dereferenced, and a group without servers is indexed.\<close>

definition round_servers :: "ShardConfig option \<Rightarrow> string \<Rightarrow> string list option" where
  "round_servers cfg key =
     do { c \<leftarrow> cfg;
          gid \<leftarrow> go_index (Shards c) (Key2Shard key);
          Some (case map_of (Groups c) gid of None \<Rightarrow> [] | Some servers \<Rightarrow> servers) }"

partial_function (option) kv_Get ::
  "(nat \<Rightarrow> ShardConfig option) \<Rightarrow> (nat \<Rightarrow> nat \<Rightarrow> string \<Rightarrow> GetReply option) \<Rightarrow> nat \<Rightarrow> string \<Rightarrow>
   GetReply outcome option" where
  "kv_Get query call r key =
     (case round_servers (query r) key of
        None \<Rightarrow> Some Panicked
      | Some servers \<Rightarrow>
          do { res \<leftarrow> gc_Get (call r) (grp_MakeClerk servers);
               case res of
                 Panicked \<Rightarrow> Some Panicked
               | Returned (ck, reply) \<Rightarrow>
                   if getErr reply = ErrWrongGroup then kv_Get query call (Suc r) key
                   else Some (Returned reply) })"

partial_function (option) kv_Put ::
  "(nat \<Rightarrow> ShardConfig option) \<Rightarrow> (nat \<Rightarrow> nat \<Rightarrow> string \<Rightarrow> PutReply option) \<Rightarrow> nat \<Rightarrow> string \<Rightarrow>
   Err outcome option" where
  "kv_Put query call r key =
     (case round_servers (query r) key of
        None \<Rightarrow> Some Panicked
      | Some servers \<Rightarrow>
          do { res \<leftarrow> gc_Put (call r) (grp_MakeClerk servers);
               case res of
                 Panicked \<Rightarrow> Some Panicked
               | Returned (ck, err) \<Rightarrow>
                   if err = ErrWrongGroup then kv_Put query call (Suc r) key
                   else Some (Returned err) })"

section \<open>What the loop computes\<close>

definition gc_wf :: "GrpClerk \<Rightarrow> bool" where
  "gc_wf ck \<longleftrightarrow> gcServers ck \<noteq> [] \<and> -1 \<le> gcLastLeader ck \<and> gcLastLeader ck < go_len (gcServers ck)"

definition nth_name :: "string list \<Rightarrow> int \<Rightarrow> nat \<Rightarrow> string" where
  "nth_name servers i n = servers ! nat ((i + int n) mod go_len servers)"

definition accepted :: "('r \<Rightarrow> bool) \<Rightarrow> (nat \<Rightarrow> string \<Rightarrow> 'r option) \<Rightarrow> string list \<Rightarrow> int \<Rightarrow> nat \<Rightarrow> 'r option" where
  "accepted accept call servers i n =
     (case call n (nth_name servers i n) of None \<Rightarrow> None | Some r \<Rightarrow> if accept r then Some r else None)"

lemma retry_index:
  "servers \<noteq> [] \<Longrightarrow> go_index servers ((i + int n) mod go_len servers) = Some (nth_name servers i n)"
  by (intro trans [OF go_index_Some]) (simp_all add: nth_name_def)

lemma retry_step:
  assumes "servers \<noteq> []"
  shows "retry_loop accept call n ((i + int n) mod go_len servers) b servers =
    (case accepted accept call servers i n of
       Some r \<Rightarrow> Some (Returned ((i + int n) mod go_len servers, b, r))
     | None \<Rightarrow> retry_loop accept call (Suc n) ((i + int (Suc n)) mod go_len servers) True servers)"
proof -
  have "((i + int n) mod go_len servers + 1) mod go_len servers = (i + int (Suc n)) mod go_len servers"
    by (simp add: mod_simps add_ac)
  then show ?thesis
    using retry_index [OF assms, of i n]
    by (subst retry_loop.simps) (auto simp: accepted_def split: option.splits)
qed

lemma retry_skip:
  assumes "servers \<noteq> []" "0 \<le> i" "i < go_len servers" "\<forall>j < n. accepted accept call servers i j = None"
  shows "retry_loop accept call 0 i b servers =
         retry_loop accept call n ((i + int n) mod go_len servers) (b \<or> 0 < n) servers"
  using assms(4)
proof (induction n)
  case (Suc n)
  then show ?case using retry_step [OF assms(1), of accept call n i "b \<or> 0 < n"] by simp
qed (use assms(2,3) in simp)

lemma retry_accepted:
  assumes "servers \<noteq> []" "0 \<le> i" "i < go_len servers"
    and "\<forall>j < n. accepted accept call servers i j = None" "accepted accept call servers i n = Some r"
  shows "retry_loop accept call 0 i b servers = Some (Returned ((i + int n) mod go_len servers, b \<or> 0 < n, r))"
  using retry_skip [OF assms(1-4), of b] retry_step [OF assms(1), of accept call n i "b \<or> 0 < n"] assms(5) by simp

lemma retry_never:
  assumes "retry_loop accept call n i' b servers = Some res"
  shows "servers \<noteq> [] \<longrightarrow> i' = (i + int n) mod go_len servers \<longrightarrow> (\<exists>m. accepted accept call servers i m \<noteq> None)"
proof (rule retry_loop.raw_induct [where P = "\<lambda>accept call n i' b servers res. servers \<noteq> [] \<longrightarrow>
      i' = (i + int n) mod go_len servers \<longrightarrow> (\<exists>m. accepted accept call servers i m \<noteq> None)", OF _ assms],
    intro impI, goal_cases)
  case (1 loop accept call n i' b servers res)
  have nxt: "(i' + 1) mod go_len servers = (i + int (Suc n)) mod go_len servers"
    by (simp add: 1(4) mod_simps add_ac)
  show ?case
  proof (cases "accepted accept call servers i n")
    case None
    with 1(2) retry_index [OF 1(3), of i n]
    have "loop accept call (Suc n) ((i' + 1) mod go_len servers) True servers = Some res"
      by (auto simp: accepted_def 1(4) [symmetric] split: option.splits if_splits)
    from 1(1) [OF this] 1(3) nxt show ?thesis by blast
  qed auto
qed

text \<open>The loop ends exactly if some attempt is accepted, and then with the first such answer.\<close>

lemma retry_cases:
  assumes "servers \<noteq> []" "0 \<le> i" "i < go_len servers"
  obtains (never) "\<forall>n. accepted accept call servers i n = None" "retry_loop accept call 0 i b servers = None"
  | (answered) n r where "\<forall>j < n. accepted accept call servers i j = None" "accepted accept call servers i n = Some r"
      "retry_loop accept call 0 i b servers = Some (Returned ((i + int n) mod go_len servers, b \<or> 0 < n, r))"
proof (cases "\<exists>m. accepted accept call servers i m \<noteq> None")
  case True
  then obtain n r where "\<forall>j < n. accepted accept call servers i j = None" "accepted accept call servers i n = Some r"
    using first_answer [of "accepted accept call servers i"] by blast
  with retry_accepted [OF assms this] answered show ?thesis by blast
next
  case False
  have "i = (i + int 0) mod go_len servers" using assms by simp
  with False retry_never [of accept call 0 i b servers _ i] assms(1)
  have "retry_loop accept call 0 i b servers = None"
    by (cases "retry_loop accept call 0 i b servers") auto
  with False never show ?thesis by simp
qed

lemma gc_first_bounds: "gc_wf ck \<Longrightarrow> 0 \<le> gc_first ck \<and> gc_first ck < go_len (gcServers ck)"
  by (auto simp: gc_wf_def gc_first_def)

section \<open>Requests of an old configuration\<close>

text \<open>What a group that has moved on to number \<open>k\<close> of shard \<open>s\<close> answers to an RPC: \<^verbatim>\<open>Submit\<close> failed, or the
  state machine executed the request.\<close>

definition answers_of :: "grp_req \<Rightarrow> (shard_maps \<Rightarrow> bool) \<Rightarrow> (Err \<times> grp_rep option) set" where
  "answers_of q P = {(ErrWrongLeader, None)} \<union> {(OK, Some (snd (the (exec_maps q m)))) | m. P m}"

abbreviation moved_on :: "int \<Rightarrow> int \<Rightarrow> shard_maps \<Rightarrow> bool" where
  "moved_on s n m \<equiv> \<exists>k. maxShardNum m s = Some k \<and> n < k"

lemma stale_freeze_reply:
  assumes "sub \<in> answers_of (FreezeVal \<lparr>fzShard = s, fzNum = n\<rparr>) (moved_on s n)"
  shows "fzErr (grp_FreezeShard sub) \<noteq> OK"
  using assms by (auto simp: answers_of_def grp_FreezeShard_def doFreezeShard_def Let_def)

text \<open>C36. A controller that works on an old configuration: its \<^verbatim>\<open>FreezeShard\<close> is refused with \<^verbatim>\<open>ErrMaybe\<close> by every
  server, and the clerk repeats the call forever. Its \<^verbatim>\<open>InstallShard\<close> and \<^verbatim>\<open>DeleteShard\<close> are refused
  as well and change nothing, but return \<^verbatim>\<open>OK\<close> at the first server that is the leader.\<close>

theorem stale_controller:
  assumes "gc_wf ck"
    and "\<And>n srv r. freeze n srv = Some r \<Longrightarrow>
      \<exists>sub \<in> answers_of (FreezeVal \<lparr>fzShard = s, fzNum = num\<rparr>) (moved_on s num). r = grp_FreezeShard sub"
    and "\<And>srv. install 0 srv = Some (grp_InstallShard (OK, Some v))"
    and "exec_maps (InstallVal \<lparr>isShard = s, isState = st, isNum = num\<rparr>) m = Some (m', v)" "moved_on s num m"
  shows "gc_FreezeShard freeze ck = None \<and>
    m' = m \<and> v = InstallRep \<lparr>isErr = ErrMaybe\<rparr> \<and>
    gc_InstallShard install ck = Some (Returned (ck\<lparr>gcLastLeader := gc_first ck\<rparr>, OK))"
proof -
  have srv: "gcServers ck \<noteq> []" "0 \<le> gc_first ck" "gc_first ck < go_len (gcServers ck)"
    using assms(1) gc_first_bounds [OF assms(1)] by (simp_all add: gc_wf_def)
  have "accepted (\<lambda>r. fzErr r = OK) freeze (gcServers ck) (gc_first ck) n = None" for n
    using assms(2) stale_freeze_reply by (fastforce simp: accepted_def split: option.splits)
  then have "gc_FreezeShard freeze ck = None"
    using retry_cases [OF srv, of "\<lambda>r. fzErr r = OK" freeze False] by (auto simp: gc_FreezeShard_def)
  moreover have "m' = m" "v = InstallRep \<lparr>isErr = ErrMaybe\<rparr>"
    using assms(4,5) by (auto simp: doInstallShard_def Let_def)
  moreover have "accepted (\<lambda>r. isErr r = OK) install (gcServers ck) (gc_first ck) 0 = Some \<lparr>isErr = OK\<rparr>"
    using assms(3) by (simp add: accepted_def grp_InstallShard_def)
  then have "gc_InstallShard install ck = Some (Returned (ck\<lparr>gcLastLeader := gc_first ck\<rparr>, OK))"
    using retry_accepted [OF srv, of 0 "\<lambda>r. isErr r = OK" install] srv
    by (simp add: gc_InstallShard_def)
  ultimately show ?thesis by blast
qed

theorem stale_controller_witness:
  "gc_FreezeShard (\<lambda>n srv. Some (grp_FreezeShard (OK, Some (snd (the (exec_maps (FreezeVal \<lparr>fzShard = 0, fzNum = 1\<rparr>)
      (empty_maps\<lparr>maxShardNum := [0 \<mapsto> 2]\<rparr>))))))) (grp_MakeClerk [''a'', ''b'']) = None"
proof -
  let ?m = "empty_maps\<lparr>maxShardNum := [0 \<mapsto> 2]\<rparr>"
  let ?freeze = "\<lambda>(n::nat) (srv::string). Some (grp_FreezeShard (OK, Some (snd (the (exec_maps (FreezeVal \<lparr>fzShard = 0, fzNum = 1\<rparr>) ?m)))))"
  have ex: "exec_maps (InstallVal \<lparr>isShard = 0, isState = NoJson, isNum = 1\<rparr>) ?m = Some (?m, InstallRep \<lparr>isErr = ErrMaybe\<rparr>)"
    by (simp add: doInstallShard_def Let_def)
  have "gc_wf (grp_MakeClerk [''a'', ''b''])" by (simp add: gc_wf_def grp_MakeClerk_def)
  moreover have "(OK, Some (snd (the (exec_maps (FreezeVal \<lparr>fzShard = 0, fzNum = 1\<rparr>) ?m))))
      \<in> answers_of (FreezeVal \<lparr>fzShard = 0, fzNum = 1\<rparr>) (moved_on 0 1)"
    unfolding answers_of_def by (rule UnI2, rule CollectI, rule exI [of _ ?m]) simp
  ultimately show ?thesis
    by (intro conjunct1 [OF stale_controller [of _ ?freeze 0 1
        "\<lambda>n srv. Some (grp_InstallShard (OK, Some (InstallRep \<lparr>isErr = ErrMaybe\<rparr>)))", OF _ _ _ ex]]) auto
qed

section \<open>Rounds of the sharded clerk\<close>

text \<open>What the clerk of the group of round \<open>r\<close> returns, if it does.\<close>

definition round_reply ::
  "(nat \<Rightarrow> ShardConfig option) \<Rightarrow> (nat \<Rightarrow> nat \<Rightarrow> string \<Rightarrow> GetReply option) \<Rightarrow> string \<Rightarrow> nat \<Rightarrow> GetReply option" where
  "round_reply query call key r =
     (case gc_Get (call r) (grp_MakeClerk (the (round_servers (query r) key))) of
        Some (Returned (ck, reply)) \<Rightarrow> Some reply
      | _ \<Rightarrow> None)"

lemma gc_Get_fresh:
  assumes "servers \<noteq> []"
  shows "gc_Get call (grp_MakeClerk servers) \<noteq> Some Panicked"
  by (rule retry_cases [of servers 0 "\<lambda>reply. getErr reply \<noteq> ErrWrongLeader" call False])
    (use assms in \<open>auto simp: gc_Get_def grp_MakeClerk_def gc_first_def\<close>)

lemma kv_Get_step:
  assumes "round_servers (query r) key = Some servers" "servers \<noteq> []"
  shows "kv_Get query call r key =
    (case round_reply query call key r of
       None \<Rightarrow> None
     | Some reply \<Rightarrow> if getErr reply = ErrWrongGroup then kv_Get query call (Suc r) key else Some (Returned reply))"
  using gc_Get_fresh [OF assms(2), of "call r"]
  by (subst kv_Get.simps) (auto simp: assms(1) round_reply_def split: outcome.splits Option.bind_splits)

lemma kv_Get_cases:
  assumes "kv_Get query call n key = Some res"
  shows "(\<forall>r. \<exists>servers. round_servers (query r) key = Some servers \<and> servers \<noteq> []) \<longrightarrow>
    (\<exists>R \<ge> n. \<exists>reply. (\<forall>r \<in> {n..<R}. \<exists>rep. round_reply query call key r = Some rep \<and> getErr rep = ErrWrongGroup) \<and>
       round_reply query call key R = Some reply \<and> getErr reply \<noteq> ErrWrongGroup \<and> res = Returned reply)"
proof (rule kv_Get.raw_induct [where P = "\<lambda>query call n key res.
      (\<forall>r. \<exists>servers. round_servers (query r) key = Some servers \<and> servers \<noteq> []) \<longrightarrow>
      (\<exists>R \<ge> n. \<exists>reply. (\<forall>r \<in> {n..<R}. \<exists>rep. round_reply query call key r = Some rep \<and> getErr rep = ErrWrongGroup) \<and>
         round_reply query call key R = Some reply \<and> getErr reply \<noteq> ErrWrongGroup \<and> res = Returned reply)", OF _ assms],
    intro impI, goal_cases)
  case (1 loop query call n key res)
  obtain servers where srv: "round_servers (query n) key = Some servers" "servers \<noteq> []" using 1(3) by blast
  obtain x where x: "gc_Get (call n) (grp_MakeClerk servers) = Some x"
    using 1(2) srv by (cases "gc_Get (call n) (grp_MakeClerk servers)") auto
  with gc_Get_fresh [OF srv(2), of "call n"] obtain ck reply where "x = Returned (ck, reply)" by (cases x) auto
  with x 1(2) srv have rep: "round_reply query call key n = Some reply"
    and res: "if getErr reply = ErrWrongGroup then loop query call (Suc n) key = Some res else res = Returned reply"
    by (auto simp: round_reply_def split: if_splits)
  show ?case
  proof (cases "getErr reply = ErrWrongGroup")
    case True
    with res 1(1) [of query call "Suc n" key res] 1(3) obtain R reply' where R: "R \<ge> Suc n"
      "\<forall>r \<in> {Suc n..<R}. \<exists>rep. round_reply query call key r = Some rep \<and> getErr rep = ErrWrongGroup"
      "round_reply query call key R = Some reply'" "getErr reply' \<noteq> ErrWrongGroup" "res = Returned reply'"
      by auto
    have "\<forall>r \<in> {n..<R}. \<exists>rep. round_reply query call key r = Some rep \<and> getErr rep = ErrWrongGroup"
      using R(1,2) rep True by (auto simp: Suc_le_eq le_less)
    with R show ?thesis by (metis Suc_leD)
  qed (use res rep in auto)
qed

lemma kv_Get_answered:
  assumes "\<forall>r. \<exists>servers. round_servers (query r) key = Some servers \<and> servers \<noteq> []"
    and "\<forall>r < R. \<exists>rep. round_reply query call key r = Some rep \<and> getErr rep = ErrWrongGroup"
    and "round_reply query call key R = Some reply" "getErr reply \<noteq> ErrWrongGroup"
  shows "kv_Get query call 0 key = Some (Returned reply)"
proof -
  have skip: "kv_Get query call 0 key = kv_Get query call n key" if "n \<le> R" for n
    using that
  proof (induction n)
    case (Suc n)
    obtain servers rep where "round_servers (query n) key = Some servers" "servers \<noteq> []"
      "round_reply query call key n = Some rep" "getErr rep = ErrWrongGroup"
      using assms(1,2) Suc.prems by (metis Suc_le_eq)
    with Suc kv_Get_step [of query n key servers call] show ?case by simp
  qed simp
  obtain servers where "round_servers (query R) key = Some servers" "servers \<noteq> []" using assms(1) by blast
  with skip [of R] kv_Get_step [of query R key servers call] assms(3,4) show ?thesis by simp
qed

text \<open>C35. \<^verbatim>\<open>Get\<close> of the sharded service: as long as the configurations it reads name servers for the key it does
  not panic, and it returns a reply exactly if that reply is what the group of some round returned
  after the groups of all earlier rounds had answered \<^verbatim>\<open>ErrWrongGroup\<close>.\<close>

theorem kv_Get_correct:
  assumes "\<forall>r. \<exists>servers. round_servers (query r) key = Some servers \<and> servers \<noteq> []"
  shows "kv_Get query call 0 key \<noteq> Some Panicked \<and>
    (\<forall>reply. kv_Get query call 0 key = Some (Returned reply) \<longleftrightarrow>
      (\<exists>R. (\<forall>r < R. \<exists>rep. round_reply query call key r = Some rep \<and> getErr rep = ErrWrongGroup) \<and>
         round_reply query call key R = Some reply \<and> getErr reply \<noteq> ErrWrongGroup))"
proof (intro conjI allI iffI)
  show "kv_Get query call 0 key \<noteq> Some Panicked"
    using kv_Get_cases [of query call 0 key Panicked] assms by auto
next
  fix reply assume "kv_Get query call 0 key = Some (Returned reply)"
  from kv_Get_cases [OF this] assms obtain R where
    "\<forall>r \<in> {0..<R}. \<exists>rep. round_reply query call key r = Some rep \<and> getErr rep = ErrWrongGroup"
    "round_reply query call key R = Some reply" "getErr reply \<noteq> ErrWrongGroup" by auto
  then show "\<exists>R. (\<forall>r < R. \<exists>rep. round_reply query call key r = Some rep \<and> getErr rep = ErrWrongGroup) \<and>
         round_reply query call key R = Some reply \<and> getErr reply \<noteq> ErrWrongGroup"
    by (intro exI [of _ R]) auto
qed (use kv_Get_answered [OF assms] in blast)

lemma retry_nil: "retry_loop accept call n i b [] = Some Panicked"
proof -
  have "go_index ([] :: string list) i = None" by (auto simp: go_index_eq_None_iff)
  then show ?thesis by (subst retry_loop.simps) simp
qed

lemma gc_Get_first:
  assumes "call 0 srv = Some r" "getErr r \<noteq> ErrWrongLeader"
  shows "gc_Get call (grp_MakeClerk [srv]) = Some (Returned (\<lparr>gcServers = [srv], gcLastLeader = 0\<rparr>, r))"
  using assms retry_accepted [of "[srv]" 0 0 "\<lambda>reply. getErr reply \<noteq> ErrWrongLeader" call r False]
  by (simp add: gc_Get_def grp_MakeClerk_def gc_first_def accepted_def nth_name_def)

lemma gc_Put_first:
  assumes "call 0 srv = Some r" "putErr r \<noteq> ErrWrongLeader"
  shows "gc_Put call (grp_MakeClerk [srv]) = Some (Returned (\<lparr>gcServers = [srv], gcLastLeader = 0\<rparr>, putErr r))"
  using assms retry_accepted [of "[srv]" 0 0 "\<lambda>reply. putErr reply \<noteq> ErrWrongLeader" call r False]
  by (simp add: gc_Put_def grp_MakeClerk_def gc_first_def accepted_def nth_name_def)

lemma gc_Put_second:
  assumes "call 0 srv = None" "call 1 srv = Some r" "putErr r = ErrWrongGroup"
  shows "gc_Put call (grp_MakeClerk [srv]) = Some (Returned (\<lparr>gcServers = [srv], gcLastLeader = 0\<rparr>, ErrWrongGroup))"
  using assms retry_accepted [of "[srv]" 0 1 "\<lambda>reply. putErr reply \<noteq> ErrWrongLeader" call r False]
  by (simp add: gc_Put_def grp_MakeClerk_def gc_first_def accepted_def nth_name_def)

definition one_group :: "string list \<Rightarrow> ShardConfig" where
  "one_group servers = \<lparr>Num = 1, Shards = replicate 12 1, Groups = [(1, servers)]\<rparr>"

lemma one_group_servers: "round_servers (Some (one_group servers)) key = Some servers"
  using Key2Shard_bounds [of key]
  by (simp add: round_servers_def one_group_def go_index_def go_len_def NShards_def)

theorem kv_Get_correct_witness:
  "kv_Get (\<lambda>r. Some (one_group [''a'']))
     (\<lambda>r n srv. Some \<lparr>getValue = ''v'', getVersion = 2, getErr = if r = 0 then ErrWrongGroup else OK\<rparr>) 0 ''x'' =
   Some (Returned \<lparr>getValue = ''v'', getVersion = 2, getErr = OK\<rparr>)"
proof -
  let ?q = "\<lambda>r::nat. Some (one_group [''a''])"
  let ?call = "\<lambda>(r::nat) (n::nat) (srv::string).
    Some \<lparr>getValue = ''v'', getVersion = 2, getErr = if r = 0 then ErrWrongGroup else OK\<rparr>"
  have "gc_Get (?call r) (grp_MakeClerk [''a'']) = Some (Returned (\<lparr>gcServers = [''a''], gcLastLeader = 0\<rparr>,
      \<lparr>getValue = ''v'', getVersion = 2, getErr = if r = 0 then ErrWrongGroup else OK\<rparr>))" for r
    by (intro gc_Get_first) simp_all
  then have reply: "round_reply ?q ?call ''x'' r =
      Some \<lparr>getValue = ''v'', getVersion = 2, getErr = if r = 0 then ErrWrongGroup else OK\<rparr>" for r
    by (simp add: round_reply_def one_group_servers)
  have "\<forall>r. \<exists>servers. round_servers (?q r) ''x'' = Some servers \<and> servers \<noteq> []"
    by (simp add: one_group_servers)
  from kv_Get_correct [OF this, of ?call] reply show ?thesis
    by (fastforce intro: exI [of _ "1::nat"])
qed

text \<open>C37. With no group left every shard belongs to group 0, which has no servers: \<^verbatim>\<open>Get\<close> and \<^verbatim>\<open>Put\<close> of any key then
  index an empty slice and panic.\<close>

theorem no_group_panics:
  assumes "cfg_wf c" "Groups c = []" "Rebalance c = Some c'" "query 0 = Some c'"
  shows "kv_Get query gcall 0 key = Some Panicked \<and> kv_Put query pcall 0 key = Some Panicked"
proof -
  have c': "same_groups c c'" "set (Shards c') = {0}"
    using Rebalance_spec [OF assms(1)] assms(2,3) by simp_all
  then have "go_len (Shards c') = NShards"
    using assms(1) by (simp add: same_groups_def cfg_wf_def go_len_def NShards_def)
  with c' Key2Shard_bounds [of key] assms(2) have "round_servers (query 0) key = Some []"
    by (simp add: assms(4) round_servers_def same_groups_def go_index_def)
  then show ?thesis
    by (subst kv_Get.simps, subst kv_Put.simps)
      (simp add: gc_Get_def gc_Put_def grp_MakeClerk_def gc_first_def retry_nil)
qed

theorem no_group_panics_witness:
  "\<exists>c'. Rebalance MakeShardConfig = Some c' \<and>
     kv_Get (\<lambda>r. Some c') (\<lambda>r n srv. None) 0 ''x'' = Some Panicked"
proof -
  have wf: "cfg_wf MakeShardConfig" "Groups MakeShardConfig = []"
    by (simp_all add: cfg_wf_def MakeShardConfig_def)
  obtain c' where c': "Rebalance MakeShardConfig = Some c'"
    using Rebalance_spec [OF wf(1)] by (auto elim!: returnsE)
  from no_group_panics [OF wf c', of "\<lambda>r. Some c'"] c' show ?thesis by blast
qed


end
