(* ===== verification/Strconv.thy ===== *)
theory Strconv
  imports Prelude
begin

text \<open>
  The part of \<^verbatim>\<open>strconv\<close> the code uses: \<^verbatim>\<open>Itoa\<close> prints an integer in decimal, \<^verbatim>\<open>Atoi\<close> reads one back. The
  result of \<^verbatim>\<open>Atoi\<close> on a string that is no number is \<open>None\<close>. Also the names of servers that
  \<^verbatim>\<open>lec-2025/src/tester1/group.go\<close> makes with them.
\<close>

section \<open>Decimal numbers\<close>

definition digit :: "nat \<Rightarrow> char" where
  "digit n = char_of (48 + n)"

fun digits :: "nat \<Rightarrow> string" where
  "digits n = (if n < 10 then [digit n] else digits (n div 10) @ [digit (n mod 10)])"

declare digits.simps [simp del]

definition Itoa :: "int \<Rightarrow> string" where
  "Itoa i = (if i < 0 then CHR ''-'' # digits (nat (- i)) else digits (nat i))"

definition is_digit :: "char \<Rightarrow> bool" where
  "is_digit c \<longleftrightarrow> (48 :: nat) \<le> of_char c \<and> of_char c < (58 :: nat)"

definition read_digits :: "string \<Rightarrow> nat option" where
  "read_digits s =
     (if s \<noteq> [] \<and> list_all is_digit s then Some (foldl (\<lambda>n c. 10 * n + (of_char c - 48)) 0 s) else None)"

fun Atoi_string :: "string \<Rightarrow> int option" where
  "Atoi_string (CHR ''-'' # s) = map_option (\<lambda>n. - int n) (read_digits s)"
| "Atoi_string (CHR ''+'' # s) = map_option int (read_digits s)"
| "Atoi_string s = map_option int (read_digits s)"

lemma of_char_digit: "n < 10 \<Longrightarrow> of_char (digit n) = (48 + n :: nat)"
  by (simp add: digit_def)

lemma is_digit_digit: "n < 10 \<Longrightarrow> is_digit (digit n)"
  by (simp add: is_digit_def of_char_digit)

lemma digits_ne [simp]: "digits n \<noteq> []"
  by (subst digits.simps) simp

lemma digits_are: "list_all is_digit (digits n)"
proof (induction n rule: digits.induct)
  case (1 n)
  then show ?case by (subst digits.simps) (simp add: is_digit_digit)
qed

lemma digits_value: "foldl (\<lambda>n c. 10 * n + (of_char c - 48)) 0 (digits n) = n"
proof (induction n rule: digits.induct)
  case (1 n)
  then show ?case by (subst digits.simps) (simp add: of_char_digit)
qed

lemma read_digits_digits: "read_digits (digits n) = Some n"
  by (simp add: read_digits_def digits_are digits_value)

lemma digits_head: "hd (digits n) \<noteq> CHR ''-''" "hd (digits n) \<noteq> CHR ''+''"
proof -
  have "is_digit (hd (digits n))" using digits_are [of n] by (cases "digits n") simp_all
  then show "hd (digits n) \<noteq> CHR ''-''" "hd (digits n) \<noteq> CHR ''+''" by (auto simp: is_digit_def)
qed

lemma Atoi_Itoa: "Atoi_string (Itoa i) = Some i"
proof (cases "i < 0")
  case True
  then show ?thesis by (simp add: Itoa_def read_digits_digits)
next
  case False
  obtain c s where cs: "digits (nat i) = c # s" by (cases "digits (nat i)") auto
  with digits_head [of "nat i"] have "c \<noteq> CHR ''-''" "c \<noteq> CHR ''+''" by simp_all
  then have "Atoi_string (c # s) = map_option int (read_digits (c # s))"
    by (cases "c # s" rule: Atoi_string.cases) simp_all
  then show ?thesis using False read_digits_digits [of "nat i"] by (simp add: Itoa_def cs)
qed

lemma Itoa_inj: "Itoa i = Itoa j \<longleftrightarrow> i = j"
  using Atoi_Itoa [of i] Atoi_Itoa [of j] by (metis option.inject)

section \<open>Names of servers\<close>

definition ServerName :: "int \<Rightarrow> int \<Rightarrow> string" where
  "ServerName gid i = ''server-'' @ Itoa gid @ ''-'' @ Itoa i"

definition SrvNames :: "nat \<Rightarrow> int \<Rightarrow> string list" where
  "SrvNames n gid = map (\<lambda>i. ServerName gid (int i)) [0..<n]"

lemma inj_SrvNames: "inj (SrvNames (Suc n))"
proof
  fix g h assume "SrvNames (Suc n) g = SrvNames (Suc n) h"
  then have "hd (SrvNames (Suc n) g) = hd (SrvNames (Suc n) h)" by simp
  then have "ServerName g 0 = ServerName h 0" by (simp add: SrvNames_def upt_rec del: upt_Suc)
  then show "g = h" by (simp add: ServerName_def Itoa_inj)
qed

lemma SrvNames_ne: "SrvNames (Suc n) g \<noteq> []"
  by (simp add: SrvNames_def)

end
