(* ===== verification/ShardCtrler.thy ===== *)
theory ShardCtrler
  imports ShardGrp_Clerk Strconv
begin

text \<open>
  \<^verbatim>\<open>lec-2025/src/shardkv1/shardctrler/shardctrler.go\<close>: the controller that stores configurations in a
  replicated key/value service and moves shards between groups. Its methods are programs (\<open>ctl\<close>) that
  call one RPC after the other, so that other controllers, clients and crashes can come in between:
  a constructor for each call of a clerk, with the rest of the method as a function of the result.
  \<open>Fatal\<close> is \<^verbatim>\<open>log.Fatalf\<close> or a panic. Every method takes the program that follows it.
\<close>

section \<open>Programs\<close>

text \<open>The strings the controller stores: a number as \<^verbatim>\<open>fmt.Sprint\<close> prints it, a configuration as
  \<^verbatim>\<open>String\<close> encodes it, and the empty string that a failed \<^verbatim>\<open>Get\<close> returns. Keys are \<^verbatim>\<open>latest\<close> and
  \<^verbatim>\<open>config-\<close> followed by a string.\<close>

datatype ctl_val = VNum int | VCfg ShardConfig | VEmpty

datatype ctl_key = Latest | ConfigOf ctl_val

fun Atoi :: "ctl_val \<Rightarrow> int" where
  "Atoi (VNum n) = n"
| "Atoi _ = 0"

fun FromString :: "ctl_val \<Rightarrow> ShardConfig option" where
  "FromString (VCfg c) = Some c"
| "FromString _ = None"

datatype ctl =
    Done
  | Fatal
  | CGet ctl_key "ctl_val \<times> Tversion \<times> Err \<Rightarrow> ctl"
  | CPut ctl_key ctl_val Tversion "Err \<Rightarrow> ctl"
  | CFreeze "string list" int int "shard_bytes \<times> Err \<Rightarrow> ctl"
  | CInstall "string list" int shard_bytes int "Err \<Rightarrow> ctl"
  | CDelete "string list" int int "Err \<Rightarrow> ctl"

definition Query :: "(ShardConfig option \<Rightarrow> ctl) \<Rightarrow> ctl" where
  "Query k =
     CGet Latest (\<lambda>(latestVer, _, err).
       if err \<noteq> OK then k None
       else CGet (ConfigOf latestVer) (\<lambda>(configValue, _, err).
         if err \<noteq> OK then k None
         else case FromString configValue of None \<Rightarrow> Fatal | Some cfg \<Rightarrow> k (Some cfg)))"

definition getServersForGroup :: "int \<Rightarrow> (string list \<Rightarrow> ctl) \<Rightarrow> ctl" where
  "getServersForGroup gid k =
     Query (\<lambda>cfg.
       case cfg of
         None \<Rightarrow> Fatal
       | Some c \<Rightarrow> k (case map_of (Groups c) gid of Some servers \<Rightarrow> servers | None \<Rightarrow> []))"

definition migrateShard :: "int \<Rightarrow> int \<Rightarrow> int \<Rightarrow> int \<Rightarrow> ShardConfig \<Rightarrow> ctl \<Rightarrow> ctl" where
  "migrateShard fromGid toGid shard num new k =
     (let move =
        getServersForGroup fromGid (\<lambda>servers.
          CFreeze servers shard num (\<lambda>(st, err).
            if err \<noteq> OK then Fatal
            else case map_of (Groups new) toGid of
              None \<Rightarrow> Fatal
            | Some toServers \<Rightarrow>
                CInstall toServers shard st num (\<lambda>err.
                  if err \<noteq> OK then Fatal
                  else CDelete servers shard num (\<lambda>err. if err \<noteq> OK then Fatal else k))))
      in Query (\<lambda>currentCfg.
        case currentCfg of
          None \<Rightarrow> move
        | Some c \<Rightarrow>
            (case go_index (Shards c) shard of
               None \<Rightarrow> Fatal
             | Some currentGid \<Rightarrow> if currentGid \<noteq> fromGid then k else move)))"

definition removeShard :: "int \<Rightarrow> int \<Rightarrow> int \<Rightarrow> ctl \<Rightarrow> ctl" where
  "removeShard gid shard num k =
     getServersForGroup gid (\<lambda>servers. CDelete servers shard num (\<lambda>err. if err \<noteq> OK then Fatal else k))"

text \<open>The loop over the shards, the same in \<^verbatim>\<open>ChangeConfigTo\<close> and \<^verbatim>\<open>InitController\<close>.\<close>

fun move_shards :: "int list \<Rightarrow> ShardConfig \<Rightarrow> ShardConfig \<Rightarrow> ctl \<Rightarrow> ctl" where
  "move_shards [] old new k = k"
| "move_shards (shard # rest) old new k =
     (case (go_index (Shards old) shard, go_index (Shards new) shard) of
        (Some oldGid, Some newGid) \<Rightarrow>
          if oldGid = newGid then move_shards rest old new k
          else if oldGid \<noteq> 0 \<and> newGid \<noteq> 0
          then migrateShard oldGid newGid shard (Num new) new (move_shards rest old new k)
          else if oldGid \<noteq> 0 then removeShard oldGid shard (Num new) (move_shards rest old new k)
          else move_shards rest old new k
      | _ \<Rightarrow> Fatal)"

definition all_shards :: "int list" where
  "all_shards = [0..NShards - 1]"

text \<open>The loop that looks for the highest configuration that was stored but not completed; \<open>n\<close> candidates
  are left, the next one is \<open>i\<close>.\<close>

fun find_next :: "nat \<Rightarrow> int \<Rightarrow> int \<Rightarrow> int \<Rightarrow> ctl_val \<Rightarrow> (int \<Rightarrow> ctl_val \<Rightarrow> ctl) \<Rightarrow> ctl" where
  "find_next 0 i latestNum nextNum nextValue k = k nextNum nextValue"
| "find_next (Suc n) i latestNum nextNum nextValue k =
     CGet (ConfigOf (VNum (latestNum + i))) (\<lambda>(v, _, err).
       if err = OK then find_next n (i + 1) latestNum (latestNum + i) v k
       else k nextNum nextValue)"

definition InitController :: "ctl \<Rightarrow> ctl" where
  "InitController k =
     CGet Latest (\<lambda>(latestVer, _, err).
       if err \<noteq> OK then k
       else find_next 100 1 (Atoi latestVer) 0 VEmpty (\<lambda>nextNum nextConfigValue.
         if nextNum = 0 then k
         else case FromString nextConfigValue of
           None \<Rightarrow> Fatal
         | Some newCfg \<Rightarrow>
             Query (\<lambda>oldCfg.
               case oldCfg of
                 None \<Rightarrow> k
               | Some old \<Rightarrow>
                   CGet Latest (\<lambda>(_, latestVersion, _).
                     move_shards all_shards old newCfg
                       (CPut Latest (VNum nextNum) latestVersion (\<lambda>err. k))))))"

definition InitConfig :: "ShardConfig \<Rightarrow> ctl \<Rightarrow> ctl" where
  "InitConfig cfg k =
     CPut (ConfigOf (VNum (Num cfg))) (VCfg cfg) 0 (\<lambda>err. CPut Latest (VNum (Num cfg)) 0 (\<lambda>err. k))"

definition ChangeConfigTo :: "ShardConfig \<Rightarrow> ctl \<Rightarrow> ctl" where
  "ChangeConfigTo new k =
     Query (\<lambda>cfg.
       case cfg of
         None \<Rightarrow> k
       | Some old \<Rightarrow>
           if Num old \<ge> Num new then k
           else CPut (ConfigOf (VNum (Num new))) (VCfg new) 0 (\<lambda>err.
             if err \<noteq> OK \<and> err \<noteq> ErrMaybe then k
             else CGet Latest (\<lambda>(latestVer, latestVersion, _).
               CGet Latest (\<lambda>(latestVer2, _, _).
                 if latestVer2 \<noteq> latestVer \<and> Atoi latestVer2 \<ge> Num new then k
                 else if Atoi latestVer2 \<ge> Num new then k
                 else move_shards all_shards old new
                        (CPut Latest (VNum (Num new)) latestVersion (\<lambda>err. k))))))"

text \<open>A controller is a clerk of the replicated service, whose three servers are those of group 0.\<close>

definition MakeShardCtrler :: "string list \<times> Clerk" where
  "MakeShardCtrler = (let servers = map (ServerName 0) [0..2] in (servers, MakeClerk (go_len servers)))"

section \<open>What the calls do\<close>

text \<open>The configuration service and the groups, by the names of their servers. The controller sees a call of
  a clerk as one step. A call of \<^verbatim>\<open>Put\<close> whose first reply was lost (\<open>lost\<close>) returns \<^verbatim>\<open>ErrMaybe\<close>:
  its second execution finds the version raised, or again a wrong version. \<^verbatim>\<open>FreezeShard\<close> repeats the
  call until it is answered \<^verbatim>\<open>OK\<close>; \<^verbatim>\<open>InstallShard\<close> and \<^verbatim>\<open>DeleteShard\<close> always are.\<close>

record world =
  store :: "ctl_key \<rightharpoonup> ctl_val \<times> Tversion"
  groups :: "string list \<Rightarrow> shard_maps"

definition store_put :: "ctl_key \<Rightarrow> ctl_val \<Rightarrow> Tversion \<Rightarrow> world \<Rightarrow> world \<times> Err" where
  "store_put key v ver w =
     (case store w key of
        None \<Rightarrow> if ver = 0 then (w\<lparr>store := (store w)(key \<mapsto> (v, 1))\<rparr>, OK) else (w, ErrVersion)
      | Some (_, cur) \<Rightarrow>
          if ver \<noteq> cur then (w, ErrVersion) else (w\<lparr>store := (store w)(key \<mapsto> (v, cur + 1))\<rparr>, OK))"

definition set_group :: "string list \<Rightarrow> shard_maps \<Rightarrow> world \<Rightarrow> world" where
  "set_group servers m w = w\<lparr>groups := (groups w)(servers := m)\<rparr>"

fun ctl_step :: "bool \<Rightarrow> ctl \<Rightarrow> world \<Rightarrow> (world \<times> ctl) option" where
  "ctl_step lost Done w = Some (w, Done)"
| "ctl_step lost Fatal w = None"
| "ctl_step lost (CGet key k) w =
     (case store w key of
        None \<Rightarrow> Some (w, k (VEmpty, 0, ErrNoKey))
      | Some (v, ver) \<Rightarrow> Some (w, k (v, ver, OK)))"
| "ctl_step lost (CPut key v ver k) w =
     (let (w', err) = store_put key v ver w in Some (w', k (if lost then ErrMaybe else err)))"
| "ctl_step lost (CFreeze servers s n k) w =
     (if servers = [] then None
      else let (m, r) = doFreezeShard \<lparr>fzShard = s, fzNum = n\<rparr> (groups w servers);
               w' = set_group servers m w
           in if fzErr r = OK then Some (w', k (fzState r, OK)) else Some (w', CFreeze servers s n k))"
| "ctl_step lost (CInstall servers s st n k) w =
     (if servers = [] then None
      else let (m, r) = doInstallShard \<lparr>isShard = s, isState = st, isNum = n\<rparr> (groups w servers)
           in Some (set_group servers m w, k (isErr (grp_InstallShard (OK, Some (InstallRep r))))))"
| "ctl_step lost (CDelete servers s n k) w =
     (if servers = [] then None
      else let (m, r) = doDeleteShard \<lparr>dsShard = s, dsNum = n\<rparr> (groups w servers)
           in Some (set_group servers m w, k (dsErr (grp_DeleteShard (OK, Some (DeleteRep r))))))"

end
