(* ===== verification/ShardSys.thy ===== *)
theory ShardSys
  imports ShardCtrler
begin

text \<open>
  The sharded service as a whole: groups, a controller that may crash at any call and is started again,
  clients that may hold an old configuration, and requests of the controller that arrive again later.
  The main result is that sharding is invisible: what clients get from all groups together is what one
  key/value store would answer.
\<close>

section \<open>The system\<close>

record shard_sys =
  sysWorld :: world
  sysProg :: ctl
  sysIssued :: "(string list \<times> grp_req) list"
  sysPublished :: "ShardConfig list"

datatype shard_event =
    ECtl bool
  | ERestart
  | EChange ShardConfig
  | EClient int grp_req
  | ERedo nat

text \<open>The request that a step of the controller sends to a group.\<close>

fun sent :: "ctl \<Rightarrow> (string list \<times> grp_req) list" where
  "sent (CFreeze servers s n k) = [(servers, FreezeVal \<lparr>fzShard = s, fzNum = n\<rparr>)]"
| "sent (CInstall servers s st n k) = [(servers, InstallVal \<lparr>isShard = s, isState = st, isNum = n\<rparr>)]"
| "sent (CDelete servers s n k) = [(servers, DeleteVal \<lparr>dsShard = s, dsNum = n\<rparr>)]"
| "sent _ = []"

text \<open>The configuration that \<^verbatim>\<open>Query\<close> would return.\<close>

definition current :: "world \<Rightarrow> ShardConfig option" where
  "current w =
     (case store w Latest of
        Some (v, _) \<Rightarrow> (case store w (ConfigOf v) of Some (VCfg c, _) \<Rightarrow> Some c | _ \<Rightarrow> None)
      | None \<Rightarrow> None)"

definition publish :: "world \<Rightarrow> ShardConfig list \<Rightarrow> ShardConfig list" where
  "publish w cs = (case current w of None \<Rightarrow> cs | Some c \<Rightarrow> c # cs)"

definition exec_at :: "string list \<Rightarrow> grp_req \<Rightarrow> world \<Rightarrow> (world \<times> grp_rep) option" where
  "exec_at servers q w = do { (m, r) \<leftarrow> exec_maps q (groups w servers); Some (set_group servers m w, r) }"

text \<open>One step: a call of the controller, a crash after which a new controller starts with its recovery, a
  change of the configuration by a controller that has nothing left to do, a request of a client to
  the group \<open>gid\<close>, or a request of the controller that a group executes again. Replies of clients other
  than \<^verbatim>\<open>ErrWrongGroup\<close>, on which they read the configuration again, are reported.\<close>

fun shard_step ::
  "(int \<Rightarrow> string list) \<Rightarrow> shard_event \<Rightarrow> shard_sys \<Rightarrow> (shard_sys \<times> (grp_req \<times> grp_rep) list) option" where
  "shard_step srv (ECtl lost) s =
     do { (w, p) \<leftarrow> ctl_step lost (sysProg s) (sysWorld s);
          Some (s\<lparr>sysWorld := w, sysProg := p, sysIssued := sysIssued s @ sent (sysProg s),
                  sysPublished := publish w (sysPublished s)\<rparr>, []) }"
| "shard_step srv ERestart s = Some (s\<lparr>sysProg := InitController Done\<rparr>, [])"
| "shard_step srv (EChange new) s =
     (case sysProg s of
        Done \<Rightarrow> Some (s\<lparr>sysProg := ChangeConfigTo new Done\<rparr>, [])
      | _ \<Rightarrow> Some (s, []))"
| "shard_step srv (EClient gid q) s =
     do { (w, r) \<leftarrow> exec_at (srv gid) q (sysWorld s);
          Some (s\<lparr>sysWorld := w\<rparr>, if grp_err r = ErrWrongGroup then [] else [(q, r)]) }"
| "shard_step srv (ERedo i) s =
     (if i < length (sysIssued s)
      then do { (w, r) \<leftarrow> exec_at (fst (sysIssued s ! i)) (snd (sysIssued s ! i)) (sysWorld s);
                Some (s\<lparr>sysWorld := w\<rparr>, []) }
      else Some (s, []))"

text \<open>Configurations name, for every shard, a group with its servers; \<open>srv\<close> are the servers of a group.\<close>

definition cfg_ok :: "(int \<Rightarrow> string list) \<Rightarrow> ShardConfig \<Rightarrow> bool" where
  "cfg_ok srv c \<longleftrightarrow> length (Shards c) = nat NShards \<and>
     list_all (\<lambda>g. g \<noteq> 0 \<and> map_of (Groups c) g = Some (srv g)) (Shards c)"

text \<open>What the environment keeps to: a new configuration has the next number, and a client asks the group
  that owns the shard of its key in a configuration that was current at some time.\<close>

fun shard_ok :: "(int \<Rightarrow> string list) \<Rightarrow> shard_event \<Rightarrow> shard_sys \<Rightarrow> bool" where
  "shard_ok srv (EChange new) s \<longleftrightarrow>
     cfg_ok srv new \<and> list_all (\<lambda>c. Num new \<ge> Num c + 1) (sysPublished s) \<and>
     list_ex (\<lambda>c. Num new = Num c + 1) (sysPublished s)"
| "shard_ok srv (EClient gid q) s \<longleftrightarrow>
     (case op_key q of
        None \<Rightarrow> False
      | Some key \<Rightarrow> list_ex (\<lambda>c. go_index (Shards c) (Key2Shard key) = Some gid) (sysPublished s))"
| "shard_ok srv _ s \<longleftrightarrow> True"

section \<open>Where a migration stands\<close>

datatype shard_stage = Resting | Frozen "string \<rightharpoonup> ValueEntry" | Installed | Moved

record phase =
  cur :: ShardConfig
  curVersion :: Tversion
  pending :: "ShardConfig option"
  stage :: "int \<Rightarrow> shard_stage"

definition old_gid :: "phase \<Rightarrow> int \<Rightarrow> int" where
  "old_gid \<sigma> s = Shards (cur \<sigma>) ! nat s"

definition new_gid :: "phase \<Rightarrow> int \<Rightarrow> int" where
  "new_gid \<sigma> s = (case pending \<sigma> of None \<Rightarrow> old_gid \<sigma> s | Some c \<Rightarrow> Shards c ! nat s)"

text \<open>The group whose data of the shard is current.\<close>

definition holder :: "phase \<Rightarrow> int \<Rightarrow> int" where
  "holder \<sigma> s = (case stage \<sigma> s of Installed \<Rightarrow> new_gid \<sigma> s | Moved \<Rightarrow> new_gid \<sigma> s | _ \<Rightarrow> old_gid \<sigma> s)"

abbreviation next_num :: "phase \<Rightarrow> int" where
  "next_num \<sigma> \<equiv> Num (cur \<sigma>) + 1"

definition is_shard :: "int \<Rightarrow> bool" where
  "is_shard s \<longleftrightarrow> 0 \<le> s \<and> s < NShards"

definition phase_ok :: "(int \<Rightarrow> string list) \<Rightarrow> phase \<Rightarrow> bool" where
  "phase_ok srv \<sigma> \<longleftrightarrow> cfg_ok srv (cur \<sigma>) \<and> 0 \<le> Num (cur \<sigma>) \<and>
     (case pending \<sigma> of
        None \<Rightarrow> \<forall>s. stage \<sigma> s = Resting
      | Some c \<Rightarrow> cfg_ok srv c \<and> Num c = next_num \<sigma>) \<and>
     (\<forall>s. stage \<sigma> s \<noteq> Resting \<longrightarrow> old_gid \<sigma> s \<noteq> new_gid \<sigma> s)"

text \<open>What a read of the configuration service returns in a phase. Configurations before the current one
  are not read, so nothing is said of them.\<close>

fun reads :: "phase \<Rightarrow> ctl_key \<Rightarrow> ctl_val \<times> Tversion \<times> Err \<Rightarrow> bool" where
  "reads \<sigma> Latest r \<longleftrightarrow> r = (VNum (Num (cur \<sigma>)), curVersion \<sigma>, OK)"
| "reads \<sigma> (ConfigOf v) r \<longleftrightarrow>
     (v = VNum (Num (cur \<sigma>)) \<longrightarrow> (\<exists>ver. r = (VCfg (cur \<sigma>), ver, OK))) \<and>
     (v = VNum (next_num \<sigma>) \<longrightarrow>
        (case pending \<sigma> of None \<Rightarrow> r = (VEmpty, 0, ErrNoKey) | Some c \<Rightarrow> \<exists>ver. r = (VCfg c, ver, OK))) \<and>
     (\<forall>n. v = VNum n \<and> n > next_num \<sigma> \<longrightarrow> r = (VEmpty, 0, ErrNoKey))"

definition store_read :: "world \<Rightarrow> ctl_key \<Rightarrow> ctl_val \<times> Tversion \<times> Err" where
  "store_read w key = (case store w key of None \<Rightarrow> (VEmpty, 0, ErrNoKey) | Some (v, ver) \<Rightarrow> (v, ver, OK))"

definition store_ok :: "phase \<Rightarrow> world \<Rightarrow> bool" where
  "store_ok \<sigma> w \<longleftrightarrow> (\<forall>key. reads \<sigma> key (store_read w key))"

text \<open>The configuration change is complete.\<close>

definition complete :: "ShardConfig \<Rightarrow> phase \<Rightarrow> phase" where
  "complete c \<sigma> = \<lparr>cur = c, curVersion = curVersion \<sigma> + 1, pending = None, stage = \<lambda>s. Resting\<rparr>"

abbreviation at_stage :: "int \<Rightarrow> shard_stage \<Rightarrow> phase \<Rightarrow> phase" where
  "at_stage s st \<sigma> \<equiv> \<sigma>\<lparr>stage := (stage \<sigma>)(s := st)\<rparr>"

text \<open>The calls that a controller may make in a phase, and that it goes on correctly from every result.\<close>

primrec ctl_ok :: "ctl \<Rightarrow> (int \<Rightarrow> string list) \<Rightarrow> phase \<Rightarrow> bool" where
  "ctl_ok Done = (\<lambda>srv \<sigma>. pending \<sigma> = None)"
| "ctl_ok Fatal = (\<lambda>srv \<sigma>. False)"
| "ctl_ok (CGet key k) = (\<lambda>srv \<sigma>. \<forall>r. reads \<sigma> key r \<longrightarrow> ctl_ok (k r) srv \<sigma>)"
| "ctl_ok (CPut key v ver k) = (\<lambda>srv \<sigma>.
     (\<exists>c. key = ConfigOf (VNum (next_num \<sigma>)) \<and> v = VCfg c \<and> ver = 0 \<and> pending \<sigma> = None \<and>
          cfg_ok srv c \<and> Num c = next_num \<sigma> \<and> (\<forall>e \<in> {OK, ErrMaybe}. ctl_ok (k e) srv (\<sigma>\<lparr>pending := Some c\<rparr>))) \<or>
     (\<exists>c. key = Latest \<and> pending \<sigma> = Some c \<and> v = VNum (next_num \<sigma>) \<and> ver = curVersion \<sigma> \<and>
          (\<forall>s. is_shard s \<and> old_gid \<sigma> s \<noteq> new_gid \<sigma> s \<longrightarrow> stage \<sigma> s = Moved) \<and>
          (\<forall>e. ctl_ok (k e) srv (complete c \<sigma>))))"
| "ctl_ok (CFreeze servers s n k) = (\<lambda>srv \<sigma>.
     is_shard s \<and> pending \<sigma> \<noteq> None \<and> n = next_num \<sigma> \<and> servers = srv (old_gid \<sigma> s) \<and> old_gid \<sigma> s \<noteq> new_gid \<sigma> s \<and>
     (case stage \<sigma> s of
        Resting \<Rightarrow> \<forall>d. ctl_ok (k (JsonMap d, OK)) srv (at_stage s (Frozen d) \<sigma>)
      | Frozen d \<Rightarrow> ctl_ok (k (JsonMap d, OK)) srv \<sigma>
      | _ \<Rightarrow> \<forall>d. ctl_ok (k (JsonMap d, OK)) srv \<sigma>))"
| "ctl_ok (CInstall servers s st n k) = (\<lambda>srv \<sigma>.
     is_shard s \<and> pending \<sigma> \<noteq> None \<and> n = next_num \<sigma> \<and> servers = srv (new_gid \<sigma> s) \<and> old_gid \<sigma> s \<noteq> new_gid \<sigma> s \<and>
     (case stage \<sigma> s of
        Resting \<Rightarrow> False
      | Frozen d \<Rightarrow> st = JsonMap d \<and> ctl_ok (k OK) srv (at_stage s Installed \<sigma>)
      | _ \<Rightarrow> ctl_ok (k OK) srv \<sigma>))"
| "ctl_ok (CDelete servers s n k) = (\<lambda>srv \<sigma>.
     is_shard s \<and> pending \<sigma> \<noteq> None \<and> n = next_num \<sigma> \<and> servers = srv (old_gid \<sigma> s) \<and> old_gid \<sigma> s \<noteq> new_gid \<sigma> s \<and>
     (stage \<sigma> s = Installed \<or> stage \<sigma> s = Moved) \<and> ctl_ok (k OK) srv (at_stage s Moved \<sigma>))"

section \<open>The controller keeps to it\<close>

lemma at_stage_gids [simp]:
  "old_gid (\<sigma>\<lparr>stage := f\<rparr>) s = old_gid \<sigma> s" "new_gid (\<sigma>\<lparr>stage := f\<rparr>) s = new_gid \<sigma> s"
  by (simp_all add: old_gid_def new_gid_def split: option.splits)

lemma gids_cong:
  "cur \<sigma>' = cur \<sigma> \<Longrightarrow> pending \<sigma>' = pending \<sigma> \<Longrightarrow> old_gid \<sigma>' s = old_gid \<sigma> s \<and> new_gid \<sigma>' s = new_gid \<sigma> s"
  by (simp add: old_gid_def new_gid_def split: option.splits)

lemma ctl_ok_Query: "ctl_ok (k (Some (cur \<sigma>))) srv \<sigma> \<Longrightarrow> ctl_ok (Query k) srv \<sigma>"
  by (auto simp: Query_def)

lemma cfg_ok_index:
  assumes "cfg_ok srv c" "is_shard s"
  shows "go_index (Shards c) s = Some (Shards c ! nat s)" "Shards c ! nat s \<noteq> 0"
    "map_of (Groups c) (Shards c ! nat s) = Some (srv (Shards c ! nat s))"
proof -
  have "nat s < length (Shards c)" "0 \<le> s" using assms by (auto simp: cfg_ok_def is_shard_def NShards_def)
  then show "go_index (Shards c) s = Some (Shards c ! nat s)" "Shards c ! nat s \<noteq> 0"
    "map_of (Groups c) (Shards c ! nat s) = Some (srv (Shards c ! nat s))"
    using assms by (auto simp: cfg_ok_def list_all_length go_index_def go_len_def)
qed

lemma ctl_ok_getServers:
  assumes "phase_ok srv \<sigma>" "is_shard s" "ctl_ok (k (srv (old_gid \<sigma> s))) srv \<sigma>"
  shows "ctl_ok (getServersForGroup (old_gid \<sigma> s) k) srv \<sigma>"
proof -
  have "map_of (Groups (cur \<sigma>)) (old_gid \<sigma> s) = Some (srv (old_gid \<sigma> s))"
    unfolding old_gid_def by (rule cfg_ok_index) (use assms in \<open>simp_all add: phase_ok_def\<close>)
  then show ?thesis unfolding getServersForGroup_def using assms(3) by (intro ctl_ok_Query) simp
qed

lemma ctl_ok_migrateShard:
  assumes "phase_ok srv \<sigma>" "pending \<sigma> = Some new" "is_shard s" "old_gid \<sigma> s \<noteq> new_gid \<sigma> s"
    and "ctl_ok k srv (at_stage s Moved \<sigma>)"
  shows "ctl_ok (migrateShard (old_gid \<sigma> s) (new_gid \<sigma> s) s (next_num \<sigma>) new k) srv \<sigma>"
proof -
  have new: "map_of (Groups new) (new_gid \<sigma> s) = Some (srv (new_gid \<sigma> s))"
    using cfg_ok_index(3) [of srv new s] assms(1-3) by (simp add: phase_ok_def new_gid_def)
  have cur: "go_index (Shards (cur \<sigma>)) s = Some (old_gid \<sigma> s)"
    using cfg_ok_index(1) [of srv "cur \<sigma>" s] assms(1,3) by (simp add: phase_ok_def old_gid_def)
  let ?del = "CDelete (srv (old_gid \<sigma> s)) s (next_num \<sigma>) (\<lambda>err. if err \<noteq> OK then Fatal else k)"
  let ?inst = "\<lambda>st. CInstall (srv (new_gid \<sigma> s)) s st (next_num \<sigma>) (\<lambda>err. if err \<noteq> OK then Fatal else ?del)"
  have del: "ctl_ok ?del srv (at_stage s st \<sigma>)" if "st = Installed \<or> st = Moved" for st
    using assms that by auto
  have del': "ctl_ok ?del srv \<sigma>" if "stage \<sigma> s = Installed \<or> stage \<sigma> s = Moved"
    using assms that by auto
  have "ctl_ok (?inst (JsonMap d)) srv (at_stage s (Frozen d) \<sigma>)" for d
    using assms del [of Installed] by simp
  moreover have "ctl_ok (?inst (JsonMap d)) srv \<sigma>"
    if "stage \<sigma> s = Frozen d \<or> stage \<sigma> s = Installed \<or> stage \<sigma> s = Moved" for d
    using that assms del [of Installed] del' by auto
  ultimately have "ctl_ok (CFreeze (srv (old_gid \<sigma> s)) s (next_num \<sigma>) (\<lambda>(st, err). if err \<noteq> OK then Fatal
      else case map_of (Groups new) (new_gid \<sigma> s) of None \<Rightarrow> Fatal | Some toServers \<Rightarrow>
        CInstall toServers s st (next_num \<sigma>) (\<lambda>err. if err \<noteq> OK then Fatal else ?del))) srv \<sigma>"
    using assms(2-4) new by (cases "stage \<sigma> s") auto
  then show ?thesis
    unfolding migrateShard_def Let_def
    by (intro ctl_ok_Query) (simp add: cur ctl_ok_getServers [OF assms(1,3)])
qed

lemma phase_ok_at_stage:
  "phase_ok srv \<sigma> \<Longrightarrow> old_gid \<sigma> s \<noteq> new_gid \<sigma> s \<Longrightarrow> pending \<sigma> \<noteq> None \<Longrightarrow> phase_ok srv (at_stage s st \<sigma>)"
  by (auto simp: phase_ok_def split: option.splits)

text \<open>A phase of the same configuration change in which at least the given shards have moved.\<close>

definition moved_from :: "(int \<Rightarrow> string list) \<Rightarrow> int set \<Rightarrow> phase \<Rightarrow> phase \<Rightarrow> bool" where
  "moved_from srv S \<sigma> \<sigma>' \<longleftrightarrow> phase_ok srv \<sigma>' \<and> cur \<sigma>' = cur \<sigma> \<and> pending \<sigma>' = pending \<sigma> \<and> curVersion \<sigma>' = curVersion \<sigma> \<and>
     (\<forall>s. s \<in> S \<and> old_gid \<sigma> s \<noteq> new_gid \<sigma> s \<or> stage \<sigma> s = Moved \<longrightarrow> stage \<sigma>' s = Moved)"

lemma moved_from_step:
  assumes "moved_from srv (set ss) (at_stage s Moved \<sigma>) \<sigma>'"
  shows "moved_from srv (set (s # ss)) \<sigma> \<sigma>'"
proof -
  have h: "t \<in> set ss \<and> old_gid (at_stage s Moved \<sigma>) t \<noteq> new_gid (at_stage s Moved \<sigma>) t \<or>
      stage (at_stage s Moved \<sigma>) t = Moved \<longrightarrow> stage \<sigma>' t = Moved" for t
    using assms unfolding moved_from_def by blast
  have "stage \<sigma>' t = Moved" if "t \<in> set (s # ss) \<and> old_gid \<sigma> t \<noteq> new_gid \<sigma> t \<or> stage \<sigma> t = Moved" for t
    using h [of t] that by (cases "t = s") auto
  with assms show ?thesis unfolding moved_from_def by simp
qed

lemma moved_from_skip:
  assumes "moved_from srv (set ss) \<sigma> \<sigma>'" "old_gid \<sigma> s = new_gid \<sigma> s"
  shows "moved_from srv (set (s # ss)) \<sigma> \<sigma>'"
proof -
  have "stage \<sigma>' t = Moved" if "t \<in> set (s # ss) \<and> old_gid \<sigma> t \<noteq> new_gid \<sigma> t \<or> stage \<sigma> t = Moved" for t
    using assms that unfolding moved_from_def by (cases "t = s") auto
  with assms(1) show ?thesis unfolding moved_from_def by simp
qed

lemma ctl_ok_move_shards:
  assumes "phase_ok srv \<sigma>" "pending \<sigma> = Some new" "list_all is_shard ss"
    and "\<And>\<sigma>'. moved_from srv (set ss) \<sigma> \<sigma>' \<Longrightarrow> ctl_ok k srv \<sigma>'"
  shows "ctl_ok (move_shards ss (cur \<sigma>) new k) srv \<sigma>"
  using assms
proof (induction ss arbitrary: \<sigma>)
  case Nil
  then show ?case by (simp add: moved_from_def)
next
  case (Cons s ss)
  have s: "is_shard s" and ss: "list_all is_shard ss" using Cons.prems(3) by simp_all
  have ok: "cfg_ok srv (cur \<sigma>)" "cfg_ok srv new" "Num new = next_num \<sigma>"
    using Cons.prems(1,2) by (simp_all add: phase_ok_def)
  have idx: "go_index (Shards (cur \<sigma>)) s = Some (old_gid \<sigma> s)" "go_index (Shards new) s = Some (new_gid \<sigma> s)"
    "old_gid \<sigma> s \<noteq> 0" "new_gid \<sigma> s \<noteq> 0"
    using cfg_ok_index [OF ok(1) s] cfg_ok_index [OF ok(2) s] Cons.prems(2) by (simp_all add: old_gid_def new_gid_def)
  show ?case
  proof (cases "old_gid \<sigma> s = new_gid \<sigma> s")
    case True
    have "ctl_ok (move_shards ss (cur \<sigma>) new k) srv \<sigma>"
      by (rule Cons.IH [OF Cons.prems(1,2) ss])
        (rule Cons.prems(4), rule moved_from_skip [OF _ True])
    with True show ?thesis by (simp add: idx)
  next
    case False
    let ?\<sigma> = "at_stage s Moved \<sigma>"
    have "ctl_ok (move_shards ss (cur ?\<sigma>) new k) srv ?\<sigma>"
    proof (rule Cons.IH [OF _ _ ss])
      show "phase_ok srv ?\<sigma>" using phase_ok_at_stage [OF Cons.prems(1) False] Cons.prems(2) by simp
      fix \<sigma>' assume "moved_from srv (set ss) ?\<sigma> \<sigma>'"
      then show "ctl_ok k srv \<sigma>'" by (intro Cons.prems(4) moved_from_step)
    qed (simp add: Cons.prems(2))
    then have "ctl_ok (move_shards ss (cur \<sigma>) new k) srv ?\<sigma>" by simp
    from ctl_ok_migrateShard [OF Cons.prems(1,2) s False this] False show ?thesis
      by (simp add: idx ok(3))
  qed
qed

lemma all_shards_ok: "list_all is_shard all_shards" "set all_shards = {s. is_shard s}"
  by (auto simp: all_shards_def list_all_iff is_shard_def)

text \<open>Moving all shards and then the pointer to the latest configuration.\<close>

lemma ctl_ok_finish:
  assumes "phase_ok srv \<sigma>" "pending \<sigma> = Some new"
  shows "ctl_ok (move_shards all_shards (cur \<sigma>) new
           (CPut Latest (VNum (next_num \<sigma>)) (curVersion \<sigma>) (\<lambda>err. Done))) srv \<sigma>"
proof (rule ctl_ok_move_shards [OF assms all_shards_ok(1)])
  fix \<sigma>' assume m: "moved_from srv (set all_shards) \<sigma> \<sigma>'"
  then have "\<forall>s. is_shard s \<and> old_gid \<sigma>' s \<noteq> new_gid \<sigma>' s \<longrightarrow> stage \<sigma>' s = Moved"
    using gids_cong [of \<sigma>' \<sigma>] by (simp add: moved_from_def all_shards_ok(2))
  with m assms(2) show "ctl_ok (CPut Latest (VNum (next_num \<sigma>)) (curVersion \<sigma>) (\<lambda>err. Done)) srv \<sigma>'"
    by (simp add: moved_from_def complete_def)
qed

lemma find_next_step:
  "0 < n \<Longrightarrow> find_next n i latestNum nextNum nextValue k =
     CGet (ConfigOf (VNum (latestNum + i))) (\<lambda>(v, _, err).
       if err = OK then find_next (n - 1) (i + 1) latestNum (latestNum + i) v k else k nextNum nextValue)"
  by (cases n) (auto simp: fun_eq_iff)

text \<open>The search finds the one configuration that may be pending.\<close>

lemma ctl_ok_find_next:
  assumes "case pending \<sigma> of None \<Rightarrow> ctl_ok (k 0 VEmpty) srv \<sigma> | Some c \<Rightarrow> ctl_ok (k (next_num \<sigma>) (VCfg c)) srv \<sigma>"
  shows "ctl_ok (find_next 100 1 (Num (cur \<sigma>)) 0 VEmpty k) srv \<sigma>"
proof -
  have "ctl_ok (find_next 99 2 (Num (cur \<sigma>)) (next_num \<sigma>) (VCfg c) k) srv \<sigma>" if "pending \<sigma> = Some c" for c
    using assms that by (subst find_next_step) auto
  then show ?thesis
    using assms by (subst find_next_step) (auto split: option.splits)
qed

lemma ctl_ok_InitController:
  assumes "phase_ok srv \<sigma>"
  shows "ctl_ok (InitController Done) srv \<sigma>"
proof -
  let ?fin = "\<lambda>new. Query (\<lambda>oldCfg. case oldCfg of None \<Rightarrow> Done | Some old \<Rightarrow>
      CGet Latest (\<lambda>(_, latestVersion, _). move_shards all_shards old new
        (CPut Latest (VNum (next_num \<sigma>)) latestVersion (\<lambda>err. Done))))"
  have "ctl_ok (?fin new) srv \<sigma>" if "pending \<sigma> = Some new" for new
    by (rule ctl_ok_Query) (simp add: ctl_ok_finish [OF assms that])
  moreover have "next_num \<sigma> \<noteq> 0" using assms by (simp add: phase_ok_def)
  ultimately show ?thesis
    unfolding InitController_def
    by (auto intro!: ctl_ok_find_next split: option.split)
qed

lemma ctl_ok_ChangeConfigTo:
  assumes "phase_ok srv \<sigma>" "pending \<sigma> = None" "cfg_ok srv new" "Num new = next_num \<sigma>"
  shows "ctl_ok (ChangeConfigTo new Done) srv \<sigma>"
proof -
  let ?\<sigma> = "\<sigma>\<lparr>pending := Some new\<rparr>"
  have ph: "phase_ok srv ?\<sigma>" using assms by (simp add: phase_ok_def)
  have "ctl_ok (move_shards all_shards (cur ?\<sigma>) new
      (CPut Latest (VNum (next_num ?\<sigma>)) (curVersion ?\<sigma>) (\<lambda>err. Done))) srv ?\<sigma>"
    by (rule ctl_ok_finish [OF ph]) simp
  then have fin: "ctl_ok (move_shards all_shards (cur \<sigma>) new
      (CPut Latest (VNum (Num new)) (curVersion \<sigma>) (\<lambda>err. Done))) srv ?\<sigma>" by (simp add: assms(4))
  show ?thesis
    unfolding ChangeConfigTo_def by (rule ctl_ok_Query) (use fin assms in simp)
qed

section \<open>Histories of clients\<close>

fun g_input :: "grp_req \<Rightarrow> KvInput" where
  "g_input (GGetPtr a) = get_input a"
| "g_input (GGetVal a) = get_input a"
| "g_input (GPutPtr a) = put_input a"
| "g_input (GPutVal a) = put_input a"
| "g_input _ = kv_input OtherReq"

fun g_output :: "grp_rep \<Rightarrow> KvOutput" where
  "g_output (GGetRep r) = kv_output (GetRep r)"
| "g_output (GPutRep r) = kv_output (PutRep r)"
| "g_output _ = kv_output NilRep"

definition history_of :: "string \<Rightarrow> (grp_req \<times> grp_rep) list \<Rightarrow> (KvInput \<times> KvOutput) list" where
  "history_of k H = map (\<lambda>(q, r). (g_input q, g_output r)) (filter (\<lambda>(q, r). op_key q = Some k) H)"

text \<open>The state that the specification reaches on a history it accepts.\<close>

fun model_run :: "KvState \<Rightarrow> (KvInput \<times> KvOutput) list \<Rightarrow> KvState option" where
  "model_run st [] = Some st"
| "model_run st ((i, out) # h) =
     (case KvModel_Step st i out of (True, Some st') \<Rightarrow> model_run st' h | _ \<Rightarrow> None)"

lemma model_accepts_run: "model_accepts st h \<longleftrightarrow> model_run st h \<noteq> None"
  by (induction st h rule: model_run.induct) (auto split: prod.splits option.splits bool.splits)

lemma model_run_append:
  "model_run st (h @ h') = (case model_run st h of None \<Rightarrow> None | Some st' \<Rightarrow> model_run st' h')"
  by (induction st h rule: model_run.induct) (auto split: prod.splits option.splits bool.splits)

definition entry_state :: "ValueEntry option \<Rightarrow> KvState" where
  "entry_state e = (case e of None \<Rightarrow> KvModel_Init | Some e \<Rightarrow> \<lparr>stValue = Value e, stVersion = Version e\<rparr>)"

definition blocked :: "shard_maps \<Rightarrow> int \<Rightarrow> bool" where
  "blocked m s \<longleftrightarrow> marked (frozenShards m) s \<or> marked (migratedShards m) s"

abbreviation as_kv :: "shard_maps \<Rightarrow> KVServer" where
  "as_kv m \<equiv> \<lparr>kvMe = 0, kvDead = 0, KeyValue = Some (grpKeyValue m)\<rparr>"

lemma kv_abs_entry: "kv_abs (as_kv m) k = entry_state (grpKeyValue m k)"
  by (simp add: kv_abs_def entry_state_def)

text \<open>A group that owns the shard answers like the unsharded server.\<close>

lemma grp_get_kv: "\<not> blocked m (Key2Shard (getKey a)) \<Longrightarrow> GetRep (grp_get a m) = snd (get_op a (as_kv m))"
  by (simp add: blocked_def grp_get_def get_op_def Let_def)

lemma grp_put_kv:
  "\<not> blocked m (Key2Shard (putKey a)) \<Longrightarrow>
   put_op a (as_kv m) = Some (as_kv (fst (grp_put a m)), PutRep (snd (grp_put a m)))"
  by (auto simp: blocked_def grp_put_def put_op_def Let_def split: option.splits)

lemma client_cases:
  assumes "exec_maps q m = Some (m', r)" "op_key q = Some k"
  obtains (get) a where "k = getKey a" "m' = m" "r = GGetRep (grp_get a m)" "g_input q = get_input a"
  | (put) a where "k = putKey a" "m' = fst (grp_put a m)" "r = GPutRep (snd (grp_put a m))" "g_input q = put_input a"
  using assms by (cases q) (auto simp: prod_eq_iff)

lemma grp_blocked:
  "blocked m (Key2Shard (getKey a)) \<Longrightarrow> getErr (grp_get a m) = ErrWrongGroup"
  "blocked m (Key2Shard (putKey b)) \<Longrightarrow> grp_put b m = (m, \<lparr>putErr = ErrWrongGroup\<rparr>)"
  by (auto simp: blocked_def grp_get_def grp_put_def Let_def)

lemma client_blocked:
  assumes "exec_maps q m = Some (m', r)" "op_key q = Some k" "blocked m (Key2Shard k)"
  shows "m' = m \<and> grp_err r = ErrWrongGroup"
  using assms(1,2) by (cases rule: client_cases) (use assms(3) grp_blocked in simp_all)

lemma grp_serves_err:
  "\<not> blocked m (Key2Shard (getKey a)) \<Longrightarrow> getErr (grp_get a m) \<noteq> ErrWrongGroup"
  "\<not> blocked m (Key2Shard (putKey b)) \<Longrightarrow> putErr (snd (grp_put b m)) \<noteq> ErrWrongGroup"
  by (simp_all add: blocked_def grp_get_def grp_put_def Let_def split: option.split)

lemma client_serves:
  assumes "exec_maps q m = Some (m', r)" "op_key q = Some k" "\<not> blocked m (Key2Shard k)"
  shows "KvModel_Step (entry_state (grpKeyValue m k)) (g_input q) (g_output r) = (True, Some (entry_state (grpKeyValue m' k)))"
    and "k' \<noteq> k \<Longrightarrow> grpKeyValue m' k' = grpKeyValue m k'"
    and "grpKeyValue m k' \<noteq> None \<Longrightarrow> grpKeyValue m' k' \<noteq> None"
    and "maxShardNum m' = maxShardNum m" "frozenShards m' = frozenShards m" "migratedShards m' = migratedShards m"
    and "grp_err r \<noteq> ErrWrongGroup"
proof -
  have put_kv: "put_op a (as_kv m) = Some (as_kv (fst (grp_put a m)), PutRep (snd (grp_put a m)))" if "k = putKey a" for a
    using grp_put_kv assms(3) that by simp
  have keys: "k' \<noteq> putKey a \<Longrightarrow> grpKeyValue (fst (grp_put a m)) k' = grpKeyValue m k'"
    "grpKeyValue m k' \<noteq> None \<Longrightarrow> grpKeyValue (fst (grp_put a m)) k' \<noteq> None" for a
    by (simp_all add: grp_put_def Let_def split: option.split)
  show "KvModel_Step (entry_state (grpKeyValue m k)) (g_input q) (g_output r) = (True, Some (entry_state (grpKeyValue m' k)))"
    using assms(1,2)
  proof (cases rule: client_cases)
    case (get a)
    then show ?thesis
      using get_op_refines [of "as_kv m" a] grp_get_kv [of m a] assms(3) by (simp add: kv_abs_entry)
  next
    case (put a)
    then show ?thesis
      using put_op_refines(1) [OF put_kv [OF put(1)]] by (simp add: kv_abs_entry kv_good_def)
  qed
  show "k' \<noteq> k \<Longrightarrow> grpKeyValue m' k' = grpKeyValue m k'" "grpKeyValue m k' \<noteq> None \<Longrightarrow> grpKeyValue m' k' \<noteq> None"
    using assms(1,2) by (cases rule: client_cases; use keys in simp)+
  show "maxShardNum m' = maxShardNum m" "frozenShards m' = frozenShards m" "migratedShards m' = migratedShards m"
    using assms(1,2) by (cases rule: client_cases; simp)+
  show "grp_err r \<noteq> ErrWrongGroup"
    using assms(1,2) by (cases rule: client_cases) (use assms(3) grp_serves_err in simp_all)
qed

section \<open>Requests that come again\<close>

text \<open>A request of the controller that a group has executed: doing it again changes nothing.\<close>

fun is_delete :: "grp_req \<Rightarrow> bool" where
  "is_delete (DeletePtr a) \<longleftrightarrow> True"
| "is_delete (DeleteVal a) \<longleftrightarrow> True"
| "is_delete _ \<longleftrightarrow> False"

definition settled :: "grp_req \<Rightarrow> shard_maps \<Rightarrow> bool" where
  "settled q m \<longleftrightarrow> (\<exists>s n k. admin q = Some (s, n) \<and> maxShardNum m s = Some k \<and> n \<le> k \<and>
     (is_delete q \<and> n = k \<longrightarrow> migratedShards m s = Some True \<and> frozenShards m s = None))"

lemma settledE:
  assumes "settled q m"
  obtains s n k where "admin q = Some (s, n)" "maxShardNum m s = Some k" "n \<le> k"
    "is_delete q \<and> n = k \<longrightarrow> migratedShards m s = Some True \<and> frozenShards m s = None"
  using assms unfolding settled_def by blast

lemma settled_redo:
  assumes "settled q m" "exec_maps q m = Some (m', r)"
  shows "m' = m"
proof -
  obtain s n k where q: "admin q = Some (s, n)" "maxShardNum m s = Some k" "n \<le> k"
    "is_delete q \<and> n = k \<longrightarrow> migratedShards m s = Some True \<and> frozenShards m s = None"
    using assms(1) by (rule settledE)
  show ?thesis
    using assms(2)
  proof (cases rule: exec_maps_cases)
    case (freeze a)
    with q(1-3) show ?thesis by (simp add: doFreezeShard_def Let_def)
  next
    case (install a)
    with q(1-3) show ?thesis by (simp add: doInstallShard_def Let_def)
  next
    case (delete a)
    then have "is_delete q" using assms(2) by (cases q) (auto simp: prod_eq_iff)
    with q have "n = k \<Longrightarrow> migratedShards m s = Some True \<and> frozenShards m s = None" by blast
    with q(1-3) delete show ?thesis
      by (cases "n = k") (simp_all add: doDeleteShard_def Let_def fun_upd_idem)
  qed (use q(1) in simp_all)
qed

lemma exec_maps_marks:
  assumes "exec_maps q m = Some (m', r)" "maxShardNum m' s = maxShardNum m s"
    and "migratedShards m s = Some True" "frozenShards m s = None"
  shows "migratedShards m' s = Some True \<and> frozenShards m' s = None"
  using assms(1)
proof (cases rule: exec_maps_cases)
  case (freeze a)
  then show ?thesis
    using assms(2-4) by (cases "s = fzShard a") (simp_all add: doFreezeShard_def Let_def split: option.splits if_splits)
next
  case (install a)
  then show ?thesis
    using assms(2-4) by (cases "s = isShard a") (simp_all add: doInstallShard_def Let_def split: option.splits if_splits shard_bytes.splits)
next
  case (delete a)
  then show ?thesis
    using assms(2-4) by (cases "s = dsShard a") (simp_all add: doDeleteShard_def Let_def split: option.splits if_splits)
qed (use assms(3,4) in simp_all)

lemma settled_exec:
  assumes "settled q m" "exec_maps q' m = Some (m', r)"
  shows "settled q m'"
proof -
  obtain s n k where q: "admin q = Some (s, n)" "maxShardNum m s = Some k" "n \<le> k"
    "is_delete q \<and> n = k \<longrightarrow> migratedShards m s = Some True \<and> frozenShards m s = None"
    using assms(1) by (rule settledE)
  obtain k' where k': "maxShardNum m' s = Some k'" "k \<le> k'"
    using exec_maps_num [OF assms(2), of s] q(2) by (auto split: option.splits if_splits prod.splits)
  have "migratedShards m' s = Some True \<and> frozenShards m' s = None" if "is_delete q" "n = k'"
    using exec_maps_marks [OF assms(2), of s] q k' that by simp
  moreover have "n \<le> k'" using q(3) k'(2) by simp
  ultimately show ?thesis unfolding settled_def using q(1) k'(1) by blast
qed

lemma settled_new:
  assumes "exec_maps q m = Some (m', r)" "admin q \<noteq> None"
  shows "settled q m'"
proof -
  obtain s n where q: "admin q = Some (s, n)" using assms(2) by auto
  obtain k where k: "maxShardNum m' s = Some k" "n \<le> k"
    using exec_maps_num [OF assms(1), of s] q by (auto split: option.splits)
  have "migratedShards m' s = Some True \<and> frozenShards m' s = None" if "is_delete q" "n = k"
  proof -
    obtain a where a: "q = DeletePtr a \<or> q = DeleteVal a" using \<open>is_delete q\<close> by (cases q) auto
    then have "m' = fst (doDeleteShard a m)" "s = dsShard a" "n = dsNum a"
      using assms(1) q by (auto simp: prod_eq_iff)
    then show ?thesis using k that by (auto simp: doDeleteShard_def Let_def split: option.splits)
  qed
  with q k show ?thesis unfolding settled_def by blast
qed

section \<open>Where the data of a shard is\<close>

definition only :: "int \<Rightarrow> (string \<rightharpoonup> ValueEntry) \<Rightarrow> string \<rightharpoonup> ValueEntry" where
  "only s D = (\<lambda>k. if Key2Shard k = s then D k else None)"

definition num_le :: "shard_maps \<Rightarrow> int \<Rightarrow> int \<Rightarrow> bool" where
  "num_le m s n \<longleftrightarrow> (case maxShardNum m s of None \<Rightarrow> True | Some k \<Rightarrow> k \<le> n)"

definition stage_inv :: "phase \<Rightarrow> (string \<rightharpoonup> ValueEntry) \<Rightarrow> (int \<Rightarrow> shard_maps) \<Rightarrow> int \<Rightarrow> bool" where
  "stage_inv \<sigma> d G s \<longleftrightarrow>
     (let g = old_gid \<sigma> s; h = new_gid \<sigma> s; N = Num (cur \<sigma>) in
      case stage \<sigma> s of
        Resting \<Rightarrow> \<not> blocked (G g) s \<and> (\<forall>x. num_le (G x) s N)
      | Frozen d' \<Rightarrow> d' = d \<and> marked (frozenShards (G g)) s \<and> \<not> marked (migratedShards (G g)) s \<and>
          maxShardNum (G g) s = Some (N + 1) \<and> (\<forall>x. x \<noteq> g \<longrightarrow> num_le (G x) s N)
      | Installed \<Rightarrow> marked (frozenShards (G g)) s \<and> \<not> blocked (G h) s \<and>
          maxShardNum (G g) s = Some (N + 1) \<and> maxShardNum (G h) s = Some (N + 1) \<and>
          (\<forall>x. x \<noteq> g \<and> x \<noteq> h \<longrightarrow> num_le (G x) s N)
      | Moved \<Rightarrow> marked (migratedShards (G g)) s \<and> \<not> blocked (G h) s \<and>
          maxShardNum (G g) s = Some (N + 1) \<and> maxShardNum (G h) s = Some (N + 1) \<and>
          (\<forall>x. x \<noteq> g \<and> x \<noteq> h \<longrightarrow> num_le (G x) s N))"

text \<open>The holder of a shard has the data \<open>d\<close>; every other group that clients may ask (\<open>K\<close>) refuses them; what
  groups still have of the shard are keys that exist.\<close>

definition shard_inv ::
  "phase \<Rightarrow> (string \<rightharpoonup> ValueEntry) \<Rightarrow> int set \<Rightarrow> (int \<Rightarrow> shard_maps) \<Rightarrow> int \<Rightarrow> bool" where
  "shard_inv \<sigma> d K G s \<longleftrightarrow>
     shardData s (G (holder \<sigma> s)) = d \<and> (\<forall>x \<in> K. x \<noteq> holder \<sigma> s \<longrightarrow> blocked (G x) s) \<and>
     (\<forall>x. dom (shardData s (G x)) \<subseteq> dom d) \<and> stage_inv \<sigma> d G s"

lemma same_shard_facts:
  "same_shard s m m' \<Longrightarrow> shardData s m' = shardData s m \<and> blocked m' s = blocked m s \<and>
   marked (frozenShards m') s = marked (frozenShards m) s \<and> marked (migratedShards m') s = marked (migratedShards m) s \<and>
   maxShardNum m' s = maxShardNum m s \<and> num_le m' s n = num_le m s n"
  by (simp add: same_shard_def blocked_def marked_def num_le_def)

lemma shardData_cong: "grpKeyValue m' = grpKeyValue m \<Longrightarrow> shardData s m' = shardData s m"
  by (simp add: shardData_def fun_eq_iff)

lemma same_shard_refl: "same_shard s m m"
  by (simp add: same_shard_def)

lemma shard_inv_cong:
  assumes "shard_inv \<sigma> d K G s" "\<And>x. same_shard s (G x) (G' x)"
    and "old_gid \<sigma>' s = old_gid \<sigma> s" "new_gid \<sigma>' s = new_gid \<sigma> s" "stage \<sigma>' s = stage \<sigma> s" "Num (cur \<sigma>') = Num (cur \<sigma>)"
  shows "shard_inv \<sigma>' d K G' s"
proof -
  note f = same_shard_facts [OF assms(2)]
  have "holder \<sigma>' s = holder \<sigma> s" using assms(3-5) by (simp add: holder_def split: shard_stage.split)
  moreover have "stage_inv \<sigma>' d G' s = stage_inv \<sigma> d G s"
    using f by (simp add: stage_inv_def assms(3-6) Let_def split: shard_stage.split)
  ultimately show ?thesis using assms(1) f by (simp add: shard_inv_def)
qed

text \<open>The calls of a migration, seen from their shard.\<close>

lemma freeze_inv:
  assumes "shard_inv \<sigma> d K G s" "doFreezeShard \<lparr>fzShard = s, fzNum = next_num \<sigma>\<rparr> (G (old_gid \<sigma> s)) = (m, r)"
  shows "fzErr r = OK \<and> (case stage \<sigma> s of
      Resting \<Rightarrow> fzState r = JsonMap d \<and> shard_inv (at_stage s (Frozen d) \<sigma>) d K (G(old_gid \<sigma> s := m)) s
    | Frozen d' \<Rightarrow> fzState r = JsonMap d' \<and> m = G (old_gid \<sigma> s)
    | _ \<Rightarrow> (\<exists>d'. fzState r = JsonMap d') \<and> m = G (old_gid \<sigma> s))"
proof (cases "stage \<sigma> s")
  case Resting
  let ?g = "old_gid \<sigma> s"
  have G: "shardData s (G ?g) = d" "\<not> blocked (G ?g) s" "\<And>x. num_le (G x) s (Num (cur \<sigma>))"
    using assms(1) Resting by (simp_all add: shard_inv_def stage_inv_def holder_def Let_def)
  from G(3) [of ?g] assms(2) have m: "m = (G ?g)\<lparr>frozenShards := (frozenShards (G ?g))(s \<mapsto> True),
      maxShardNum := (maxShardNum (G ?g))(s \<mapsto> next_num \<sigma>)\<rparr>" "fzErr r = OK" "fzState r = JsonMap d"
    by (auto simp: doFreezeShard_def Let_def num_le_def G(1) split: option.splits)
  have data: "shardData s m = d" using G(1) shardData_cong [of m "G ?g"] by (simp add: m(1))
  have "marked (frozenShards m) s" "\<not> marked (migratedShards m) s" "maxShardNum m s = Some (next_num \<sigma>)"
    using G(2) by (simp_all add: m(1) marked_def blocked_def)
  then have "stage_inv (at_stage s (Frozen d) \<sigma>) d (G(?g := m)) s"
    using G(3) by (simp add: stage_inv_def Let_def)
  with assms(1) data Resting m show ?thesis
    by (auto simp: shard_inv_def holder_def)
qed (use assms in \<open>auto simp: shard_inv_def stage_inv_def holder_def Let_def doFreezeShard_def split: if_splits\<close>)

lemma install_inv:
  assumes "shard_inv \<sigma> d K G s" "old_gid \<sigma> s \<noteq> new_gid \<sigma> s" "\<And>k. d k \<noteq> None \<Longrightarrow> Key2Shard k = s"
    and "doInstallShard \<lparr>isShard = s, isState = st, isNum = next_num \<sigma>\<rparr> (G (new_gid \<sigma> s)) = (m, r)"
  shows "case stage \<sigma> s of
      Resting \<Rightarrow> True
    | Frozen d' \<Rightarrow> st = JsonMap d' \<longrightarrow> d' = d \<and> shard_inv (at_stage s Installed \<sigma>) d K (G(new_gid \<sigma> s := m)) s
    | _ \<Rightarrow> m = G (new_gid \<sigma> s)"
proof (cases "stage \<sigma> s")
  case (Frozen d')
  let ?g = "old_gid \<sigma> s" and ?h = "new_gid \<sigma> s"
  have G: "shardData s (G ?g) = d" "d' = d" "marked (frozenShards (G ?g)) s" "maxShardNum (G ?g) s = Some (next_num \<sigma>)"
    "\<And>x. x \<noteq> ?g \<Longrightarrow> num_le (G x) s (Num (cur \<sigma>))" "\<And>x. dom (shardData s (G x)) \<subseteq> dom d"
    "\<And>x. x \<in> K \<Longrightarrow> x \<noteq> ?g \<Longrightarrow> blocked (G x) s"
    using assms(1) Frozen by (simp_all add: shard_inv_def stage_inv_def holder_def Let_def)
  show ?thesis
  proof (cases "st = JsonMap d")
    case True
    from G(5) [of ?h] assms(2,4) have m: "m = (G ?h)\<lparr>maxShardNum := (maxShardNum (G ?h))(s \<mapsto> next_num \<sigma>),
        migratedShards := (migratedShards (G ?h))(s := None), grpKeyValue := grpKeyValue (G ?h) ++ d,
        frozenShards := (frozenShards (G ?h))(s := None)\<rparr>"
      by (auto simp: doInstallShard_def Let_def num_le_def True split: option.splits)
    have "shardData s m k = d k" for k
    proof (cases "d k")
      case None
      then have "shardData s (G ?h) k = None" using G(6) [of ?h] by blast
      with None show ?thesis by (simp add: m shardData_def map_add_def split: if_splits)
    qed (use assms(3) [of k] in \<open>simp add: m shardData_def map_add_def\<close>)
    then have data: "shardData s m = d" by (rule ext)
    have "\<not> blocked m s" "maxShardNum m s = Some (next_num \<sigma>)"
      by (simp_all add: m blocked_def marked_def)
    then have "stage_inv (at_stage s Installed \<sigma>) d (G(?h := m)) s"
      using G(3-5) assms(2) by (simp add: stage_inv_def Let_def)
    moreover have "blocked ((G(?h := m)) x) s" if "x \<in> K" "x \<noteq> ?h" for x
      using that G(3,7) by (cases "x = ?g") (simp_all add: blocked_def)
    moreover have "dom (shardData s ((G(?h := m)) x)) \<subseteq> dom d" for x using G(6) [of x] data by simp
    ultimately show ?thesis
      using Frozen G(2) data by (simp add: shard_inv_def holder_def)
  qed (use Frozen G(2) in simp)
qed (use assms in \<open>auto simp: shard_inv_def stage_inv_def Let_def doInstallShard_def\<close>)

lemma delete_inv:
  assumes "shard_inv \<sigma> d K G s" "old_gid \<sigma> s \<noteq> new_gid \<sigma> s" "stage \<sigma> s = Installed \<or> stage \<sigma> s = Moved"
    and "doDeleteShard \<lparr>dsShard = s, dsNum = next_num \<sigma>\<rparr> (G (old_gid \<sigma> s)) = (m, r)"
  shows "shard_inv (at_stage s Moved \<sigma>) d K (G(old_gid \<sigma> s := m)) s"
proof -
  let ?g = "old_gid \<sigma> s" and ?h = "new_gid \<sigma> s"
  have G: "shardData s (G ?h) = d" "\<And>x. dom (shardData s (G x)) \<subseteq> dom d" "\<And>x. x \<in> K \<Longrightarrow> x \<noteq> ?h \<Longrightarrow> blocked (G x) s"
    "\<not> blocked (G ?h) s" "maxShardNum (G ?g) s = Some (next_num \<sigma>)" "maxShardNum (G ?h) s = Some (next_num \<sigma>)"
    "\<And>x. x \<noteq> ?g \<Longrightarrow> x \<noteq> ?h \<Longrightarrow> num_le (G x) s (Num (cur \<sigma>))"
    using assms(1,3) by (auto simp: shard_inv_def stage_inv_def holder_def Let_def)
  from assms(4) G(5) have m: "m = (G ?g)\<lparr>migratedShards := (migratedShards (G ?g))(s \<mapsto> True),
      frozenShards := (frozenShards (G ?g))(s := None)\<rparr>"
    by (simp add: doDeleteShard_def Let_def)
  then have f: "marked (migratedShards m) s" "maxShardNum m s = Some (next_num \<sigma>)" "shardData s m = shardData s (G ?g)"
    using G(5) shardData_cong [of m "G ?g"] by (simp_all add: marked_def)
  have "stage_inv (at_stage s Moved \<sigma>) d (G(?g := m)) s"
    using G f(1,2) assms(2) by (simp add: stage_inv_def Let_def)
  moreover have "blocked ((G(?g := m)) x) s" if "x \<in> K" "x \<noteq> ?h" for x
    using that G(3) f(1) by (simp add: blocked_def)
  moreover have "dom (shardData s ((G(?g := m)) x)) \<subseteq> dom d" for x using G(2) [of x] G(2) [of ?g] f(3) by simp
  ultimately show ?thesis using G(1) assms(2) by (simp add: shard_inv_def holder_def)
qed

section \<open>Steps of the controller\<close>

definition known :: "ShardConfig list \<Rightarrow> int \<Rightarrow> int set" where
  "known cs s = (\<lambda>c. Shards c ! nat s) ` set cs"

definition sys_inv ::
  "(int \<Rightarrow> string list) \<Rightarrow> phase \<Rightarrow> (string \<rightharpoonup> ValueEntry) \<Rightarrow> ShardConfig list \<Rightarrow> world \<Rightarrow> bool" where
  "sys_inv srv \<sigma> D cs w \<longleftrightarrow>
     phase_ok srv \<sigma> \<and> store_ok \<sigma> w \<and> cur \<sigma> \<in> set cs \<and> (\<forall>c \<in> set cs. cfg_ok srv c \<and> Num c \<le> Num (cur \<sigma>)) \<and>
     (\<forall>s. is_shard s \<longrightarrow> shard_inv \<sigma> (only s D) (known cs s) (\<lambda>x. groups w (srv x)) s)"

lemma store_read_OK: "store_read w key = (v, ver, OK) \<longleftrightarrow> store w key = Some (v, ver)"
  by (auto simp: store_read_def split: option.splits prod.splits)

lemma store_read_none: "store_read w key = (VEmpty, 0, ErrNoKey) \<longleftrightarrow> store w key = None"
  by (auto simp: store_read_def split: option.splits prod.splits)

lemma store_ok_facts:
  assumes "store_ok \<sigma> w"
  shows "store w Latest = Some (VNum (Num (cur \<sigma>)), curVersion \<sigma>)"
    and "\<exists>ver. store w (ConfigOf (VNum (Num (cur \<sigma>)))) = Some (VCfg (cur \<sigma>), ver)"
    and "pending \<sigma> = None \<Longrightarrow> store w (ConfigOf (VNum (next_num \<sigma>))) = None"
    and "pending \<sigma> = Some c \<Longrightarrow> \<exists>ver. store w (ConfigOf (VNum (next_num \<sigma>))) = Some (VCfg c, ver)"
    and "n > next_num \<sigma> \<Longrightarrow> store w (ConfigOf (VNum n)) = None"
proof -
  have r: "reads \<sigma> key (store_read w key)" for key using assms by (simp add: store_ok_def)
  show "store w Latest = Some (VNum (Num (cur \<sigma>)), curVersion \<sigma>)"
    using r [of Latest] by (simp add: store_read_OK)
  show "\<exists>ver. store w (ConfigOf (VNum (Num (cur \<sigma>)))) = Some (VCfg (cur \<sigma>), ver)"
    using r [of "ConfigOf (VNum (Num (cur \<sigma>)))"] by (simp add: store_read_OK)
  show "store w (ConfigOf (VNum (next_num \<sigma>))) = None" if "pending \<sigma> = None"
    using r [of "ConfigOf (VNum (next_num \<sigma>))"] that by (simp add: store_read_none)
  show "\<exists>ver. store w (ConfigOf (VNum (next_num \<sigma>))) = Some (VCfg c, ver)" if "pending \<sigma> = Some c"
    using r [of "ConfigOf (VNum (next_num \<sigma>))"] that by (simp add: store_read_OK)
  show "store w (ConfigOf (VNum n)) = None" if "n > next_num \<sigma>"
    using r [of "ConfigOf (VNum n)"] that by (simp add: store_read_none)
qed

lemma store_okI:
  assumes "store w Latest = Some (VNum (Num (cur \<sigma>)), curVersion \<sigma>)"
    and "store w (ConfigOf (VNum (Num (cur \<sigma>)))) = Some (VCfg (cur \<sigma>), v1)"
    and "case pending \<sigma> of None \<Rightarrow> store w (ConfigOf (VNum (next_num \<sigma>))) = None
      | Some c \<Rightarrow> \<exists>ver. store w (ConfigOf (VNum (next_num \<sigma>))) = Some (VCfg c, ver)"
    and "\<And>n. n > next_num \<sigma> \<Longrightarrow> store w (ConfigOf (VNum n)) = None"
  shows "store_ok \<sigma> w"
  unfolding store_ok_def
proof
  fix key
  show "reads \<sigma> key (store_read w key)"
    using assms by (cases key) (auto simp: store_read_OK store_read_none split: option.splits)
qed

lemma store_ok_cong:
  "store_ok \<sigma> w \<Longrightarrow> cur \<sigma>' = cur \<sigma> \<Longrightarrow> curVersion \<sigma>' = curVersion \<sigma> \<Longrightarrow> pending \<sigma>' = pending \<sigma> \<Longrightarrow>
   store w' = store w \<Longrightarrow> store_ok \<sigma>' w'"
  by (rule store_okI [where ?v1.0 = "snd (the (store w (ConfigOf (VNum (Num (cur \<sigma>))))))"])
    (use store_ok_facts [of \<sigma> w] in \<open>auto split: option.splits\<close>)

lemma current_cur: "store_ok \<sigma> w \<Longrightarrow> current w = Some (cur \<sigma>)"
  using store_ok_facts(1,2) [of \<sigma> w] by (auto simp: current_def)

lemma known_cur: "cur \<sigma> \<in> set cs \<Longrightarrow> old_gid \<sigma> s \<in> known cs s"
  by (simp add: known_def old_gid_def)

lemma sys_inv_publish:
  assumes "sys_inv srv \<sigma> D cs w"
  shows "sys_inv srv \<sigma> D (publish w cs) w"
proof -
  have cs: "store_ok \<sigma> w" "cur \<sigma> \<in> set cs" using assms by (simp_all add: sys_inv_def)
  then have "set (publish w cs) = set cs" by (auto simp: publish_def current_cur)
  with assms show ?thesis by (simp add: sys_inv_def known_def)
qed

text \<open>A new configuration is stored.\<close>

lemma put_pending:
  assumes "sys_inv srv \<sigma> D cs w" "pending \<sigma> = None" "cfg_ok srv c" "Num c = next_num \<sigma>"
    and "store_put (ConfigOf (VNum (next_num \<sigma>))) (VCfg c) 0 w = (w', e)"
  shows "e = OK \<and> sys_inv srv (\<sigma>\<lparr>pending := Some c\<rparr>) D cs w'"
proof -
  let ?\<sigma> = "\<sigma>\<lparr>pending := Some c\<rparr>"
  have inv: "phase_ok srv \<sigma>" "store_ok \<sigma> w" using assms(1) by (simp_all add: sys_inv_def)
  note f = store_ok_facts [OF inv(2)]
  have w': "w' = w\<lparr>store := (store w)(ConfigOf (VNum (next_num \<sigma>)) \<mapsto> (VCfg c, 1))\<rparr>" and e: "e = OK"
    using assms(5) f(3) [OF assms(2)] by (simp_all add: store_put_def)
  obtain v1 where "store w (ConfigOf (VNum (Num (cur \<sigma>)))) = Some (VCfg (cur \<sigma>), v1)" using f(2) by blast
  then have "store_ok ?\<sigma> w'"
    by (intro store_okI [where ?v1.0 = v1]) (use f(1,5) in \<open>auto simp: w'\<close>)
  moreover have rest: "stage \<sigma> s = Resting" for s using inv(1) assms(2) by (simp add: phase_ok_def)
  have "phase_ok srv ?\<sigma>" using inv(1) rest assms(3,4) by (simp add: phase_ok_def)
  moreover have "shard_inv ?\<sigma> d K G s = shard_inv \<sigma> d K G s" for d K G s
    by (simp add: shard_inv_def stage_inv_def holder_def rest Let_def old_gid_def)
  ultimately show ?thesis using assms(1) e by (simp add: sys_inv_def w')
qed

text \<open>The change is complete: the pointer to the latest configuration moves.\<close>

lemma complete_inv:
  assumes "shard_inv \<sigma> d K G s" "pending \<sigma> = Some c" "Num c = next_num \<sigma>"
    and "old_gid \<sigma> s \<noteq> new_gid \<sigma> s \<longrightarrow> stage \<sigma> s = Moved" "old_gid \<sigma> s = new_gid \<sigma> s \<longrightarrow> stage \<sigma> s = Resting"
  shows "shard_inv (complete c \<sigma>) d (insert (new_gid \<sigma> s) K) G s"
proof -
  have gid: "old_gid (complete c \<sigma>) s = new_gid \<sigma> s" by (simp add: complete_def old_gid_def new_gid_def assms(2))
  have hold: "holder (complete c \<sigma>) s = new_gid \<sigma> s" "holder \<sigma> s = new_gid \<sigma> s"
    using assms(4,5) gid by (auto simp: holder_def complete_def split: shard_stage.split)
  have mono: "num_le m s (Num (cur \<sigma>)) \<Longrightarrow> num_le m s (Num c)" for m
    by (auto simp: num_le_def assms(3) split: option.splits)
  have "\<not> blocked (G (new_gid \<sigma> s)) s \<and> (\<forall>x. num_le (G x) s (Num c))"
  proof (cases "old_gid \<sigma> s = new_gid \<sigma> s")
    case True
    with assms(1,5) mono show ?thesis by (simp add: shard_inv_def stage_inv_def Let_def)
  next
    case False
    then have "stage_inv \<sigma> d G s" "stage \<sigma> s = Moved" using assms(1,4) by (simp_all add: shard_inv_def)
    then have "\<not> blocked (G (new_gid \<sigma> s)) s" "num_le (G x) s (Num c)" for x
      using mono [of "G x"] by (auto simp: stage_inv_def Let_def num_le_def [of _ _ "Num c"] assms(3) split: option.splits)
        (cases "x = old_gid \<sigma> s \<or> x = new_gid \<sigma> s", auto simp: num_le_def assms(3))
    then show ?thesis by blast
  qed
  then have "stage_inv (complete c \<sigma>) d G s"
    by (simp add: stage_inv_def gid Let_def) (simp add: complete_def)
  with assms(1) hold show ?thesis by (simp add: shard_inv_def)
qed

lemma put_latest:
  assumes "sys_inv srv \<sigma> D cs w" "pending \<sigma> = Some c"
    and "\<forall>s. is_shard s \<and> old_gid \<sigma> s \<noteq> new_gid \<sigma> s \<longrightarrow> stage \<sigma> s = Moved"
    and "store_put Latest (VNum (next_num \<sigma>)) (curVersion \<sigma>) w = (w', e)"
  shows "sys_inv srv (complete c \<sigma>) D (c # cs) w'"
proof -
  let ?\<sigma> = "complete c \<sigma>"
  have inv: "phase_ok srv \<sigma>" "store_ok \<sigma> w" "\<forall>c \<in> set cs. cfg_ok srv c \<and> Num c \<le> Num (cur \<sigma>)"
    "\<And>s. is_shard s \<Longrightarrow> shard_inv \<sigma> (only s D) (known cs s) (\<lambda>x. groups w (srv x)) s"
    using assms(1) by (simp_all add: sys_inv_def)
  have c: "cfg_ok srv c" "Num c = next_num \<sigma>" "0 \<le> Num (cur \<sigma>)" and rest: "\<And>s. old_gid \<sigma> s = new_gid \<sigma> s \<Longrightarrow> stage \<sigma> s = Resting"
    using inv(1) assms(2) by (auto simp: phase_ok_def)
  note f = store_ok_facts [OF inv(2)]
  have w': "w' = w\<lparr>store := (store w)(Latest \<mapsto> (VNum (next_num \<sigma>), curVersion \<sigma> + 1))\<rparr>"
    using assms(4) f(1) by (simp add: store_put_def)
  obtain v1 where "store w (ConfigOf (VNum (next_num \<sigma>))) = Some (VCfg c, v1)" using f(4) [OF assms(2)] by blast
  then have "store_ok ?\<sigma> w'"
    by (intro store_okI [where ?v1.0 = v1]) (use f(5) in \<open>auto simp: w' complete_def c\<close>)
  moreover have "phase_ok srv ?\<sigma>" using c by (simp add: phase_ok_def complete_def)
  moreover have "shard_inv ?\<sigma> (only s D) (known (c # cs) s) (\<lambda>x. groups w' (srv x)) s" if "is_shard s" for s
  proof -
    have "shard_inv ?\<sigma> (only s D) (insert (new_gid \<sigma> s) (known cs s)) (\<lambda>x. groups w (srv x)) s"
      by (rule complete_inv [OF inv(4) [OF that] assms(2) c(2)]) (use assms(3) rest that in auto)
    moreover have "known (c # cs) s = insert (new_gid \<sigma> s) (known cs s)"
      by (simp add: known_def new_gid_def assms(2))
    ultimately show ?thesis by (simp add: w')
  qed
  ultimately show ?thesis
    using c inv(3) by (auto simp: sys_inv_def complete_def)
qed

text \<open>A group executes a request that concerns one shard.\<close>

lemma sys_inv_group:
  assumes "sys_inv srv \<sigma> D cs w" "inj srv" "phase_ok srv \<sigma>'"
    and "cur \<sigma>' = cur \<sigma>" "curVersion \<sigma>' = curVersion \<sigma>" "pending \<sigma>' = pending \<sigma>" "\<And>t. t \<noteq> s \<Longrightarrow> stage \<sigma>' t = stage \<sigma> t"
    and "\<And>t. t \<noteq> s \<Longrightarrow> same_shard t (groups w (srv g)) m \<and> only t D' = only t D"
    and "shard_inv \<sigma>' (only s D') (known cs s) ((\<lambda>x. groups w (srv x))(g := m)) s"
  shows "sys_inv srv \<sigma>' D' cs (set_group (srv g) m w)"
proof -
  have G: "(\<lambda>x. groups (set_group (srv g) m w) (srv x)) = (\<lambda>x. groups w (srv x))(g := m)"
    using assms(2) by (auto simp: set_group_def inj_eq)
  have "shard_inv \<sigma>' (only t D') (known cs t) ((\<lambda>x. groups w (srv x))(g := m)) t" if t: "is_shard t" for t
  proof (cases "t = s")
    case False
    have "shard_inv \<sigma> (only t D) (known cs t) (\<lambda>x. groups w (srv x)) t"
      using assms(1) t by (simp add: sys_inv_def)
    then have "shard_inv \<sigma>' (only t D) (known cs t) ((\<lambda>x. groups w (srv x))(g := m)) t"
    proof (rule shard_inv_cong)
      show "same_shard t (groups w (srv x)) (((\<lambda>x. groups w (srv x))(g := m)) x)" for x
        using assms(8) [OF False] by (simp add: same_shard_refl)
    qed (use gids_cong [OF assms(4,6)] assms(7) [OF False] in \<open>simp_all add: assms(4)\<close>)
    with assms(8) [OF False] show ?thesis by simp
  qed (use assms(9) in simp)
  moreover have "store_ok \<sigma>' (set_group (srv g) m w)"
    by (rule store_ok_cong [OF _ assms(4-6), of w]) (use assms(1) in \<open>simp_all add: sys_inv_def set_group_def\<close>)
  moreover have "cur \<sigma> \<in> set cs" "\<forall>c \<in> set cs. cfg_ok srv c \<and> Num c \<le> Num (cur \<sigma>)"
    using assms(1) by (simp_all add: sys_inv_def)
  ultimately show ?thesis
    unfolding sys_inv_def G assms(4) using assms(3) by blast
qed

lemma exec_same:
  assumes "exec_maps q m = Some (m', r)" "state_ok q" "req_shard q = Some s" "t \<noteq> s"
  shows "same_shard t m m'"
  by (rule exec_maps_same [OF assms(1,2)]) (use assms(3,4) in simp)

lemma set_group_id [simp]: "set_group g (groups w g) w = w"
  by (simp add: set_group_def)

lemma freeze_step:
  assumes "sys_inv srv \<sigma> D cs w" "inj srv" "\<And>x. srv x \<noteq> []" "ctl_ok (CFreeze servers s n k) srv \<sigma>"
  shows "\<exists>w' p \<sigma>'. ctl_step lost (CFreeze servers s n k) w = Some (w', p) \<and> sys_inv srv \<sigma>' D cs w' \<and> ctl_ok p srv \<sigma>' \<and>
    p \<in> range k"
proof -
  let ?G = "\<lambda>x. groups w (srv x)" and ?g = "old_gid \<sigma> s"
  have c: "is_shard s" "pending \<sigma> \<noteq> None" "n = next_num \<sigma>" "servers = srv ?g" "?g \<noteq> new_gid \<sigma> s"
    using assms(4) by simp_all
  have inv: "phase_ok srv \<sigma>" "shard_inv \<sigma> (only s D) (known cs s) ?G s"
    using assms(1) c(1) by (simp_all add: sys_inv_def)
  obtain m r where fz: "doFreezeShard \<lparr>fzShard = s, fzNum = next_num \<sigma>\<rparr> (?G ?g) = (m, r)" by fastforce
  note fi = freeze_inv [OF inv(2), of m r, OF fz]
  have step: "ctl_step lost (CFreeze servers s n k) w = Some (set_group (srv ?g) m w, k (fzState r, OK))"
    using fi fz assms(3) by (simp add: c(3,4))
  show ?thesis
  proof (cases "stage \<sigma> s = Resting")
    case True
    let ?\<sigma> = "at_stage s (Frozen (only s D)) \<sigma>"
    have ex: "exec_maps (FreezeVal \<lparr>fzShard = s, fzNum = next_num \<sigma>\<rparr>) (?G ?g) = Some (m, FreezeRep r)" by (simp add: fz)
    have "sys_inv srv ?\<sigma> D cs (set_group (srv ?g) m w)"
      by (rule sys_inv_group [OF assms(1,2) phase_ok_at_stage [OF inv(1) c(5,2)], where s = s])
        (use fi True exec_same [OF ex] in \<open>simp_all add: req_shard_def\<close>)
    moreover have "ctl_ok (k (fzState r, OK)) srv ?\<sigma>" using assms(4) True fi by simp
    ultimately show ?thesis using step by blast
  next
    case False
    then have "m = ?G ?g" "ctl_ok (k (fzState r, OK)) srv \<sigma>"
      using fi assms(4) by (cases "stage \<sigma> s"; auto)+
    with step assms(1) show ?thesis by auto
  qed
qed

lemma install_step:
  assumes "sys_inv srv \<sigma> D cs w" "inj srv" "\<And>x. srv x \<noteq> []" "ctl_ok (CInstall servers s st n k) srv \<sigma>"
  shows "\<exists>w' p \<sigma>'. ctl_step lost (CInstall servers s st n k) w = Some (w', p) \<and> sys_inv srv \<sigma>' D cs w' \<and> ctl_ok p srv \<sigma>' \<and>
    p \<in> range k"
proof -
  let ?G = "\<lambda>x. groups w (srv x)" and ?h = "new_gid \<sigma> s"
  have c: "is_shard s" "pending \<sigma> \<noteq> None" "n = next_num \<sigma>" "servers = srv ?h" "old_gid \<sigma> s \<noteq> ?h"
    using assms(4) by simp_all
  have inv: "phase_ok srv \<sigma>" "shard_inv \<sigma> (only s D) (known cs s) ?G s"
    using assms(1) c(1) by (simp_all add: sys_inv_def)
  obtain m r where ins: "doInstallShard \<lparr>isShard = s, isState = st, isNum = next_num \<sigma>\<rparr> (?G ?h) = (m, r)" by fastforce
  have only: "only s D k \<noteq> None \<Longrightarrow> Key2Shard k = s" for k by (simp add: only_def split: if_splits)
  note ii = install_inv [OF inv(2) c(5) only, of st m r, OF _ ins]
  have step: "ctl_step lost (CInstall servers s st n k) w = Some (set_group (srv ?h) m w, k OK)"
    using ins assms(3) by (simp add: c(3,4) grp_InstallShard_def)
  show ?thesis
  proof (cases "\<exists>d. stage \<sigma> s = Frozen d")
    case True
    then obtain d where d: "stage \<sigma> s = Frozen d" "st = JsonMap d" using assms(4) by auto
    then have d': "d = only s D" using ii by simp
    let ?q = "InstallVal \<lparr>isShard = s, isState = st, isNum = next_num \<sigma>\<rparr>" and ?\<sigma> = "at_stage s Installed \<sigma>"
    have ex: "exec_maps ?q (?G ?h) = Some (m, InstallRep r)" by (simp add: ins)
    have "state_ok ?q" using only by (simp add: d d')
    then have "sys_inv srv ?\<sigma> D cs (set_group (srv ?h) m w)"
      by (intro sys_inv_group [OF assms(1,2) phase_ok_at_stage [OF inv(1) c(5,2)], where s = s])
        (use ii d exec_same [OF ex] in \<open>simp_all add: req_shard_def\<close>)
    moreover have "ctl_ok (k OK) srv ?\<sigma>" using assms(4) d by simp
    ultimately show ?thesis using step by blast
  next
    case False
    then have "m = ?G ?h" "ctl_ok (k OK) srv \<sigma>"
      using ii assms(4) by (cases "stage \<sigma> s"; auto)+
    with step assms(1) show ?thesis by auto
  qed
qed

lemma delete_step:
  assumes "sys_inv srv \<sigma> D cs w" "inj srv" "\<And>x. srv x \<noteq> []" "ctl_ok (CDelete servers s n k) srv \<sigma>"
  shows "\<exists>w' p \<sigma>'. ctl_step lost (CDelete servers s n k) w = Some (w', p) \<and> sys_inv srv \<sigma>' D cs w' \<and> ctl_ok p srv \<sigma>' \<and>
    p \<in> range k"
proof -
  let ?G = "\<lambda>x. groups w (srv x)" and ?g = "old_gid \<sigma> s" and ?\<sigma> = "at_stage s Moved \<sigma>"
  have c: "is_shard s" "pending \<sigma> \<noteq> None" "n = next_num \<sigma>" "servers = srv ?g" "?g \<noteq> new_gid \<sigma> s"
    "stage \<sigma> s = Installed \<or> stage \<sigma> s = Moved" "ctl_ok (k OK) srv ?\<sigma>"
    using assms(4) by simp_all
  have inv: "phase_ok srv \<sigma>" "shard_inv \<sigma> (only s D) (known cs s) ?G s"
    using assms(1) c(1) by (simp_all add: sys_inv_def)
  obtain m r where de: "doDeleteShard \<lparr>dsShard = s, dsNum = next_num \<sigma>\<rparr> (?G ?g) = (m, r)" by fastforce
  have ex: "exec_maps (DeleteVal \<lparr>dsShard = s, dsNum = next_num \<sigma>\<rparr>) (?G ?g) = Some (m, DeleteRep r)" by (simp add: de)
  have "sys_inv srv ?\<sigma> D cs (set_group (srv ?g) m w)"
    by (rule sys_inv_group [OF assms(1,2) phase_ok_at_stage [OF inv(1) c(5,2)], where s = s])
      (use delete_inv [OF inv(2) c(5,6), of m r, OF de] exec_same [OF ex] in \<open>simp_all add: req_shard_def\<close>)
  moreover have "ctl_step lost (CDelete servers s n k) w = Some (set_group (srv ?g) m w, k OK)"
    using de assms(3) by (simp add: c(3,4) grp_DeleteShard_def)
  ultimately show ?thesis using c(7) by blast
qed

lemma put_step:
  assumes "sys_inv srv \<sigma> D cs w" "ctl_ok (CPut key v ver k) srv \<sigma>"
  shows "\<exists>w' p \<sigma>' cs'. ctl_step lost (CPut key v ver k) w = Some (w', p) \<and> sys_inv srv \<sigma>' D cs' w' \<and>
    set cs' = insert (cur \<sigma>') (set cs) \<and> ctl_ok p srv \<sigma>' \<and> p \<in> range k"
proof -
  obtain w' e where put: "store_put key v ver w = (w', e)" by fastforce
  then have step: "ctl_step lost (CPut key v ver k) w = Some (w', k (if lost then ErrMaybe else e))" by simp
  have cur: "cur \<sigma> \<in> set cs" using assms(1) by (simp add: sys_inv_def)
  from assms(2) consider
    (config) c where "key = ConfigOf (VNum (next_num \<sigma>))" "v = VCfg c" "ver = 0" "pending \<sigma> = None" "cfg_ok srv c"
      "Num c = next_num \<sigma>" "\<forall>e \<in> {OK, ErrMaybe}. ctl_ok (k e) srv (\<sigma>\<lparr>pending := Some c\<rparr>)"
  | (latest) c where "key = Latest" "pending \<sigma> = Some c" "v = VNum (next_num \<sigma>)" "ver = curVersion \<sigma>"
      "\<forall>s. is_shard s \<and> old_gid \<sigma> s \<noteq> new_gid \<sigma> s \<longrightarrow> stage \<sigma> s = Moved" "\<forall>e. ctl_ok (k e) srv (complete c \<sigma>)"
    by auto
  then show ?thesis
  proof cases
    case config
    then have "e = OK \<and> sys_inv srv (\<sigma>\<lparr>pending := Some c\<rparr>) D cs w'"
      using put_pending [OF assms(1) config(4-6)] put by simp
    moreover from this have "ctl_ok (k (if lost then ErrMaybe else e)) srv (\<sigma>\<lparr>pending := Some c\<rparr>)"
      using config(7) by simp
    ultimately show ?thesis
      using step cur by (intro exI [of _ w'] exI [of _ "k (if lost then ErrMaybe else e)"]
          exI [of _ "\<sigma>\<lparr>pending := Some c\<rparr>"] exI [of _ cs]) auto
  next
    case latest
    then have "sys_inv srv (complete c \<sigma>) D (c # cs) w'"
      using put_latest [OF assms(1) latest(2,5)] put by simp
    moreover have "cur (complete c \<sigma>) = c" by (simp add: complete_def)
    ultimately show ?thesis
      using step latest(6) by (intro exI [of _ w'] exI [of _ "k (if lost then ErrMaybe else e)"]
          exI [of _ "complete c \<sigma>"] exI [of _ "c # cs"]) auto
  qed
qed

lemma get_step:
  assumes "sys_inv srv \<sigma> D cs w" "ctl_ok (CGet key k) srv \<sigma>"
  shows "\<exists>p. ctl_step lost (CGet key k) w = Some (w, p) \<and> ctl_ok p srv \<sigma> \<and> p \<in> range k"
proof -
  have "reads \<sigma> key (store_read w key)" using assms(1) by (simp add: sys_inv_def store_ok_def)
  then have "ctl_ok (k (store_read w key)) srv \<sigma>"
    using assms(2) by (cases "store_read w key") (simp del: reads.simps)
  then show ?thesis by (auto simp: store_read_def split: option.splits prod.splits)
qed

text \<open>What follows a step.\<close>

fun follows :: "ctl \<Rightarrow> ctl set" where
  "follows (CGet key k) = range k"
| "follows (CPut key v ver k) = range k"
| "follows (CFreeze servers s n k) = range k"
| "follows (CInstall servers s st n k) = range k"
| "follows (CDelete servers s n k) = range k"
| "follows p = {p}"

text \<open>Whatever the controller does next succeeds and keeps the data where it belongs.\<close>

lemma sys_inv_set:
  "sys_inv srv \<sigma> D cs w \<Longrightarrow> set cs' = set cs \<Longrightarrow> sys_inv srv \<sigma> D cs' w"
  by (simp add: sys_inv_def known_def)

lemma ctl_step_inv:
  assumes "sys_inv srv \<sigma> D cs w" "inj srv" "\<And>x. srv x \<noteq> []" "ctl_ok p srv \<sigma>"
  shows "\<exists>w' p' \<sigma>'. ctl_step lost p w = Some (w', p') \<and> sys_inv srv \<sigma>' D (publish w' cs) w' \<and> ctl_ok p' srv \<sigma>' \<and>
    p' \<in> follows p"
proof -
  have "\<exists>w' p' \<sigma>' cs'. ctl_step lost p w = Some (w', p') \<and> sys_inv srv \<sigma>' D cs' w' \<and>
      set cs' = insert (cur \<sigma>') (set cs) \<and> ctl_ok p' srv \<sigma>' \<and> p' \<in> follows p"
  proof -
    have stay: ?thesis
      if "ctl_step lost p w = Some (w', p')" "sys_inv srv \<sigma>' D cs w'" "ctl_ok p' srv \<sigma>'" "p' \<in> follows p" for w' p' \<sigma>'
      using that by (intro exI [of _ w'] exI [of _ p'] exI [of _ \<sigma>'] exI [of _ cs]) (auto simp: sys_inv_def)
    show ?thesis
    proof (cases p)
      case (CGet key k)
      with get_step [OF assms(1), of key k lost] assms(4) obtain p' where
        "ctl_step lost p w = Some (w, p')" "ctl_ok p' srv \<sigma>" "p' \<in> follows p" by (metis follows.simps(1))
      with stay assms(1) show ?thesis by blast
    next
      case (CPut key v ver k)
      with put_step [OF assms(1), of key v ver k lost] assms(4) show ?thesis unfolding CPut by (metis follows.simps(2))
    next
      case (CFreeze servers s n k)
      with freeze_step [OF assms(1-3), of servers s n k lost] assms(4) obtain w' p' \<sigma>' where
        "ctl_step lost p w = Some (w', p')" "sys_inv srv \<sigma>' D cs w'" "ctl_ok p' srv \<sigma>'" "p' \<in> follows p"
        by (metis follows.simps(3))
      with stay show ?thesis by blast
    next
      case (CInstall servers s st n k)
      with install_step [OF assms(1-3), of servers s st n k lost] assms(4) obtain w' p' \<sigma>' where
        "ctl_step lost p w = Some (w', p')" "sys_inv srv \<sigma>' D cs w'" "ctl_ok p' srv \<sigma>'" "p' \<in> follows p"
        by (metis follows.simps(4))
      with stay show ?thesis by blast
    next
      case (CDelete servers s n k)
      with delete_step [OF assms(1-3), of servers s n k lost] assms(4) obtain w' p' \<sigma>' where
        "ctl_step lost p w = Some (w', p')" "sys_inv srv \<sigma>' D cs w'" "ctl_ok p' srv \<sigma>'" "p' \<in> follows p"
        by (metis follows.simps(5))
      with stay show ?thesis by blast
    next
      case Done
      with stay [of w Done \<sigma>] assms(1,4) show ?thesis by simp
    qed (use assms(4) in simp)
  qed
  then obtain w' p' \<sigma>' cs' where st: "ctl_step lost p w = Some (w', p')" "sys_inv srv \<sigma>' D cs' w'"
    "set cs' = insert (cur \<sigma>') (set cs)" "ctl_ok p' srv \<sigma>'" "p' \<in> follows p" by blast
  have "store_ok \<sigma>' w'" using st(2) by (simp add: sys_inv_def)
  then have "set (publish w' cs) = set cs'" by (simp add: publish_def current_cur st(3))
  from sys_inv_set [OF st(2) this] st(1,4,5) show ?thesis by blast
qed

section \<open>Steps of clients and late requests\<close>

lemma stage_inv_cong:
  assumes "stage_inv \<sigma> d G s" "\<And>d'. stage \<sigma> s \<noteq> Frozen d'"
    and "\<And>x. maxShardNum (G' x) s = maxShardNum (G x) s \<and> frozenShards (G' x) s = frozenShards (G x) s \<and>
        migratedShards (G' x) s = migratedShards (G x) s"
  shows "stage_inv \<sigma> d' G' s"
proof -
  have "marked (frozenShards (G' x)) s = marked (frozenShards (G x)) s"
    "marked (migratedShards (G' x)) s = marked (migratedShards (G x)) s" "num_le (G' x) s n = num_le (G x) s n"
    "blocked (G' x) s = blocked (G x) s" for x n
    using assms(3) [of x] by (simp_all add: marked_def num_le_def blocked_def)
  note marks = this
  show ?thesis
  proof (cases "stage \<sigma> s")
    case (Frozen d')
    then show ?thesis using assms(2) by blast
  qed (use assms(1,3) marks in \<open>simp_all add: stage_inv_def Let_def\<close>)
qed

lemma client_step:
  assumes "sys_inv srv \<sigma> D cs w" "inj srv" "op_key q = Some k" "g \<in> known cs (Key2Shard k)"
    and "exec_maps q (groups w (srv g)) = Some (m, r)"
  obtains D' where "sys_inv srv \<sigma> D' cs (set_group (srv g) m w)" "grp_err r = ErrWrongGroup \<Longrightarrow> D' = D"
    "grp_err r \<noteq> ErrWrongGroup \<Longrightarrow> KvModel_Step (entry_state (D k)) (g_input q) (g_output r) =
       (True, Some (entry_state (D' k))) \<and> (\<forall>k'. k' \<noteq> k \<longrightarrow> D' k' = D k')"
proof (cases "blocked (groups w (srv g)) (Key2Shard k)")
  case True
  then have "m = groups w (srv g)" "grp_err r = ErrWrongGroup" using client_blocked [OF assms(5,3)] by simp_all
  with that [of D] assms(1) show ?thesis by simp
next
  case False
  let ?s = "Key2Shard k" and ?G = "\<lambda>x. groups w (srv x)"
  let ?D = "D(k := grpKeyValue m k)"
  have s: "is_shard ?s" using Key2Shard_bounds [of k] by (simp add: is_shard_def)
  then have inv: "phase_ok srv \<sigma>" "shard_inv \<sigma> (only ?s D) (known cs ?s) ?G ?s"
    using assms(1) by (simp_all add: sys_inv_def)
  then have hold: "g = holder \<sigma> ?s" using assms(4) False by (auto simp: shard_inv_def)
  have data: "shardData ?s (?G g) = only ?s D" using inv(2) hold by (simp add: shard_inv_def)
  have Dk: "Key2Shard k' = ?s \<Longrightarrow> grpKeyValue (?G g) k' = D k'" for k'
    using fun_cong [OF data, of k'] by (simp add: shardData_def only_def)
  note c = client_serves [OF assms(5,3) False]
  have data': "shardData ?s m = only ?s ?D"
    using c(2) Dk by (auto simp: shardData_def only_def fun_eq_iff)
  have grows: "dom (only ?s D) \<subseteq> dom (only ?s ?D)"
    using c(3) Dk by (auto simp: only_def split: if_splits)
  have sinv: "stage_inv \<sigma> (only ?s D) ?G ?s" using inv(2) by (simp add: shard_inv_def)
  have thawed: "stage \<sigma> ?s \<noteq> Frozen d" for d
    using sinv False by (auto simp: hold stage_inv_def holder_def blocked_def Let_def)
  have "stage_inv \<sigma> (only ?s ?D) (?G(g := m)) ?s"
    by (rule stage_inv_cong [OF sinv thawed]) (simp add: c(4-6))
  then have "shard_inv \<sigma> (only ?s ?D) (known cs ?s) (?G(g := m)) ?s"
    unfolding shard_inv_def
  proof (intro conjI ballI allI impI)
    have "dom (shardData ?s (?G x)) \<subseteq> dom (only ?s D)" for x using inv(2) by (simp add: shard_inv_def)
    then show "dom (shardData ?s ((?G(g := m)) x)) \<subseteq> dom (only ?s ?D)" for x
      using grows data' by (metis fun_upd_apply order_refl subset_trans)
  qed (use inv(2) hold data' in \<open>auto simp: shard_inv_def\<close>)
  moreover have "same_shard t (?G g) m \<and> only t ?D = only t D" if "t \<noteq> ?s" for t
  proof
    have "state_ok q" using assms(3) by (cases q) simp_all
    then show "same_shard t (?G g) m"
      by (rule exec_same [OF assms(5) _ _ that]) (simp add: req_shard_def op_key_admin [OF assms(3)] assms(3))
    show "only t ?D = only t D" using that by (auto simp: only_def)
  qed
  ultimately have "sys_inv srv \<sigma> ?D cs (set_group (srv g) m w)"
    by (intro sys_inv_group [OF assms(1,2) inv(1), where s = ?s]) simp_all
  moreover have "KvModel_Step (entry_state (D k)) (g_input q) (g_output r) = (True, Some (entry_state (?D k)))"
    using c(1) Dk [of k] by simp
  ultimately show ?thesis using that [of ?D] c(7) by simp
qed

definition all_settled :: "(string list \<times> grp_req) list \<Rightarrow> world \<Rightarrow> bool" where
  "all_settled I w \<longleftrightarrow> (\<forall>sv q. (sv, q) \<in> set I \<longrightarrow> settled q (groups w sv))"

lemma issued_exec:
  assumes "all_settled I w" "exec_maps q' (groups w servers) = Some (m, r)"
  shows "all_settled I (set_group servers m w)"
  using assms(1) settled_exec [OF _ assms(2)] by (auto simp: all_settled_def set_group_def)

lemma issued_ctl:
  assumes "all_settled I w" "ctl_step lost p w = Some (w', p')"
  shows "all_settled (I @ sent p) w'"
proof -
  have exec: "all_settled (I @ [(servers, q')]) w'"
    if "exec_maps q' (groups w servers) = Some (m, r)" "w' = set_group servers m w" "admin q' \<noteq> None" for servers q' m r
    using issued_exec [OF assms(1) that(1)] settled_new [OF that(1,3)] that(2) by (auto simp: all_settled_def set_group_def)
  show ?thesis
  proof (cases p)
    case (CFreeze servers s n k)
    show ?thesis
      unfolding CFreeze sent.simps
      by (rule exec [of _ _ "fst (doFreezeShard \<lparr>fzShard = s, fzNum = n\<rparr> (groups w servers))"
            "FreezeRep (snd (doFreezeShard \<lparr>fzShard = s, fzNum = n\<rparr> (groups w servers)))"])
        (use assms(2) in \<open>auto simp: CFreeze Let_def split: if_splits prod.splits\<close>)
  next
    case (CInstall servers s st n k)
    show ?thesis
      unfolding CInstall sent.simps
      by (rule exec [of _ _ "fst (doInstallShard \<lparr>isShard = s, isState = st, isNum = n\<rparr> (groups w servers))"
            "InstallRep (snd (doInstallShard \<lparr>isShard = s, isState = st, isNum = n\<rparr> (groups w servers)))"])
        (use assms(2) in \<open>auto simp: CInstall Let_def split: if_splits prod.splits\<close>)
  next
    case (CDelete servers s n k)
    show ?thesis
      unfolding CDelete sent.simps
      by (rule exec [of _ _ "fst (doDeleteShard \<lparr>dsShard = s, dsNum = n\<rparr> (groups w servers))"
            "DeleteRep (snd (doDeleteShard \<lparr>dsShard = s, dsNum = n\<rparr> (groups w servers)))"])
        (use assms(2) in \<open>auto simp: CDelete Let_def split: if_splits prod.splits\<close>)
  qed (use assms in \<open>auto simp: all_settled_def store_put_def split: option.splits if_splits prod.splits\<close>)
qed

section \<open>All steps\<close>

definition serves :: "(int \<Rightarrow> string list) \<Rightarrow> (grp_req \<times> grp_rep) list \<Rightarrow> shard_sys \<Rightarrow> bool" where
  "serves srv H s \<longleftrightarrow> (\<exists>\<sigma> D.
     sys_inv srv \<sigma> D (sysPublished s) (sysWorld s) \<and> ctl_ok (sysProg s) srv \<sigma> \<and>
     (all_settled (sysIssued s) (sysWorld s)) \<and>
     (\<forall>k. model_run KvModel_Init (history_of k H) = Some (entry_state (D k))))"

lemma servesE:
  assumes "serves srv H s"
  obtains \<sigma> D where "sys_inv srv \<sigma> D (sysPublished s) (sysWorld s)" "ctl_ok (sysProg s) srv \<sigma>"
    "all_settled (sysIssued s) (sysWorld s)"
    "\<And>k. model_run KvModel_Init (history_of k H) = Some (entry_state (D k))"
  using assms unfolding serves_def by blast

lemma serves_ctl:
  assumes "serves srv H s" "inj srv" "\<And>x. srv x \<noteq> []"
  shows "returns (shard_step srv (ECtl lost) s) (\<lambda>(s', os). serves srv (H @ os) s')"
  using assms(1)
proof (rule servesE)
  fix \<sigma> D
  assume inv: "sys_inv srv \<sigma> D (sysPublished s) (sysWorld s)" "ctl_ok (sysProg s) srv \<sigma>"
    "all_settled (sysIssued s) (sysWorld s)"
    and H: "\<And>k. model_run KvModel_Init (history_of k H) = Some (entry_state (D k))"
  obtain w' p' \<sigma>' where st: "ctl_step lost (sysProg s) (sysWorld s) = Some (w', p')"
    and inv': "sys_inv srv \<sigma>' D (publish w' (sysPublished s)) w'" "ctl_ok p' srv \<sigma>'"
    using ctl_step_inv [OF inv(1) assms(2,3) inv(2), of lost] by blast
  have "all_settled (sysIssued s @ sent (sysProg s)) w'"
    by (rule issued_ctl [OF inv(3) st])
  with st inv' H show ?thesis by (auto simp: serves_def)
qed

lemma serves_client:
  assumes "serves srv H s" "inj srv" "shard_ok srv (EClient g q) s"
  shows "returns (shard_step srv (EClient g q) s) (\<lambda>(s', os). serves srv (H @ os) s')"
  using assms(1)
proof (rule servesE)
  fix \<sigma> D
  assume inv: "sys_inv srv \<sigma> D (sysPublished s) (sysWorld s)" "ctl_ok (sysProg s) srv \<sigma>"
    "all_settled (sysIssued s) (sysWorld s)"
    and H: "\<And>k. model_run KvModel_Init (history_of k H) = Some (entry_state (D k))"
  let ?w = "sysWorld s"
  obtain k c where k: "op_key q = Some k" and c: "c \<in> set (sysPublished s)" "go_index (Shards c) (Key2Shard k) = Some g"
    using assms(3) by (auto simp: list_ex_iff split: option.splits)
  have known: "g \<in> known (sysPublished s) (Key2Shard k)"
    using c by (auto simp: known_def dest!: go_index_SomeD)
  have "q \<noteq> GOther" using k by auto
  then obtain m r where ex: "exec_maps q (groups ?w (srv g)) = Some (m, r)"
    using exec_maps_total [of q "groups ?w (srv g)"] by auto
  let ?w' = "set_group (srv g) m ?w"
  have issued: "all_settled (sysIssued s) ?w'" by (rule issued_exec [OF inv(3) ex])
  obtain D' where D': "sys_inv srv \<sigma> D' (sysPublished s) ?w'" "grp_err r = ErrWrongGroup \<Longrightarrow> D' = D"
    "grp_err r \<noteq> ErrWrongGroup \<Longrightarrow> KvModel_Step (entry_state (D k)) (g_input q) (g_output r) =
       (True, Some (entry_state (D' k))) \<and> (\<forall>k'. k' \<noteq> k \<longrightarrow> D' k' = D k')"
    using client_step [OF inv(1) assms(2) k known ex] by metis
  let ?os = "if grp_err r = ErrWrongGroup then [] else [(q, r)]"
  have "model_run KvModel_Init (history_of k' (H @ ?os)) = Some (entry_state (D' k'))" for k'
    using H [of k'] D'(2,3) k
    by (cases "k' = k"; cases "grp_err r = ErrWrongGroup") (auto simp: history_of_def model_run_append)
  then have "serves srv (H @ ?os) (s\<lparr>sysWorld := ?w'\<rparr>)"
    unfolding serves_def using D'(1) inv(2) issued by auto
  then show ?thesis by (simp add: exec_at_def ex)
qed

lemma serves_restart:
  assumes "serves srv H s"
  shows "serves srv H (s\<lparr>sysProg := InitController Done\<rparr>)"
  using assms
proof (rule servesE)
  fix \<sigma> D
  assume inv: "sys_inv srv \<sigma> D (sysPublished s) (sysWorld s)"
    and rest: "all_settled (sysIssued s) (sysWorld s)"
      "\<And>k. model_run KvModel_Init (history_of k H) = Some (entry_state (D k))"
  have "ctl_ok (InitController Done) srv \<sigma>"
    by (rule ctl_ok_InitController) (use inv in \<open>simp add: sys_inv_def\<close>)
  with inv rest show ?thesis unfolding serves_def by auto
qed

lemma serves_change:
  assumes "serves srv H s" "shard_ok srv (EChange new) s"
  shows "returns (shard_step srv (EChange new) s) (\<lambda>(s', os). serves srv (H @ os) s')"
proof (cases "sysProg s")
  case Done
  show ?thesis
    using assms(1)
  proof (rule servesE)
    fix \<sigma> D
    assume inv: "sys_inv srv \<sigma> D (sysPublished s) (sysWorld s)" "ctl_ok (sysProg s) srv \<sigma>"
      and rest: "all_settled (sysIssued s) (sysWorld s)"
        "\<And>k. model_run KvModel_Init (history_of k H) = Some (entry_state (D k))"
    have pub: "cur \<sigma> \<in> set (sysPublished s)" "\<forall>c \<in> set (sysPublished s). Num c \<le> Num (cur \<sigma>)" "phase_ok srv \<sigma>"
      using inv(1) by (simp_all add: sys_inv_def)
    have new: "cfg_ok srv new" "\<forall>c \<in> set (sysPublished s). Num new \<ge> Num c + 1" "\<exists>c \<in> set (sysPublished s). Num new = Num c + 1"
      using assms(2) by (auto simp: list_all_iff list_ex_iff)
    have "Num new = next_num \<sigma>" using new(2,3) pub(1,2) by (metis add_le_cancel_right order_antisym)
    then have "ctl_ok (ChangeConfigTo new Done) srv \<sigma>"
      by (intro ctl_ok_ChangeConfigTo) (use inv(2) pub(3) new(1) Done in simp_all)
    with inv(1) rest Done show ?thesis by (auto simp: serves_def)
  qed
qed (use assms(1) in simp_all)

lemma serves_redo:
  assumes "serves srv H s"
  shows "returns (shard_step srv (ERedo i) s) (\<lambda>(s', os). serves srv (H @ os) s')"
proof (cases "i < length (sysIssued s)")
  case True
  obtain sv q where sq: "sysIssued s ! i = (sv, q)" by fastforce
  then have "(sv, q) \<in> set (sysIssued s)" using True by (metis nth_mem)
  then have st: "settled q (groups (sysWorld s) sv)"
    using assms unfolding serves_def all_settled_def by blast
  then have "q \<noteq> GOther" by (auto simp: settled_def)
  then obtain m r where ex: "exec_maps q (groups (sysWorld s) sv) = Some (m, r)"
    using exec_maps_total [of q "groups (sysWorld s) sv"] by auto
  from settled_redo [OF st ex] ex True sq assms show ?thesis by (simp add: exec_at_def)
qed (use assms in simp)

text \<open>The contract on the names of servers, and what a system with such names is.\<close>

locale service_names =
  fixes srv :: "int \<Rightarrow> string list"
  assumes srv_inj: "inj srv"
    and srv_ne: "srv x \<noteq> []"
begin

lemma shard_step_serves:
  assumes "serves srv H s" "shard_ok srv e s"
  shows "returns (shard_step srv e s) (\<lambda>(s', os). serves srv (H @ os) s')"
proof (cases e)
  case (ECtl lost)
  show ?thesis unfolding ECtl by (rule serves_ctl [OF assms(1) srv_inj srv_ne])
next
  case ERestart
  then show ?thesis using serves_restart [OF assms(1)] by simp
next
  case (EChange new)
  show ?thesis using assms(2) unfolding EChange by (rule serves_change [OF assms(1)])
next
  case (EClient g q)
  show ?thesis using assms(2) unfolding EClient by (rule serves_client [OF assms(1) srv_inj])
next
  case (ERedo i)
  show ?thesis unfolding ERedo by (rule serves_redo [OF assms(1)])
qed

end

sublocale service_names < shards: machine "shard_step srv" "shard_ok srv" "serves srv"
  by unfold_locales (rule shard_step_serves)

interpretation names: service_names "SrvNames (Suc n)" for n
  by unfold_locales (simp_all add: inj_SrvNames SrvNames_ne)

section \<open>From the first configuration on\<close>

definition empty_world :: world where
  "empty_world = \<lparr>store = Map.empty, groups = \<lambda>servers. empty_maps\<rparr>"

primrec ctl_run :: "nat \<Rightarrow> ctl \<Rightarrow> world \<Rightarrow> (world \<times> ctl) option" where
  "ctl_run 0 p w = Some (w, p)"
| "ctl_run (Suc n) p w = do { (w', p') \<leftarrow> ctl_step False p w; ctl_run n p' w' }"

text \<open>The system after \<^verbatim>\<open>InitConfig\<close>, which makes two calls.\<close>

definition start_sys :: "ShardConfig \<Rightarrow> shard_sys" where
  "start_sys c =
     \<lparr>sysWorld = fst (the (ctl_run 2 (InitConfig c Done) empty_world)), sysProg = Done, sysIssued = [],
      sysPublished = [c]\<rparr>"

lemma start_world:
  "sysWorld (start_sys c) =
     empty_world\<lparr>store := [ConfigOf (VNum (Num c)) \<mapsto> (VCfg c, 1), Latest \<mapsto> (VNum (Num c), 1)]\<rparr>"
  by (simp add: start_sys_def numeral_2_eq_2 InitConfig_def store_put_def empty_world_def)

lemma start_serves:
  assumes "cfg_ok srv c" "0 \<le> Num c"
  shows "serves srv [] (start_sys c)"
proof -
  let ?\<sigma> = "\<lparr>cur = c, curVersion = 1, pending = None, stage = \<lambda>s. Resting\<rparr>"
  let ?w = "sysWorld (start_sys c)"
  have "store_ok ?\<sigma> ?w"
    by (rule store_okI [where ?v1.0 = 1]) (simp_all add: start_world empty_world_def)
  moreover have "phase_ok srv ?\<sigma>" using assms by (simp add: phase_ok_def)
  moreover have "shard_inv ?\<sigma> (only s Map.empty) (known [c] s) (\<lambda>x. groups ?w (srv x)) s" for s
    by (auto simp: shard_inv_def stage_inv_def holder_def known_def old_gid_def start_world empty_world_def
        empty_maps_def shardData_def only_def blocked_def marked_def num_le_def Let_def)
  ultimately have "sys_inv srv ?\<sigma> Map.empty [c] ?w"
    using assms(1) by (simp add: sys_inv_def)
  then show ?thesis
    unfolding serves_def by (intro exI [of _ ?\<sigma>] exI [of _ Map.empty])
      (simp add: start_sys_def all_settled_def history_of_def entry_state_def)
qed



section \<open>Recovery\<close>

definition completes :: "(int \<Rightarrow> string list) \<Rightarrow> (string \<rightharpoonup> ValueEntry) \<Rightarrow> ctl \<Rightarrow> world \<Rightarrow> bool" where
  "completes srv D p w \<longleftrightarrow>
     (\<exists>m w' \<sigma> cs. ctl_run m p w = Some (w', Done) \<and> sys_inv srv \<sigma> D cs w' \<and> pending \<sigma> = None)"

lemma completes_step:
  assumes "sys_inv srv \<sigma> D cs w" "inj srv" "\<And>x. srv x \<noteq> []" "ctl_ok p srv \<sigma>"
    and "\<And>p' \<sigma> cs w. p' \<in> follows p \<Longrightarrow> sys_inv srv \<sigma> D cs w \<Longrightarrow> ctl_ok p' srv \<sigma> \<Longrightarrow> completes srv D p' w"
  shows "completes srv D p w"
proof -
  obtain w1 p1 \<sigma>1 where st: "ctl_step False p w = Some (w1, p1)" "sys_inv srv \<sigma>1 D (publish w1 cs) w1"
    "ctl_ok p1 srv \<sigma>1" "p1 \<in> follows p"
    using ctl_step_inv [OF assms(1-4)] by blast
  from assms(5) [OF st(4,2,3)] obtain m w' \<sigma> cs where
    "ctl_run m p1 w1 = Some (w', Done)" "sys_inv srv \<sigma> D cs w'" "pending \<sigma> = None"
    unfolding completes_def by blast
  moreover from this st(1) have "ctl_run (Suc m) p w = Some (w', Done)" by simp
  ultimately show ?thesis unfolding completes_def by blast
qed

text \<open>A controller that is let run comes to its end: programs are finite and every call is answered.\<close>

lemma ctl_completes:
  assumes "sys_inv srv \<sigma> D cs w" "inj srv" "\<And>x. srv x \<noteq> []" "ctl_ok p srv \<sigma>"
  shows "completes srv D p w"
  using assms(1,4)
proof (induction p arbitrary: \<sigma> cs w)
  case Done
  have "ctl_run 0 Done w = Some (w, Done)" by simp
  with Done show ?case unfolding completes_def by (metis ctl_ok.simps(1))
next
  case (CGet key k)
  show ?case by (rule completes_step [OF CGet.prems(1) assms(2,3) CGet.prems(2)]) (use CGet.IH in auto)
next
  case (CPut key v ver k)
  show ?case by (rule completes_step [OF CPut.prems(1) assms(2,3) CPut.prems(2)]) (use CPut.IH in auto)
next
  case (CFreeze servers s n k)
  show ?case by (rule completes_step [OF CFreeze.prems(1) assms(2,3) CFreeze.prems(2)]) (use CFreeze.IH in auto)
next
  case (CInstall servers s st n k)
  show ?case by (rule completes_step [OF CInstall.prems(1) assms(2,3) CInstall.prems(2)]) (use CInstall.IH in auto)
next
  case (CDelete servers s n k)
  show ?case by (rule completes_step [OF CDelete.prems(1) assms(2,3) CDelete.prems(2)]) (use CDelete.IH in auto)
qed simp


section \<open>A run\<close>

text \<open>Two groups of one server each; the shard of key \<open>a\<close>, which is shard 4, moves from group 1 to group 2. The
  controller crashes after it froze the shard; clients with the old configuration are refused
  meanwhile. The recovering controller completes the move, and then the first \<^verbatim>\<open>FreezeShard\<close> arrives again.\<close>

definition sample_cfg :: "int \<Rightarrow> int \<Rightarrow> ShardConfig" where
  "sample_cfg N g =
     \<lparr>Num = N, Shards = (replicate 12 1)[4 := g], Groups = [(1, SrvNames 1 1), (2, SrvNames 1 2)]\<rparr>"

definition sample_put :: "string \<Rightarrow> Tversion \<Rightarrow> grp_req" where
  "sample_put v ver = GPutVal \<lparr>putKey = ''a'', putValue = v, putVersion = ver\<rparr>"

definition sample_get :: grp_req where
  "sample_get = GGetVal \<lparr>getKey = ''a''\<rparr>"

definition sample_run :: "shard_event list" where
  "sample_run =
     [EClient 1 (sample_put ''v'' 0), EChange (sample_cfg 2 2)] @ replicate 10 (ECtl False) @
     [EClient 1 (sample_put ''w'' 1), EClient 1 sample_get, ERestart] @ replicate 18 (ECtl False) @
     [ERedo 0, EClient 1 sample_get, EClient 2 (sample_put ''w'' 1), EClient 2 sample_get]"

lemma sample_run_ok:
  "cfg_ok (SrvNames 1) (sample_cfg 1 1)" "0 \<le> Num (sample_cfg 1 1)"
  "admissible (shard_step (SrvNames 1)) (shard_ok (SrvNames 1)) sample_run (start_sys (sample_cfg 1 1))"
  by code_simp+

lemma sample_run_replies:
  "map_option (map (grp_err \<circ> snd) \<circ> snd) (run (shard_step (SrvNames 1)) sample_run (start_sys (sample_cfg 1 1))) =
     Some [OK, OK, OK]"
  by code_simp




end
