(* ===== verification/MR_Coordinator.thy ===== *)
theory MR_Coordinator
  imports Machine Strconv
begin

text \<open>
  The MapReduce coordinator, \<^verbatim>\<open>src/mr/coordinator.go\<close>. The goroutine \<^verbatim>\<open>schedule\<close> serves one message at a time
  from two rendezvous channels, so a call of \<^verbatim>\<open>HeartBeat\<close> or \<^verbatim>\<open>Report\<close> is one step on its state. Times
  are seconds, as only \<^verbatim>\<open>Unix()\<close> of them is used.
\<close>

section \<open>State and messages\<close>

datatype taskStatus = Idle | Paused | Running | Finished

datatype SchedulePhase = Map | Reduce | Done

datatype JobType = MapJob | ReduceJob | WaitJob | CompleteJob

record Task =
  FileName :: string
  task_Id :: int
  StartTime :: int
  Sstatus :: taskStatus

record Coordinator =
  files :: "string list"
  NnReduce :: int
  nMap :: int
  phase :: SchedulePhase
  tasks :: "Task list"

record ReportRequest =
  req_JjobType :: JobType
  req_TtaskId :: int
  req_Sstatus :: taskStatus

record HeartbeatResponse =
  JjobType :: JobType
  TtaskId :: int
  TtaskPtr :: "Task option"
  resp_NnReduce :: int

text \<open>The response a worker starts from, which stays if the call fails.\<close>

definition zero_response :: HeartbeatResponse where
  "zero_response = \<lparr>JjobType = MapJob, TtaskId = 0, TtaskPtr = None, resp_NnReduce = 0\<rparr>"

section \<open>Heartbeats\<close>

text \<open>The loop that looks for a task, the same for the two kinds: the tasks of the kind start at \<open>base\<close>,
  \<open>n\<close> of them are left, the next one is \<open>i\<close>. A running task is given out again after more than ten
  seconds. \<open>now\<close> is the clock, read in the iterations.\<close>

fun ask_task :: "JobType \<Rightarrow> int \<Rightarrow> (int \<Rightarrow> int) \<Rightarrow> nat \<Rightarrow> int \<Rightarrow> Coordinator \<Rightarrow> (Coordinator \<times> HeartbeatResponse) option" where
  "ask_task job base now 0 i c =
     Some (c, \<lparr>JjobType = WaitJob, TtaskId = 0, TtaskPtr = None, resp_NnReduce = NnReduce c\<rparr>)"
| "ask_task job base now (Suc n) i c =
     do { t \<leftarrow> go_index (tasks c) (base + i);
          if Sstatus t = Idle \<or> Sstatus t = Paused
          then let t' = t\<lparr>Sstatus := Running, StartTime := now i\<rparr> in
            do { ts \<leftarrow> go_update (tasks c) (base + i) t';
                 Some (c\<lparr>tasks := ts\<rparr>, \<lparr>JjobType = job, TtaskId = i, TtaskPtr = Some t', resp_NnReduce = NnReduce c\<rparr>) }
          else if Sstatus t = Running \<and> now i - StartTime t > 10
          then let t' = t\<lparr>StartTime := now i\<rparr> in
            do { ts \<leftarrow> go_update (tasks c) (base + i) t';
                 Some (c\<lparr>tasks := ts\<rparr>, \<lparr>JjobType = job, TtaskId = i, TtaskPtr = Some t', resp_NnReduce = NnReduce c\<rparr>) }
          else ask_task job base now n (i + 1) c }"

definition HeartBeat :: "(int \<Rightarrow> int) \<Rightarrow> Coordinator \<Rightarrow> (Coordinator \<times> HeartbeatResponse) option" where
  "HeartBeat now c =
     (case phase c of
        Done \<Rightarrow> Some (c, \<lparr>JjobType = CompleteJob, TtaskId = 0, TtaskPtr = None, resp_NnReduce = NnReduce c\<rparr>)
      | Map \<Rightarrow> ask_task MapJob 0 now (nat (nMap c)) 0 c
      | Reduce \<Rightarrow> ask_task ReduceJob (nMap c) now (nat (NnReduce c)) 0 c)"

section \<open>Reports\<close>

text \<open>The loop that checks whether \<open>n\<close> tasks from \<open>i\<close> on are finished.\<close>

fun all_finished :: "nat \<Rightarrow> int \<Rightarrow> Task list \<Rightarrow> bool option" where
  "all_finished 0 i ts = Some True"
| "all_finished (Suc n) i ts =
     do { t \<leftarrow> go_index ts i;
          if Sstatus t \<noteq> Finished then Some False else all_finished n (i + 1) ts }"

definition Report :: "ReportRequest \<Rightarrow> Coordinator \<Rightarrow> Coordinator option" where
  "Report req c =
     do { let taskIdTemp = (if req_JjobType req = ReduceJob then req_TtaskId req + nMap c else req_TtaskId req);
          t \<leftarrow> go_index (tasks c) taskIdTemp;
          ts \<leftarrow> go_update (tasks c) taskIdTemp (t\<lparr>Sstatus := Finished\<rparr>);
          let c = c\<lparr>tasks := ts\<rparr>;
          c \<leftarrow> (if phase c = Reduce
               then do { flag2Change \<leftarrow> all_finished (nat (NnReduce c)) (nMap c) (tasks c);
                         Some (if flag2Change then c\<lparr>phase := Done\<rparr> else c) }
               else Some c);
          if phase c = Map
          then do { flag2Change \<leftarrow> all_finished (nat (nMap c)) 0 (tasks c);
                    Some (if flag2Change then c\<lparr>phase := Reduce\<rparr> else c) }
          else Some c }"

definition Done_rpc :: "Coordinator \<Rightarrow> bool" where
  "Done_rpc c \<longleftrightarrow> phase c = Done"

section \<open>Start\<close>

definition MakeCoordinator :: "string list \<Rightarrow> int \<Rightarrow> int \<Rightarrow> Coordinator" where
  "MakeCoordinator fs nReduce now =
     \<lparr>files = fs, NnReduce = nReduce, nMap = go_len fs, phase = Map,
      tasks = map (\<lambda>(i, f). \<lparr>FileName = f, task_Id = int i, StartTime = now, Sstatus = Idle\<rparr>) (enumerate 0 fs) @
        map (\<lambda>i. \<lparr>FileName = '''', task_Id = i, StartTime = now, Sstatus = Idle\<rparr>) [go_len fs..nReduce + go_len fs - 1]\<rparr>"

section \<open>The invariant\<close>

abbreviation status :: "Coordinator \<Rightarrow> int \<Rightarrow> taskStatus" where
  "status c i \<equiv> Sstatus (tasks c ! nat i)"

abbreviation map_done :: "Coordinator \<Rightarrow> int \<Rightarrow> bool" where
  "map_done c m \<equiv> 0 \<le> m \<and> m < nMap c \<and> status c m = Finished"

abbreviation reduce_done :: "Coordinator \<Rightarrow> int \<Rightarrow> bool" where
  "reduce_done c r \<equiv> 0 \<le> r \<and> r < NnReduce c \<and> status c (nMap c + r) = Finished"

text \<open>Tasks keep their place, file and number; the phase says which tasks are finished.\<close>

definition coord_inv :: "Coordinator \<Rightarrow> bool" where
  "coord_inv c \<longleftrightarrow> nMap c = go_len (files c) \<and> 0 \<le> NnReduce c \<and> go_len (tasks c) = nMap c + NnReduce c \<and>
     (\<forall>m. 0 \<le> m \<and> m < nMap c \<longrightarrow> FileName (tasks c ! nat m) = files c ! nat m \<and> task_Id (tasks c ! nat m) = m) \<and>
     (phase c \<noteq> Map \<longrightarrow> (\<forall>m. 0 \<le> m \<and> m < nMap c \<longrightarrow> map_done c m)) \<and>
     (phase c = Done \<longrightarrow> (\<forall>r. 0 \<le> r \<and> r < NnReduce c \<longrightarrow> reduce_done c r))"

text \<open>What a response promises the worker.\<close>

definition response_ok :: "Coordinator \<Rightarrow> HeartbeatResponse \<Rightarrow> bool" where
  "response_ok c resp \<longleftrightarrow> resp_NnReduce resp = NnReduce c \<and>
     (case JjobType resp of
        MapJob \<Rightarrow> 0 \<le> TtaskId resp \<and> TtaskId resp < nMap c \<and>
          (\<exists>t. TtaskPtr resp = Some t \<and> FileName t = files c ! nat (TtaskId resp) \<and> task_Id t = TtaskId resp)
      | ReduceJob \<Rightarrow> 0 \<le> TtaskId resp \<and> TtaskId resp < NnReduce c \<and> (\<forall>m. 0 \<le> m \<and> m < nMap c \<longrightarrow> map_done c m)
      | WaitJob \<Rightarrow> phase c \<noteq> Done
      | CompleteJob \<Rightarrow> phase c = Done)"

text \<open>A task that is given out keeps its file and number and is not finished.\<close>

definition same_tasks :: "Coordinator \<Rightarrow> Coordinator \<Rightarrow> bool" where
  "same_tasks c c' \<longleftrightarrow> files c' = files c \<and> NnReduce c' = NnReduce c \<and> nMap c' = nMap c \<and>
     length (tasks c') = length (tasks c) \<and>
     (\<forall>i < length (tasks c). FileName (tasks c' ! i) = FileName (tasks c ! i) \<and> task_Id (tasks c' ! i) = task_Id (tasks c ! i))"

definition advances :: "Coordinator \<Rightarrow> Coordinator \<Rightarrow> bool" where
  "advances c c' \<longleftrightarrow> same_tasks c c' \<and> phase c' = phase c \<and>
     (\<forall>k < length (tasks c). Sstatus (tasks c' ! k) = Finished \<longleftrightarrow> Sstatus (tasks c ! k) = Finished)"

lemma task_advances_refl [simp]: "advances c c"
  by (simp add: advances_def same_tasks_def)

lemma advances_assign:
  assumes "i < length (tasks c)" "FileName t = FileName (tasks c ! i)" "task_Id t = task_Id (tasks c ! i)"
    "Sstatus t \<noteq> Finished" "Sstatus (tasks c ! i) \<noteq> Finished"
  shows "advances c (c\<lparr>tasks := (tasks c)[i := t]\<rparr>)"
  using assms by (auto simp: advances_def same_tasks_def nth_list_update)

lemma coord_inv_same:
  assumes "coord_inv c" "same_tasks c c'" "phase c' = phase c"
    and fin: "\<And>k. k < length (tasks c) \<Longrightarrow> Sstatus (tasks c ! k) = Finished \<Longrightarrow> Sstatus (tasks c' ! k) = Finished"
  shows "coord_inv c'"
proof -
  have len: "int (length (tasks c)) = nMap c + NnReduce c" "0 \<le> nMap c" "0 \<le> NnReduce c"
    using assms(1) by (simp_all add: coord_inv_def go_len_def)
  have m: "nat m < length (tasks c)" if "0 \<le> m" "m < nMap c" for m using that len by linarith
  have r: "nat (nMap c + r) < length (tasks c)" if "0 \<le> r" "r < NnReduce c" for r using that len by linarith
  show ?thesis
    using assms(1-3) m r fin unfolding coord_inv_def same_tasks_def by (auto simp: go_len_def)
qed

lemma coord_inv_advances: "coord_inv c \<Longrightarrow> advances c c' \<Longrightarrow> coord_inv c'"
  using coord_inv_same [of c c'] by (simp add: advances_def)

lemma ask_task_ok:
  fixes now :: "int \<Rightarrow> int"
  assumes "0 \<le> base + i" "base + i + int n \<le> go_len (tasks c)"
  shows "returns (ask_task job base now n i c) (\<lambda>(c', resp). advances c c' \<and> resp_NnReduce resp = NnReduce c \<and>
    (JjobType resp = WaitJob \<or> JjobType resp = job \<and> i \<le> TtaskId resp \<and> TtaskId resp < i + int n \<and>
       TtaskPtr resp = Some (tasks c' ! nat (base + TtaskId resp))))"
  using assms
proof (induction n arbitrary: i)
  case (Suc n)
  have i: "nat (base + i) < length (tasks c)" using Suc.prems by (simp add: go_len_def)
  from Suc.IH [of "i + 1"] Suc.prems
  have IH: "returns (ask_task job base now n (i + 1) c) (\<lambda>(c', resp). advances c c' \<and> resp_NnReduce resp = NnReduce c \<and>
    (JjobType resp = WaitJob \<or> JjobType resp = job \<and> i \<le> TtaskId resp \<and> TtaskId resp < i + int (Suc n) \<and>
       TtaskPtr resp = Some (tasks c' ! nat (base + TtaskId resp))))"
    by (auto elim!: returns_mono)
  show ?case
    using Suc.prems i by (auto simp: Let_def advances_assign intro!: returns_mono [OF IH])
qed simp

lemma HeartBeat_ok:
  assumes "coord_inv c"
  shows "returns (HeartBeat now c) (\<lambda>(c', resp). coord_inv c' \<and> advances c c' \<and> response_ok c' resp)"
proof -
  have b: "0 \<le> nMap c" "0 \<le> NnReduce c" "go_len (tasks c) = nMap c + NnReduce c"
    using assms by (simp_all add: coord_inv_def)
  note inv = coord_inv_advances [OF assms]
  show ?thesis
  proof (cases "phase c")
    case Map
    with b have "returns (HeartBeat now c) (\<lambda>(c', resp). advances c c' \<and> resp_NnReduce resp = NnReduce c \<and>
      (JjobType resp = WaitJob \<or> JjobType resp = MapJob \<and> 0 \<le> TtaskId resp \<and> TtaskId resp < nMap c \<and>
         TtaskPtr resp = Some (tasks c' ! nat (TtaskId resp))))"
      using ask_task_ok [of 0 0 "nat (nMap c)" c MapJob now] by (simp add: HeartBeat_def)
    then show ?thesis
      by (rule returns_mono)
        (use inv Map in \<open>auto simp: response_ok_def advances_def same_tasks_def coord_inv_def\<close>)
  next
    case Reduce
    with b have "returns (HeartBeat now c) (\<lambda>(c', resp). advances c c' \<and> resp_NnReduce resp = NnReduce c \<and>
      (JjobType resp = WaitJob \<or> JjobType resp = ReduceJob \<and> 0 \<le> TtaskId resp \<and> TtaskId resp < NnReduce c \<and>
         TtaskPtr resp = Some (tasks c' ! nat (nMap c + TtaskId resp))))"
      using ask_task_ok [of "nMap c" 0 "nat (NnReduce c)" c ReduceJob now] by (simp add: HeartBeat_def)
    then show ?thesis
      by (rule returns_mono)
        (use inv Reduce in \<open>auto simp: response_ok_def advances_def same_tasks_def coord_inv_def\<close>)
  qed (use assms in \<open>simp add: HeartBeat_def response_ok_def\<close>)
qed

lemma all_finished_ok:
  "0 \<le> i \<Longrightarrow> i + int n \<le> go_len ts \<Longrightarrow>
   all_finished n i ts = Some (\<forall>k \<in> {i..<i + int n}. Sstatus (ts ! nat k) = Finished)"
proof (induction n arbitrary: i)
  case (Suc n)
  have "{i..<i + int (Suc n)} = insert i {i + 1..<i + 1 + int n}" by auto
  then have "(\<forall>k \<in> {i..<i + int (Suc n)}. Sstatus (ts ! nat k) = Finished) \<longleftrightarrow>
      Sstatus (ts ! nat i) = Finished \<and> (\<forall>k \<in> {i + 1..<i + 1 + int n}. Sstatus (ts ! nat k) = Finished)"
    by (simp only: ball_simps)
  with Suc.IH [of "i + 1"] Suc.prems show ?case by (simp only: all_finished.simps) (simp add: go_index_def)
qed simp

lemma all_from: "(\<forall>k \<in> {a..<a + b}. P k) \<longleftrightarrow> (\<forall>r. 0 \<le> r \<and> r < b \<longrightarrow> P (a + r))" for a b :: int
proof (intro iffI ballI allI impI)
  fix k assume "\<forall>r. 0 \<le> r \<and> r < b \<longrightarrow> P (a + r)" and k: "k \<in> {a..<a + b}"
  then have "0 \<le> k - a \<and> k - a < b \<longrightarrow> P (a + (k - a))" by blast
  with k show "P k" by simp
qed simp

text \<open>A report of a task finishes it and nothing else; the phase follows from the tasks.\<close>

lemma Report_ok:
  assumes "coord_inv c" "0 \<le> req_TtaskId req"
    and "req_JjobType req = MapJob \<and> req_TtaskId req < nMap c \<or> req_JjobType req = ReduceJob \<and> req_TtaskId req < NnReduce c"
  shows "returns (Report req c) (\<lambda>c'. coord_inv c' \<and> same_tasks c c' \<and>
    (\<forall>k < length (tasks c). Sstatus (tasks c' ! k) = Finished \<longleftrightarrow>
       Sstatus (tasks c ! k) = Finished \<or>
       k = nat (req_TtaskId req + (if req_JjobType req = ReduceJob then nMap c else 0))))"
proof -
  have len: "int (length (tasks c)) = nMap c + NnReduce c" "0 \<le> nMap c" "0 \<le> NnReduce c"
    using assms(1) by (simp_all add: coord_inv_def go_len_def)
  define i where "i = (if req_JjobType req = ReduceJob then req_TtaskId req + nMap c else req_TtaskId req)"
  have i: "0 \<le> i" "i < go_len (tasks c)" "nat i < length (tasks c)"
    using assms(2,3) len by (auto simp: go_len_def i_def)
  define ts where "ts = (tasks c)[nat i := (tasks c ! nat i)\<lparr>Sstatus := Finished\<rparr>]"
  let ?c = "c\<lparr>tasks := ts\<rparr>"
  have fin: "Sstatus (ts ! k) = Finished \<longleftrightarrow> Sstatus (tasks c ! k) = Finished \<or> k = nat i"
    if "k < length (tasks c)" for k
    using that i by (simp add: ts_def nth_list_update)
  have st: "same_tasks c ?c" using i by (auto simp: same_tasks_def ts_def nth_list_update)
  have inv: "coord_inv ?c" by (rule coord_inv_same [OF assms(1) st]) (simp_all add: fin)
  have lts: "go_len ts = nMap c + NnReduce c" using len by (simp add: ts_def go_len_def)
  have f1: "all_finished (nat (NnReduce c)) (nMap c) ts = Some (\<forall>r. 0 \<le> r \<and> r < NnReduce c \<longrightarrow> reduce_done ?c r)"
    using len lts by (subst all_finished_ok) (simp_all add: all_from)
  have f2: "all_finished (nat (nMap c)) 0 ts = Some (\<forall>m. 0 \<le> m \<and> m < nMap c \<longrightarrow> map_done ?c m)"
    using len lts by (subst all_finished_ok) (simp_all add: all_from [of 0, simplified])
  have ph: "coord_inv (?c\<lparr>phase := q\<rparr>) \<and> same_tasks c (?c\<lparr>phase := q\<rparr>)"
    if "q \<noteq> Map \<longrightarrow> (\<forall>m. 0 \<le> m \<and> m < nMap c \<longrightarrow> map_done ?c m)"
      "q = Done \<longrightarrow> (\<forall>r. 0 \<le> r \<and> r < NnReduce c \<longrightarrow> reduce_done ?c r)" for q
    using inv st that by (simp add: coord_inv_def same_tasks_def)
  have maps: "\<forall>m. 0 \<le> m \<and> m < nMap c \<longrightarrow> map_done ?c m" if "phase c \<noteq> Map"
    using inv that by (simp add: coord_inv_def)
  have "Report req c = Some (
      if phase c = Reduce \<and> (\<forall>r. 0 \<le> r \<and> r < NnReduce c \<longrightarrow> reduce_done ?c r) then ?c\<lparr>phase := Done\<rparr>
      else if phase c = Map \<and> (\<forall>m. 0 \<le> m \<and> m < nMap c \<longrightarrow> map_done ?c m) then ?c\<lparr>phase := Reduce\<rparr> else ?c)"
    using i by (simp add: Report_def Let_def go_index_def go_update_def i_def [symmetric] ts_def [symmetric] f1 f2)
  moreover have "i = req_TtaskId req + (if req_JjobType req = ReduceJob then nMap c else 0)"
    by (simp add: i_def)
  ultimately show ?thesis
    using inv st fin ph [of Done] ph [of Reduce] maps by simp
qed

lemma MakeCoordinator_ok:
  assumes "0 \<le> nReduce"
  shows "coord_inv (MakeCoordinator fs nReduce now)"
    "\<And>i. i < length (tasks (MakeCoordinator fs nReduce now)) \<Longrightarrow> Sstatus (tasks (MakeCoordinator fs nReduce now) ! i) = Idle"
  using assms
  by (auto simp: coord_inv_def MakeCoordinator_def go_len_def nth_append nth_enumerate_eq)

end
