(* ===== verification/MR_Worker.thy ===== *)
theory MR_Worker
  imports MR_Coordinator "HOL-Library.AList" "HOL-Library.List_Lexorder" "HOL-Library.Char_ord"
begin

text \<open>
  The MapReduce worker, \<^verbatim>\<open>src/mr/worker.go\<close>. A task is a program whose constructors are the operations on
  which workers interact: RPCs to the coordinator and operations on the working directory. Where Go
  leaves a result open (the order in which a map is ranged over, the order of equal elements after
  \<^verbatim>\<open>sort.Sort\<close>, random strings) the program asks for it, and the step that answers has it as a choice.
  The input files, which no worker writes, are a parameter. Errors of the file system other than a
  missing file are not modelled. A line of JSON is the record it encodes.
\<close>

section \<open>Records, files and programs\<close>

record KeyValue =
  Key :: string
  Value :: string

definition ihash :: "string \<Rightarrow> int" where
  "ihash key = uint (fnv32a key AND 0x7fffffff)"

datatype chunk = Rec KeyValue | Txt string

type_synonym dir = "(string \<times> chunk list) list"

type_synonym groups = "(string \<times> string list) list"

datatype wprog =
    WNext
  | WReport ReportRequest
  | WExit
  | WFatal
  | WRead string "string \<Rightarrow> wprog"
  | WSort "KeyValue list" "KeyValue list \<Rightarrow> wprog"
  | WRange "string list" "string list \<Rightarrow> wprog"
  | WTemp "string \<Rightarrow> wprog"
  | WCreate string wprog
  | WWrite string chunk wprog
  | WStat string "bool \<Rightarrow> wprog"
  | WRename string string wprog
  | WReadDir "string list \<Rightarrow> wprog"
  | WOpen string "chunk list \<Rightarrow> wprog"
  | WRemove string "bool \<Rightarrow> wprog"

text \<open>The maps from keys to slices of values, filled by \<^verbatim>\<open>m[kv.Key] = append(m[kv.Key], kv.Value)\<close>; reading
  a missing key gives the nil slice.\<close>

definition add_value :: "KeyValue \<Rightarrow> groups \<Rightarrow> groups" where
  "add_value kv = AList.map_default (Key kv) [Value kv] (\<lambda>vs. vs @ [Value kv])"

definition group_values :: "KeyValue list \<Rightarrow> groups" where
  "group_values kvs = fold add_value kvs []"

definition lookup_values :: "groups \<Rightarrow> string \<Rightarrow> string list" where
  "lookup_values m key = (case map_of m key of None \<Rightarrow> [] | Some vs \<Rightarrow> vs)"

section \<open>Map tasks\<close>

fun create_temps :: "nat \<Rightarrow> string list \<Rightarrow> (string list \<Rightarrow> wprog) \<Rightarrow> wprog" where
  "create_temps 0 names k = k names"
| "create_temps (Suc n) names k = WTemp (\<lambda>t. WCreate t (create_temps n (names @ [t]) k))"

fun write_values :: "string \<Rightarrow> string \<Rightarrow> string list \<Rightarrow> wprog \<Rightarrow> wprog" where
  "write_values name key [] k = k"
| "write_values name key (v # vs) k = WWrite name (Rec \<lparr>Key = key, Value = v\<rparr>) (write_values name key vs k)"

fun write_groups :: "int \<Rightarrow> string list \<Rightarrow> groups \<Rightarrow> string list \<Rightarrow> wprog \<Rightarrow> wprog" where
  "write_groups n names key_group [] k = k"
| "write_groups n names key_group (key # keys) k =
     (if n = 0 then WFatal
      else case go_index names (ihash key mod n) of
        None \<Rightarrow> WFatal
      | Some name \<Rightarrow> write_values name key (lookup_values key_group key) (write_groups n names key_group keys k))"

fun rename_temps :: "string \<Rightarrow> int \<Rightarrow> string list \<Rightarrow> wprog \<Rightarrow> wprog" where
  "rename_temps filePrefix index [] k = k"
| "rename_temps filePrefix index (t # ts) k =
     WStat (filePrefix @ Itoa index) (\<lambda>exists.
       let rest = rename_temps filePrefix (index + 1) ts k
       in if exists then rest else WRename t (filePrefix @ Itoa index) rest)"

definition doMapTask :: "(string \<Rightarrow> string \<Rightarrow> KeyValue list) \<Rightarrow> HeartbeatResponse \<Rightarrow> wprog \<Rightarrow> wprog" where
  "doMapTask mapf response k =
     (case TtaskPtr response of
        None \<Rightarrow> WFatal
      | Some task \<Rightarrow>
          WRead (FileName task) (\<lambda>content.
            WSort (mapf (FileName task) content) (\<lambda>kva.
              let filePrefix = ''mr-out-'' @ Itoa (task_Id task) @ ''-'';
                  key_group = group_values kva;
                  n = resp_NnReduce response
              in if n < 0 then WFatal
                 else create_temps (nat n) [] (\<lambda>names.
                   WRange (map fst key_group) (\<lambda>keys.
                     write_groups n names key_group keys (rename_temps filePrefix 0 names k))))))"

section \<open>Reduce tasks\<close>

text \<open>The regular expression \<^verbatim>\<open>^mr-out-\d+-<reduceId>$\<close>.\<close>

definition inter_matches :: "int \<Rightarrow> string \<Rightarrow> bool" where
  "inter_matches reduceId name \<longleftrightarrow>
     take 7 name = ''mr-out-'' \<and>
     (let ds = takeWhile is_digit (drop 7 name)
      in ds \<noteq> [] \<and> drop (length ds) (drop 7 name) = ''-'' @ Itoa reduceId)"

fun open_matching :: "int \<Rightarrow> string list \<Rightarrow> chunk list list \<Rightarrow> (chunk list list \<Rightarrow> wprog) \<Rightarrow> wprog" where
  "open_matching taskId [] fileList k = k fileList"
| "open_matching taskId (name # names) fileList k =
     (if inter_matches taskId name
      then WOpen name (\<lambda>file. open_matching taskId names (fileList @ [file]) k)
      else open_matching taskId names fileList k)"

definition reduceId2Filename :: "int \<Rightarrow> (chunk list list \<Rightarrow> wprog) \<Rightarrow> wprog" where
  "reduceId2Filename taskId k = WReadDir (\<lambda>names. open_matching taskId names [] k)"

fun remove_matching :: "int \<Rightarrow> string list \<Rightarrow> wprog \<Rightarrow> wprog" where
  "remove_matching reduceId [] k = k"
| "remove_matching reduceId (name # names) k =
     (if inter_matches reduceId name
      then WRemove name (\<lambda>ok. if ok then remove_matching reduceId names k else k)
      else remove_matching reduceId names k)"

definition DelFileByReduceId :: "int \<Rightarrow> wprog \<Rightarrow> wprog" where
  "DelFileByReduceId reduceId k = WReadDir (\<lambda>names. remove_matching reduceId names k)"

text \<open>Decoding stops at the first thing that is no record.\<close>

fun decode :: "chunk list \<Rightarrow> KeyValue list" where
  "decode (Rec kv # cs) = kv # decode cs"
| "decode _ = []"

definition out_line :: "(string \<Rightarrow> string list \<Rightarrow> string) \<Rightarrow> string \<Rightarrow> string list \<Rightarrow> string" where
  "out_line reducef key values = key @ '' '' @ reducef key values @ [CHR 0x0A]"

fun write_lines :: "(string \<Rightarrow> string list \<Rightarrow> string) \<Rightarrow> string \<Rightarrow> groups \<Rightarrow> string list \<Rightarrow> wprog \<Rightarrow> wprog" where
  "write_lines reducef name mulKeyValue [] k = k"
| "write_lines reducef name mulKeyValue (key # keys) k =
     WWrite name (Txt (out_line reducef key (lookup_values mulKeyValue key)))
       (write_lines reducef name mulKeyValue keys k)"

definition doReduceTask :: "(string \<Rightarrow> string list \<Rightarrow> string) \<Rightarrow> HeartbeatResponse \<Rightarrow> wprog \<Rightarrow> wprog" where
  "doReduceTask reducef response k =
     (let reduceId = TtaskId response; reduceFilename = ''mr-out-'' @ Itoa reduceId
      in reduceId2Filename reduceId (\<lambda>fileList.
           let mulKeyValue = group_values (concat (map decode fileList))
           in WRange (map fst mulKeyValue) (\<lambda>keys.
                WTemp (\<lambda>oname. WCreate oname (write_lines reducef oname mulKeyValue (sort keys)
                  (WStat reduceFilename (\<lambda>exists.
                     if exists then DelFileByReduceId reduceId k
                     else WRename oname reduceFilename (DelFileByReduceId reduceId k))))))))"

section \<open>The worker\<close>

definition Worker ::
  "(string \<Rightarrow> string \<Rightarrow> KeyValue list) \<Rightarrow> (string \<Rightarrow> string list \<Rightarrow> string) \<Rightarrow> HeartbeatResponse \<Rightarrow> wprog" where
  "Worker mapf reducef response =
     (case JjobType response of
        MapJob \<Rightarrow> doMapTask mapf response
          (WReport \<lparr>req_JjobType = MapJob, req_TtaskId = TtaskId response, req_Sstatus = Finished\<rparr>)
      | ReduceJob \<Rightarrow> doReduceTask reducef response
          (WReport \<lparr>req_JjobType = ReduceJob, req_TtaskId = TtaskId response, req_Sstatus = Finished\<rparr>)
      | WaitJob \<Rightarrow> WNext
      | CompleteJob \<Rightarrow> WExit)"

definition charset :: string where
  "charset = ''abcdefghijklmnopqrstuvwxyzABCDEFGHIJKLMNOPQRSTUVWXYZ0123456789''"

definition generateRandomString :: "int list \<Rightarrow> string" where
  "generateRandomString intns = map (\<lambda>i. charset ! nat i) intns"

text \<open>The choices of a step: whether an RPC reaches the coordinator and its reply comes back, the clock, the
  numbers drawn, the order of a sort and of a range.\<close>

record choice =
  delivered :: bool
  replied :: bool
  clock :: "int \<Rightarrow> int"
  intns :: "int list"
  order_kvs :: "KeyValue list"
  order_keys :: "string list"

text \<open>An RPC of the worker: \<^verbatim>\<open>doHeartbeat\<close> returns the zero response if the call fails, \<^verbatim>\<open>doReport\<close> ignores a
  failure. An operation on a file that another worker removed gives an error, which the code ignores,
  except that it exits if it cannot open a file.\<close>

definition doHeartbeat :: "choice \<Rightarrow> Coordinator \<Rightarrow> (Coordinator \<times> HeartbeatResponse) option" where
  "doHeartbeat ch c =
     (if delivered ch
      then do { (c', response) \<leftarrow> HeartBeat (clock ch) c;
                Some (c', if replied ch then response else zero_response) }
      else Some (c, zero_response))"

definition doReport :: "choice \<Rightarrow> ReportRequest \<Rightarrow> Coordinator \<Rightarrow> Coordinator option" where
  "doReport ch request c = (if delivered ch then Report request c else Some c)"

fun w_step ::
  "(string \<rightharpoonup> string) \<Rightarrow> (string \<Rightarrow> string \<Rightarrow> KeyValue list) \<Rightarrow> (string \<Rightarrow> string list \<Rightarrow> string) \<Rightarrow> choice \<Rightarrow> wprog \<Rightarrow>
   Coordinator \<Rightarrow> dir \<Rightarrow> (Coordinator \<times> dir \<times> wprog) option" where
  "w_step input mapf reducef ch WNext c d =
     do { (c', response) \<leftarrow> doHeartbeat ch c; Some (c', d, Worker mapf reducef response) }"
| "w_step input mapf reducef ch (WReport request) c d = do { c' \<leftarrow> doReport ch request c; Some (c', d, WNext) }"
| "w_step input mapf reducef ch WExit c d = Some (c, d, WExit)"
| "w_step input mapf reducef ch WFatal c d = Some (c, d, WFatal)"
| "w_step input mapf reducef ch (WRead name k) c d =
     Some (c, d, case input name of None \<Rightarrow> WFatal | Some content \<Rightarrow> k content)"
| "w_step input mapf reducef ch (WSort kvs k) c d = Some (c, d, k (order_kvs ch))"
| "w_step input mapf reducef ch (WRange keys k) c d = Some (c, d, k (order_keys ch))"
| "w_step input mapf reducef ch (WTemp k) c d =
     (let name = generateRandomString (intns ch)
      in Some (c, d, if map_of d name = None then k name else WTemp k))"
| "w_step input mapf reducef ch (WCreate name k) c d = Some (c, AList.update name [] d, k)"
| "w_step input mapf reducef ch (WWrite name chunk k) c d =
     Some (c, case map_of d name of None \<Rightarrow> d | Some cs \<Rightarrow> AList.update name (cs @ [chunk]) d, k)"
| "w_step input mapf reducef ch (WStat name k) c d = Some (c, d, k (map_of d name \<noteq> None))"
| "w_step input mapf reducef ch (WRename name target k) c d =
     Some (c, case map_of d name of None \<Rightarrow> d | Some cs \<Rightarrow> AList.update target cs (AList.delete name d), k)"
| "w_step input mapf reducef ch (WReadDir k) c d = Some (c, d, k (sort (map fst d)))"
| "w_step input mapf reducef ch (WOpen name k) c d =
     Some (c, d, case map_of d name of None \<Rightarrow> WFatal | Some file \<Rightarrow> k file)"
| "w_step input mapf reducef ch (WRemove name k) c d =
     (case map_of d name of
        None \<Rightarrow> Some (c, d, k False)
      | Some _ \<Rightarrow> Some (c, AList.delete name d, k True))"

section \<open>Grouping\<close>

definition values_of :: "string \<Rightarrow> KeyValue list \<Rightarrow> string list" where
  "values_of key kvs = map Value (filter (\<lambda>kv. Key kv = key) kvs)"

lemma add_value_fst: "map fst (add_value kv g) = (if Key kv \<in> set (map fst g) then map fst g else map fst g @ [Key kv])"
  unfolding add_value_def by (induction g) auto

lemma add_value_lookup:
  "lookup_values (add_value kv g) key = lookup_values g key @ (if key = Key kv then [Value kv] else [])"
  by (auto simp: add_value_def lookup_values_def AList.map_of_map_default split: option.splits)

lemma fold_add_value:
  "lookup_values (fold add_value kvs g) key = lookup_values g key @ values_of key kvs"
  "distinct (map fst g) \<Longrightarrow> distinct (map fst (fold add_value kvs g))"
  "set (map fst (fold add_value kvs g)) = set (map fst g) \<union> Key ` set kvs"
  by (induction kvs arbitrary: g) (auto simp: add_value_lookup values_of_def add_value_fst simp del: set_map)

lemma group_values [simp]:
  "lookup_values (group_values kvs) key = values_of key kvs"
  "distinct (map fst (group_values kvs))"
  "fst ` set (group_values kvs) = Key ` set kvs"
  using fold_add_value [where g = "[]" and kvs = kvs] by (simp_all add: group_values_def lookup_values_def)

text \<open>The records of a list, key by key.\<close>

definition by_key :: "string list \<Rightarrow> KeyValue list \<Rightarrow> KeyValue list" where
  "by_key keys kvs = concat (map (\<lambda>key. map (\<lambda>v. \<lparr>Key = key, Value = v\<rparr>) (values_of key kvs)) keys)"

lemma by_key_filter: "map (\<lambda>v. \<lparr>Key = key, Value = v\<rparr>) (values_of key kvs) = filter (\<lambda>kv. Key kv = key) kvs"
  by (induction kvs) (auto simp: values_of_def)

lemma mset_by_key:
  "distinct keys \<Longrightarrow> mset (by_key keys kvs) = mset (filter (\<lambda>kv. Key kv \<in> set keys) kvs)"
proof (induction keys)
  case (Cons key keys)
  have "filter_mset (\<lambda>kv. Key kv \<in> set (key # keys)) (mset kvs) =
      filter_mset (\<lambda>kv. Key kv = key) (mset kvs) + filter_mset (\<lambda>kv. Key kv \<in> set keys) (mset kvs)"
    using Cons.prems by (auto simp: filter_mset_eq_conv multiset_eq_iff)
  with Cons show ?case by (simp add: by_key_def by_key_filter)
qed (simp add: by_key_def)

text \<open>The lines of an output file.\<close>

definition out_lines :: "(string \<Rightarrow> string list \<Rightarrow> string) \<Rightarrow> KeyValue list \<Rightarrow> string list" where
  "out_lines reducef kvs =
     map (\<lambda>key. out_line reducef key (values_of key kvs)) (sort (remdups (map Key kvs)))"

lemma sort_keys:
  assumes "mset keys = mset (map fst (group_values kvs))"
  shows "sort keys = sort (remdups (map Key kvs))"
proof -
  have "distinct keys" "set keys = Key ` set kvs"
    using assms mset_eq_imp_distinct_iff [OF assms] mset_eq_setD [OF assms] by simp_all
  then have "mset keys = mset (remdups (map Key kvs))"
    by (metis distinct_remdups list.set_map set_eq_iff_mset_eq_distinct set_remdups)
  then show ?thesis by (metis mset_sort properties_for_sort sorted_sort)
qed

lemma mset_values_of: "mset kvs = mset kvs' \<Longrightarrow> mset (values_of key kvs) = mset (values_of key kvs')"
  by (simp add: values_of_def)

lemma out_lines_cong:
  assumes "\<And>key vs vs'. mset vs = mset vs' \<Longrightarrow> reducef key vs = reducef key vs'" "mset kvs = mset kvs'"
  shows "out_lines reducef kvs = out_lines reducef kvs'"
proof -
  have "mset (remdups (map Key kvs)) = mset (remdups (map Key kvs'))"
    using mset_eq_setD [OF assms(2)] by (simp add: set_eq_iff_mset_eq_distinct [symmetric])
  then have "sort (remdups (map Key kvs)) = sort (remdups (map Key kvs'))"
    by (metis mset_sort properties_for_sort sorted_sort)
  then show ?thesis
    using assms(1) [OF mset_values_of [OF assms(2)]] by (simp add: out_lines_def out_line_def)
qed

section \<open>Names of files\<close>

definition inter_name :: "int \<Rightarrow> int \<Rightarrow> string" where
  "inter_name m r = ''mr-out-'' @ Itoa m @ ''-'' @ Itoa r"

definition out_name :: "int \<Rightarrow> string" where
  "out_name r = ''mr-out-'' @ Itoa r"

definition temp_name :: "string \<Rightarrow> bool" where
  "temp_name t \<longleftrightarrow> CHR ''-'' \<notin> set t"

lemma Itoa_digits: "0 \<le> m \<Longrightarrow> takeWhile is_digit (Itoa m) = Itoa m" "0 \<le> m \<Longrightarrow> dropWhile is_digit (Itoa m) = []"
  "Itoa m \<noteq> []"
  using digits_are [of "nat m"] by (simp_all add: Itoa_def list_all_iff takeWhile_eq_all_conv)

lemma Itoa_then: "0 \<le> m \<Longrightarrow> takeWhile is_digit (Itoa m @ CHR ''-'' # s) = Itoa m"
  using digits_are [of "nat m"] by (simp add: Itoa_def list_all_iff is_digit_def takeWhile_append2)

lemma inter_name_matches: "0 \<le> m \<Longrightarrow> inter_matches r (inter_name m r') \<longleftrightarrow> r = r'"
  by (auto simp: inter_matches_def inter_name_def Itoa_then Itoa_digits Itoa_inj Let_def)

lemma out_name_matches: "0 \<le> r' \<Longrightarrow> \<not> inter_matches r (out_name r')"
  by (simp add: inter_matches_def out_name_def Itoa_digits Let_def)

lemma temp_name_matches: "temp_name t \<Longrightarrow> \<not> inter_matches r t"
  by (auto simp: inter_matches_def temp_name_def dest!: arg_cong [of "take 7 t" _ set] dest: in_set_takeD)

lemma inter_name_inj:
  assumes "0 \<le> m" "0 \<le> m'"
  shows "inter_name m r = inter_name m' r' \<longleftrightarrow> m = m' \<and> r = r'"
proof
  assume eq: "inter_name m r = inter_name m' r'"
  then have "Itoa m @ CHR ''-'' # Itoa r = Itoa m' @ CHR ''-'' # Itoa r'" by (simp add: inter_name_def)
  moreover from arg_cong [OF this, of "takeWhile is_digit"] assms have "Itoa m = Itoa m'"
    by (simp add: Itoa_then)
  ultimately show "m = m' \<and> r = r'" by (simp add: Itoa_inj)
qed simp

lemma names_differ [simp]:
  assumes "0 \<le> m" "0 \<le> r'"
  shows "inter_name m r \<noteq> out_name r'" "out_name r' \<noteq> inter_name m r"
  using assms inter_name_matches [of m r r] out_name_matches [of r' r] by auto

lemma out_name_inj [simp]: "out_name r = out_name r' \<longleftrightarrow> r = r'"
  by (simp add: out_name_def Itoa_inj)

lemma not_temp [simp]: "\<not> temp_name (inter_name m r)" "\<not> temp_name (out_name r)"
  by (simp_all add: temp_name_def inter_name_def out_name_def)

lemma generateRandomString_temp:
  assumes "list_all (\<lambda>i. 0 \<le> i \<and> i < go_len charset) is"
  shows "temp_name (generateRandomString is)"
proof -
  have "CHR ''-'' \<notin> set charset" by (simp add: charset_def)
  moreover have "set (generateRandomString is) \<subseteq> set charset"
    using assms by (auto simp: generateRandomString_def list_all_iff go_len_def)
  ultimately show ?thesis by (auto simp: temp_name_def)
qed

end
