(* ===== verification/MR_System.thy ===== *)
theory MR_System
  imports MR_Worker
begin

text \<open>
  The MapReduce job as a whole: a coordinator, any number of workers that may be slow, lose RPCs or stop
  at any point, and the directory they share. Their steps interleave. The result is that an output file, once it
  is there, holds what its partition of the records reduces to, and that all are there when the
  coordinator says it is done.
\<close>

section \<open>The system\<close>

record mr_job =
  input :: "string \<rightharpoonup> string"
  mapf :: "string \<Rightarrow> string \<Rightarrow> KeyValue list"
  reducef :: "string \<Rightarrow> string list \<Rightarrow> string"
  job_files :: "string list"
  job_nReduce :: int

record mr_sys =
  coord :: Coordinator
  workdir :: dir
  workers :: "nat \<Rightarrow> wprog"
  drawn :: "string list"

text \<open>The choices that Go's library may make: a sort gives a sorted permutation, a range each key once. That
  no random string of twenty characters comes twice is assumed.\<close>

fun choice_ok :: "choice \<Rightarrow> wprog \<Rightarrow> string list \<Rightarrow> bool" where
  "choice_ok ch (WSort kvs k) used \<longleftrightarrow> mset (order_kvs ch) = mset kvs \<and> sorted (map Key (order_kvs ch))"
| "choice_ok ch (WRange keys k) used \<longleftrightarrow> mset (order_keys ch) = mset keys"
| "choice_ok ch (WTemp k) used \<longleftrightarrow>
     length (intns ch) = 20 \<and> list_all (\<lambda>i. 0 \<le> i \<and> i < go_len charset) (intns ch) \<and>
     generateRandomString (intns ch) \<notin> set used"
| "choice_ok ch _ used \<longleftrightarrow> True"

fun mr_ok :: "mr_job \<Rightarrow> nat \<times> choice \<Rightarrow> mr_sys \<Rightarrow> bool" where
  "mr_ok J (w, ch) s \<longleftrightarrow> choice_ok ch (workers s w) (drawn s)"

fun draws :: "choice \<Rightarrow> wprog \<Rightarrow> string list" where
  "draws ch (WTemp k) = [generateRandomString (intns ch)]"
| "draws ch _ = []"

fun mr_step :: "mr_job \<Rightarrow> nat \<times> choice \<Rightarrow> mr_sys \<Rightarrow> (mr_sys \<times> unit list) option" where
  "mr_step J (w, ch) s =
     do { (c, d, p) \<leftarrow> w_step (input J) (mapf J) (reducef J) ch (workers s w) (coord s) (workdir s);
          Some (\<lparr>coord = c, workdir = d, workers = (workers s)(w := p), drawn = draws ch (workers s w) @ drawn s\<rparr>, []) }"

definition mr_start :: "mr_job \<Rightarrow> int \<Rightarrow> mr_sys" where
  "mr_start J now =
     \<lparr>coord = MakeCoordinator (job_files J) (job_nReduce J) now, workdir = [], workers = \<lambda>w. WNext, drawn = []\<rparr>"

section \<open>What the files should hold\<close>

definition records_of :: "mr_job \<Rightarrow> int \<Rightarrow> KeyValue list" where
  "records_of J m =
     (case input J (job_files J ! nat m) of None \<Rightarrow> [] | Some s \<Rightarrow> mapf J (job_files J ! nat m) s)"

definition part :: "mr_job \<Rightarrow> int \<Rightarrow> int \<Rightarrow> KeyValue list" where
  "part J m r = filter (\<lambda>kv. ihash (Key kv) mod job_nReduce J = r) (records_of J m)"

definition partition_lines :: "mr_job \<Rightarrow> int \<Rightarrow> string list" where
  "partition_lines J r =
     out_lines (reducef J) (concat (map (\<lambda>m. part J (int m) r) [0..<length (job_files J)]))"

definition is_map :: "mr_job \<Rightarrow> int \<Rightarrow> bool" where
  "is_map J m \<longleftrightarrow> 0 \<le> m \<and> m < go_len (job_files J)"

definition is_reduce :: "mr_job \<Rightarrow> int \<Rightarrow> bool" where
  "is_reduce J r \<longleftrightarrow> 0 \<le> r \<and> r < job_nReduce J"

lemma mr_names [simp]:
  "is_map J m \<Longrightarrow> is_reduce J r' \<Longrightarrow> inter_name m r \<noteq> out_name r'"
  "is_map J m \<Longrightarrow> is_reduce J r' \<Longrightarrow> out_name r' \<noteq> inter_name m r"
  "is_map J m \<Longrightarrow> is_map J m' \<Longrightarrow> inter_name m r = inter_name m' r' \<longleftrightarrow> m = m' \<and> r = r'"
  "is_map J m \<Longrightarrow> inter_matches r' (inter_name m r) \<longleftrightarrow> r' = r"
  "is_reduce J r \<Longrightarrow> \<not> inter_matches r' (out_name r)"
  by (simp_all add: is_map_def is_reduce_def inter_name_inj inter_name_matches out_name_matches)

definition inter_ok :: "mr_job \<Rightarrow> int \<Rightarrow> int \<Rightarrow> chunk list \<Rightarrow> bool" where
  "inter_ok J m r cs \<longleftrightarrow> (\<exists>recs. cs = map Rec recs \<and> mset recs = mset (part J m r))"

definition out_ok :: "mr_job \<Rightarrow> int \<Rightarrow> chunk list \<Rightarrow> bool" where
  "out_ok J r cs \<longleftrightarrow> cs = map Txt (partition_lines J r)"

definition dir_ok :: "mr_job \<Rightarrow> (string \<rightharpoonup> chunk list) \<Rightarrow> bool" where
  "dir_ok J F \<longleftrightarrow> (\<forall>name cs. F name = Some cs \<longrightarrow> temp_name name \<or>
     (\<exists>m r. is_map J m \<and> is_reduce J r \<and> name = inter_name m r \<and> inter_ok J m r cs) \<or>
     (\<exists>r. is_reduce J r \<and> name = out_name r \<and> out_ok J r cs))"

text \<open>An intermediate file stays until the output file of its partition is there; then it may be removed.\<close>

definition has_out :: "(string \<rightharpoonup> chunk list) \<Rightarrow> int \<Rightarrow> bool" where
  "has_out F r \<longleftrightarrow> F (out_name r) \<noteq> None"

definition has_inter :: "(string \<rightharpoonup> chunk list) \<Rightarrow> int \<Rightarrow> int \<Rightarrow> bool" where
  "has_inter F m r \<longleftrightarrow> F (inter_name m r) \<noteq> None \<or> has_out F r"

definition grows :: "mr_job \<Rightarrow> (string \<rightharpoonup> chunk list) \<Rightarrow> (string \<rightharpoonup> chunk list) \<Rightarrow> bool" where
  "grows J F F' \<longleftrightarrow> (\<forall>r. is_reduce J r \<longrightarrow> has_out F r \<longrightarrow> has_out F' r) \<and>
     (\<forall>m r. is_map J m \<longrightarrow> is_reduce J r \<longrightarrow> has_inter F m r \<longrightarrow> has_inter F' m r)"

section \<open>What a worker knows\<close>

text \<open>Its temporary files and their contents, output files it knows to exist, and intermediate files it knows
  to have been written. Others cannot invalidate this.\<close>

record view =
  mine :: "string set"
  own :: "string \<rightharpoonup> chunk list"
  outs :: "int set"
  inters :: "(int \<times> int) set"

definition view_ok :: "mr_job \<Rightarrow> view \<Rightarrow> (string \<rightharpoonup> chunk list) \<Rightarrow> bool" where
  "view_ok J v F \<longleftrightarrow> (\<forall>t \<in> mine v. temp_name t \<and> F t = own v t) \<and>
     (\<forall>r \<in> outs v. is_reduce J r \<and> has_out F r) \<and>
     (\<forall>m r. (m, r) \<in> inters v \<longrightarrow> is_map J m \<and> is_reduce J r \<and> has_inter F m r)"

definition known_name :: "mr_job \<Rightarrow> string \<Rightarrow> bool" where
  "known_name J name \<longleftrightarrow> temp_name name \<or> (\<exists>m r. is_map J m \<and> is_reduce J r \<and> name = inter_name m r) \<or>
     (\<exists>r. is_reduce J r \<and> name = out_name r)"

definition own_set :: "string \<Rightarrow> chunk list option \<Rightarrow> view \<Rightarrow> view" where
  "own_set t x v = v\<lparr>own := (own v)(t := x)\<rparr>"

definition add_out :: "int \<Rightarrow> view \<Rightarrow> view" where
  "add_out r v = v\<lparr>outs := insert r (outs v)\<rparr>"

definition add_inter :: "int \<Rightarrow> int \<Rightarrow> view \<Rightarrow> view" where
  "add_inter m r v = v\<lparr>inters := insert (m, r) (inters v)\<rparr>"

text \<open>What a worker learns from a listing: where an intermediate file is gone, the output file is there.\<close>

definition learn_dir :: "string list \<Rightarrow> view \<Rightarrow> view" where
  "learn_dir L v = v\<lparr>outs := outs v \<union> {r. \<exists>m. (m, r) \<in> inters v \<and> inter_name m r \<notin> set L}\<rparr>"

definition own_new :: "string \<Rightarrow> view \<Rightarrow> view" where
  "own_new t v = v\<lparr>mine := insert t (mine v), own := (own v)(t := None)\<rparr>"

lemmas view_defs = own_set_def add_out_def add_inter_def learn_dir_def own_new_def

lemma view_simps [simp]:
  "mine (own_set t x v) = mine v" "own (own_set t x v) = (own v)(t := x)" "outs (own_set t x v) = outs v"
  "inters (own_set t x v) = inters v" "mine (add_out r v) = mine v" "own (add_out r v) = own v"
  "outs (add_out r v) = insert r (outs v)" "inters (add_out r v) = inters v" "mine (add_inter m r v) = mine v"
  "own (add_inter m r v) = own v" "outs (add_inter m r v) = outs v"
  "inters (add_inter m r v) = insert (m, r) (inters v)" "mine (learn_dir L v) = mine v"
  "own (learn_dir L v) = own v" "inters (learn_dir L v) = inters v" "mine (own_new t v) = insert t (mine v)"
  "own (own_new t v) = (own v)(t := None)" "outs (own_new t v) = outs v" "inters (own_new t v) = inters v"
  by (simp_all add: view_defs)

text \<open>When it is safe for a worker that knows \<open>v\<close> to go on with a program.\<close>

primrec w_ok :: "wprog \<Rightarrow> mr_job \<Rightarrow> view \<Rightarrow> bool" where
  "w_ok WNext J v \<longleftrightarrow> True"
| "w_ok (WReport req) J v \<longleftrightarrow>
     req_JjobType req = MapJob \<and> is_map J (req_TtaskId req) \<and> (\<forall>r. is_reduce J r \<longrightarrow> (req_TtaskId req, r) \<in> inters v) \<or>
     req_JjobType req = ReduceJob \<and> is_reduce J (req_TtaskId req) \<and> req_TtaskId req \<in> outs v"
| "w_ok WExit J v \<longleftrightarrow> True"
| "w_ok WFatal J v \<longleftrightarrow> True"
| "w_ok (WRead name k) J v \<longleftrightarrow> (\<forall>s. input J name = Some s \<longrightarrow> w_ok (k s) J v)"
| "w_ok (WSort kvs k) J v \<longleftrightarrow> (\<forall>kvs'. mset kvs' = mset kvs \<longrightarrow> w_ok (k kvs') J v)"
| "w_ok (WRange keys k) J v \<longleftrightarrow> (\<forall>keys'. mset keys' = mset keys \<longrightarrow> w_ok (k keys') J v)"
| "w_ok (WTemp k) J v \<longleftrightarrow> (\<forall>t. temp_name t \<and> t \<notin> mine v \<longrightarrow> w_ok (k t) J (own_new t v))"
| "w_ok (WCreate t p) J v \<longleftrightarrow> t \<in> mine v \<and> w_ok p J (own_set t (Some []) v)"
| "w_ok (WWrite t chunk p) J v \<longleftrightarrow>
     t \<in> mine v \<and> (\<exists>cs. own v t = Some cs \<and> w_ok p J (own_set t (Some (cs @ [chunk])) v))"
| "w_ok (WStat name k) J v \<longleftrightarrow>
     (\<exists>r. is_reduce J r \<and> name = out_name r \<and> w_ok (k True) J (add_out r v) \<and> (r \<notin> outs v \<longrightarrow> w_ok (k False) J v)) \<or>
     (\<exists>m r. is_map J m \<and> is_reduce J r \<and> name = inter_name m r \<and>
        w_ok (k True) J (add_inter m r v) \<and> w_ok (k False) J v)"
| "w_ok (WRename t target p) J v \<longleftrightarrow> t \<in> mine v \<and>
     (\<exists>cs. own v t = Some cs \<and>
        ((\<exists>r. is_reduce J r \<and> target = out_name r \<and> out_ok J r cs \<and> w_ok p J (add_out r (own_set t None v))) \<or>
         (\<exists>m r. is_map J m \<and> is_reduce J r \<and> target = inter_name m r \<and> inter_ok J m r cs \<and>
            w_ok p J (add_inter m r (own_set t None v)))))"
| "w_ok (WReadDir k) J v \<longleftrightarrow>
     (\<forall>L. distinct L \<and> list_all (known_name J) L \<longrightarrow> w_ok (k L) J (learn_dir L v))"
| "w_ok (WOpen name k) J v \<longleftrightarrow>
     (\<exists>m r. is_map J m \<and> is_reduce J r \<and> name = inter_name m r \<and> (\<forall>cs. inter_ok J m r cs \<longrightarrow> w_ok (k cs) J v))"
| "w_ok (WRemove name k) J v \<longleftrightarrow>
     (\<exists>m r. is_map J m \<and> is_reduce J r \<and> name = inter_name m r \<and> r \<in> outs v \<and>
        w_ok (k True) J v \<and> w_ok (k False) J v)"

section \<open>Map tasks are safe\<close>

lemma own_set_same [simp]: "own v t = x \<Longrightarrow> own_set t x v = v"
  by (auto simp: own_set_def)

lemma own_set_twice [simp]: "own_set t x (own_set t y v) = own_set t x v"
  by (simp add: own_set_def)

lemma w_ok_create_temps:
  assumes "distinct ns" "set ns \<subseteq> mine v" "\<forall>t \<in> set ns. own v t = Some []"
    and "\<And>ns' v'. length ns' = length ns + n \<Longrightarrow> distinct ns' \<Longrightarrow> set ns' \<subseteq> mine v' \<Longrightarrow>
      \<forall>t \<in> set ns'. own v' t = Some [] \<Longrightarrow> w_ok (k ns') J v'"
  shows "w_ok (create_temps n ns k) J v"
  using assms
proof (induction n arbitrary: ns v)
  case (Suc n)
  have "w_ok (create_temps n (ns @ [t]) k) J (own_set t (Some []) (own_new t v))" if "t \<notin> mine v" for t
    using that Suc.prems(1-3) by (intro Suc.IH Suc.prems(4)) auto
  then show ?case by simp
qed simp

lemma w_ok_write_values:
  assumes "name \<in> mine v" "own v name = Some (map Rec recs)"
    and "w_ok k J (own_set name (Some (map Rec (recs @ map (\<lambda>x. \<lparr>Key = key, Value = x\<rparr>) vs))) v)"
  shows "w_ok (write_values name key vs k) J v"
  using assms
proof (induction vs arbitrary: recs v)
  case (Cons x vs)
  have "w_ok (write_values name key vs k) J (own_set name (Some (map Rec (recs @ [\<lparr>Key = key, Value = x\<rparr>]))) v)"
    using Cons.prems by (intro Cons.IH [where recs = "recs @ [\<lparr>Key = key, Value = x\<rparr>]"]) simp_all
  with Cons.prems show ?case by simp
qed simp

lemma w_ok_write_groups:
  assumes "distinct names" "n = go_len names" "set names \<subseteq> mine v"
    and "\<And>r. 0 \<le> r \<Longrightarrow> r < n \<Longrightarrow> own v (names ! nat r) = Some (map Rec (R r))"
    and "\<And>v'. mine v' = mine v \<Longrightarrow>
      (\<And>r. 0 \<le> r \<Longrightarrow> r < n \<Longrightarrow>
         own v' (names ! nat r) = Some (map Rec (R r @ by_key (filter (\<lambda>key. ihash key mod n = r) keys) kvs))) \<Longrightarrow>
      w_ok k J v'"
  shows "w_ok (write_groups n names (group_values kvs) keys k) J v"
  using assms(3-5)
proof (induction keys arbitrary: v R)
  case Nil
  then show ?case by (simp add: by_key_def)
next
  case (Cons key keys)
  let ?h = "ihash key mod n" and ?recs = "map (\<lambda>x. \<lparr>Key = key, Value = x\<rparr>) (values_of key kvs)"
  let ?R = "R(?h := R ?h @ ?recs)"
  show ?case
  proof (cases "n = 0")
    case False
    then have "0 < n" using assms(2) go_len_nonneg [of names] by linarith
    then have h: "0 \<le> ?h" "?h < n" by simp_all
    then have hn: "nat ?h < length names" using assms(2) by (simp add: go_len_def)
    have ix: "go_index names ?h = Some (names ! nat ?h)" using h assms(2) by (simp add: go_index_def)
    let ?v = "own_set (names ! nat ?h) (Some (map Rec (R ?h @ ?recs))) v"
    have "w_ok (write_groups n names (group_values kvs) keys k) J ?v"
    proof (rule Cons.IH [where R = ?R])
      fix r :: int assume r: "0 \<le> r" "r < n"
      then have "nat r < length names" using assms(2) by (simp add: go_len_def)
      then have "names ! nat r = names ! nat ?h \<longleftrightarrow> r = ?h"
        using hn r assms(1) by (simp add: nth_eq_iff_index_eq eq_nat_nat_iff h(1))
      then show "own ?v (names ! nat r) = Some (map Rec (?R r))" using Cons.prems(2) [OF r] by auto
    qed (use Cons.prems in \<open>auto simp: by_key_def intro!: Cons.prems(3)\<close>)
    then have "w_ok (write_values (names ! nat ?h) key (values_of key kvs) (write_groups n names (group_values kvs) keys k)) J v"
      using Cons.prems(1,2) h hn by (intro w_ok_write_values [where recs = "R ?h"]) auto
    then show ?thesis using False by (simp add: ix)
  qed simp
qed

lemma w_ok_rename_temps:
  assumes "is_map J m" "0 \<le> i" "i + go_len ts = job_nReduce J" "distinct ts" "set ts \<subseteq> mine v"
    and "\<And>j. j < length ts \<Longrightarrow> \<exists>cs. own v (ts ! j) = Some cs \<and> inter_ok J m (i + int j) cs"
    and "\<And>r. 0 \<le> r \<Longrightarrow> r < i \<Longrightarrow> (m, r) \<in> inters v"
  shows "w_ok (rename_temps (''mr-out-'' @ Itoa m @ ''-'') i ts
    (WReport \<lparr>req_JjobType = MapJob, req_TtaskId = m, req_Sstatus = Finished\<rparr>)) J v"
  using assms(2-)
proof (induction ts arbitrary: i v)
  case Nil
  with assms(1) show ?case by (simp add: is_reduce_def)
next
  case (Cons t ts)
  let ?rest = "rename_temps (''mr-out-'' @ Itoa m @ ''-'') (i + 1) ts
    (WReport \<lparr>req_JjobType = MapJob, req_TtaskId = m, req_Sstatus = Finished\<rparr>)"
  have i: "is_reduce J i" using Cons.prems(1,2) by (simp add: is_reduce_def) (use go_len_nonneg [of ts] in linarith)
  from Cons.prems(5) [of 0] obtain cs where cs: "own v t = Some cs" "inter_ok J m i cs" by auto
  have rest: "\<exists>cs. own v (ts ! j) = Some cs \<and> inter_ok J m (i + 1 + int j) cs" if "j < length ts" for j
    using Cons.prems(5) [of "Suc j"] that by (simp add: algebra_simps)
  have known: "(m, r) \<in> insert (m, i) (inters v)" if "0 \<le> r" "r < i + 1" for r
    using Cons.prems(6) [of r] that by (cases "r = i") simp_all
  have "w_ok ?rest J (add_inter m i v)"
    by (rule Cons.IH) (use Cons.prems(1-4) rest known in simp_all)
  moreover have "ts ! j \<noteq> t" if "j < length ts" for j using that Cons.prems(3) nth_mem by auto
  then have "w_ok ?rest J (add_inter m i (own_set t None v))"
    by (intro Cons.IH) (use Cons.prems(1-4) rest known in simp_all)
  moreover have "''mr-out-'' @ Itoa m @ ''-'' @ Itoa i = inter_name m i" by (simp add: inter_name_def)
  ultimately show ?case using Cons.prems(4) assms(1) i cs by (auto simp: Let_def)
qed

lemma mset_partition:
  assumes "mset kva = mset (records_of J m)" "mset keys = mset (map fst (group_values kva))"
  shows "mset (by_key (filter (\<lambda>key. ihash key mod job_nReduce J = r) keys) kva) = mset (part J m r)"
proof -
  have d: "distinct keys" "set keys = Key ` set kva"
    using mset_eq_imp_distinct_iff [OF assms(2)] mset_eq_setD [OF assms(2)] by simp_all
  then have "mset (by_key (filter (\<lambda>key. ihash key mod job_nReduce J = r) keys) kva) =
      filter_mset (\<lambda>kv. ihash (Key kv) mod job_nReduce J = r) (mset kva)"
    by (auto simp: mset_by_key intro!: filter_mset_cong)
  then show ?thesis using assms(1) by (simp add: part_def)
qed

lemma w_ok_doMapTask:
  assumes "TtaskPtr resp = Some t" "is_map J (task_Id t)" "FileName t = job_files J ! nat (task_Id t)"
    "TtaskId resp = task_Id t" "resp_NnReduce resp = job_nReduce J"
  shows "w_ok (doMapTask (mapf J) resp
    (WReport \<lparr>req_JjobType = MapJob, req_TtaskId = TtaskId resp, req_Sstatus = Finished\<rparr>)) J v"
proof -
  let ?m = "task_Id t" and ?n = "job_nReduce J"
  let ?fin = "\<lambda>names. rename_temps (''mr-out-'' @ Itoa ?m @ ''-'') 0 names
    (WReport \<lparr>req_JjobType = MapJob, req_TtaskId = ?m, req_Sstatus = Finished\<rparr>)"
  have "w_ok (create_temps (nat ?n) [] (\<lambda>names. WRange (map fst (group_values kva)) (\<lambda>keys.
      write_groups ?n names (group_values kva) keys (?fin names)))) J v"
    if n: "0 \<le> ?n" and kva: "mset kva = mset (records_of J ?m)" for kva
  proof (rule w_ok_create_temps; (simp; fail)?)
    fix names and v' :: view assume names: "length names = length [] + nat ?n" "distinct names" "set names \<subseteq> mine v'"
      "\<forall>t \<in> set names. own v' t = Some []"
    then have len: "?n = go_len names" using n by (simp add: go_len_def)
    have "w_ok (write_groups ?n names (group_values kva) keys (?fin names)) J v'"
      if keys: "mset keys = mset (map fst (group_values kva))" for keys
    proof (rule w_ok_write_groups [where R = "\<lambda>r. []"])
      fix w :: view assume w: "mine w = mine v'" "\<And>r. 0 \<le> r \<Longrightarrow> r < ?n \<Longrightarrow>
        own w (names ! nat r) = Some (map Rec ([] @ by_key (filter (\<lambda>key. ihash key mod ?n = r) keys) kva))"
      show "w_ok (?fin names) J w"
      proof (rule w_ok_rename_temps)
        fix j assume "j < length names"
        with w(2) [of "int j"] len show "\<exists>cs. own w (names ! j) = Some cs \<and> inter_ok J ?m (0 + int j) cs"
          using mset_partition [OF kva keys] by (auto simp: inter_ok_def go_len_def)
      qed (use names(2,3) len w(1) assms(2) in simp_all)
    qed (use names(2-4) len in \<open>auto simp: go_len_def\<close>)
    then show "w_ok (WRange (map fst (group_values kva)) (\<lambda>keys. write_groups ?n names (group_values kva) keys (?fin names))) J v'"
      by simp
  qed
  then have task: "w_ok (if ?n < 0 then WFatal else create_temps (nat ?n) [] (\<lambda>names. WRange (map fst (group_values kva)) (\<lambda>keys.
      write_groups ?n names (group_values kva) keys (?fin names)))) J v"
    if "mset kva = mset (records_of J ?m)" for kva
    using that by simp
  show ?thesis
    unfolding doMapTask_def assms(1,4,5) option.case w_ok.simps Let_def
    using task assms(3) by (simp add: records_of_def)
qed

section \<open>Reduce tasks are safe\<close>

definition read_ok :: "mr_job \<Rightarrow> int \<Rightarrow> string \<Rightarrow> chunk list \<Rightarrow> bool" where
  "read_ok J r name cs \<longleftrightarrow> (\<exists>m. is_map J m \<and> name = inter_name m r \<and> inter_ok J m r cs)"

lemma known_matching:
  assumes "known_name J name" "inter_matches r name"
  obtains m where "is_map J m" "is_reduce J r" "name = inter_name m r"
proof -
  have "\<not> temp_name name" using assms(2) temp_name_matches by blast
  moreover have "name \<noteq> out_name r'" if "is_reduce J r'" for r' using assms(2) mr_names(5) [OF that] by blast
  ultimately obtain m r' where "is_map J m" "is_reduce J r'" "name = inter_name m r'"
    using assms(1) unfolding known_name_def by blast
  moreover from this assms(2) have "r' = r" by simp
  ultimately show ?thesis using that by blast
qed

lemma w_ok_open_matching:
  assumes "list_all (known_name J) L"
    and "\<And>fs. list_all2 (read_ok J r) (filter (inter_matches r) L) fs \<Longrightarrow> w_ok (k (acc @ fs)) J v"
  shows "w_ok (open_matching r L acc k) J v"
  using assms
proof (induction L arbitrary: acc)
  case (Cons name L)
  show ?case
  proof (cases "inter_matches r name")
    case True
    with Cons.prems(1) obtain m where m: "is_map J m" "is_reduce J r" "name = inter_name m r"
      by (auto elim: known_matching)
    have "w_ok (open_matching r L (acc @ [cs]) k) J v" if "inter_ok J m r cs" for cs
    proof (rule Cons.IH)
      fix fs assume "list_all2 (read_ok J r) (filter (inter_matches r) L) fs"
      with that m True have "list_all2 (read_ok J r) (filter (inter_matches r) (name # L)) (cs # fs)"
        by (auto simp: read_ok_def)
      from Cons.prems(2) [OF this] show "w_ok (k ((acc @ [cs]) @ fs)) J v" by simp
    qed (use Cons.prems in simp)
    with True m show ?thesis by auto
  next
    case False
    with Cons show ?thesis by simp
  qed
qed simp

lemma decode_recs [simp]: "decode (map Rec recs) = recs"
  by (induction recs) simp_all

lemma mset_concat_map: "mset (concat (map f xs)) = (\<Sum>x\<in>#mset xs. mset (f x))"
  by (induction xs) simp_all

text \<open>A listing that has the intermediate files of all map tasks gives all records of the partition.\<close>

lemma mset_read:
  assumes "distinct L" "list_all (known_name J) L" "\<And>m. is_map J m \<Longrightarrow> inter_name m r \<in> set L"
    and "list_all2 (read_ok J r) (filter (inter_matches r) L) fs"
  shows "mset (concat (map decode fs)) = mset (concat (map (\<lambda>m. part J (int m) r) [0..<length (job_files J)]))"
proof -
  define idx where "idx name = (THE m. is_map J m \<and> name = inter_name m r)" for name
  have idx: "idx (inter_name m r) = m" if "is_map J m" for m
    unfolding idx_def using that by (auto intro!: the_equality)
  have "mset (concat (map decode fs)) = (\<Sum>name\<in>#mset (filter (inter_matches r) L). mset (part J (idx name) r))"
    using assms(4) by (induction rule: list_all2_induct) (auto simp: read_ok_def inter_ok_def idx)
  moreover have "mset (filter (inter_matches r) L) = mset (map (\<lambda>m. inter_name (int m) r) [0..<length (job_files J)])"
  proof (intro set_eq_iff_mset_eq_distinct [THEN iffD1] set_eqI iffI)
    fix name assume "name \<in> set (filter (inter_matches r) L)"
    then obtain m where "is_map J m" "name = inter_name m r"
      using assms(2) by (auto simp: list_all_iff elim: known_matching)
    then show "name \<in> set (map (\<lambda>m. inter_name (int m) r) [0..<length (job_files J)])"
      by (auto simp: is_map_def go_len_def intro!: image_eqI [of _ _ "nat m"])
  next
    fix name assume "name \<in> set (map (\<lambda>m. inter_name (int m) r) [0..<length (job_files J)])"
    then obtain m where "is_map J m" "name = inter_name m r" by (auto simp: is_map_def go_len_def)
    then show "name \<in> set (filter (inter_matches r) L)" using assms(3) by auto
  next
    show "distinct (map (\<lambda>m. inter_name (int m) r) [0..<length (job_files J)])"
      by (auto simp: distinct_map inj_on_def inter_name_inj)
  qed (use assms(1) in simp)
  ultimately have "mset (concat (map decode fs)) = (\<Sum>m\<in>#mset [0..<length (job_files J)]. mset (part J (idx (inter_name (int m) r)) r))"
    by (simp add: image_mset.compositionality comp_def)
  also have "\<dots> = (\<Sum>m\<in>#mset [0..<length (job_files J)]. mset (part J (int m) r))"
    by (intro arg_cong [of _ _ sum_mset] image_mset_cong) (simp add: idx is_map_def go_len_def)
  also have "\<dots> = mset (concat (map (\<lambda>m. part J (int m) r) [0..<length (job_files J)]))"
    by (rule mset_concat_map [symmetric])
  finally show ?thesis .
qed

lemma w_ok_write_lines:
  assumes "t \<in> mine v" "own v t = Some (map Txt ls)"
    and "w_ok k J (own_set t (Some (map Txt (ls @ map (\<lambda>key. out_line rf key (lookup_values g key)) keys))) v)"
  shows "w_ok (write_lines rf t g keys k) J v"
  using assms
proof (induction keys arbitrary: ls v)
  case (Cons key keys)
  have "w_ok (write_lines rf t g keys k) J
      (own_set t (Some (map Txt (ls @ [out_line rf key (lookup_values g key)]))) v)"
    using Cons.prems by (intro Cons.IH [where ls = "ls @ [out_line rf key (lookup_values g key)]"]) simp_all
  with Cons.prems show ?case by simp
qed simp

lemma w_ok_remove_matching:
  assumes "list_all (known_name J) L" "r \<in> outs v" "w_ok k J v"
  shows "w_ok (remove_matching r L k) J v"
  using assms(1)
proof (induction L)
  case (Cons name L)
  show ?case
  proof (cases "inter_matches r name")
    case True
    with Cons.prems obtain m where "is_map J m" "is_reduce J r" "name = inter_name m r"
      by (auto elim: known_matching)
    with Cons assms(2,3) show ?thesis by auto
  qed (use Cons in simp)
qed (use assms(3) in simp)

lemma w_ok_DelFileByReduceId:
  assumes "is_reduce J r" "r \<in> outs v"
  shows "w_ok (DelFileByReduceId r (WReport \<lparr>req_JjobType = ReduceJob, req_TtaskId = r, req_Sstatus = Finished\<rparr>)) J v"
  unfolding DelFileByReduceId_def w_ok.simps
  using assms by (intro allI impI w_ok_remove_matching) (simp_all add: learn_dir_def)

lemma w_ok_doReduceTask:
  assumes "is_reduce J (TtaskId resp)" "\<And>m. is_map J m \<Longrightarrow> (m, TtaskId resp) \<in> inters v"
    and red: "\<And>key vs vs'. mset vs = mset vs' \<Longrightarrow> reducef J key vs = reducef J key vs'"
  shows "w_ok (doReduceTask (reducef J) resp
    (WReport \<lparr>req_JjobType = ReduceJob, req_TtaskId = TtaskId resp, req_Sstatus = Finished\<rparr>)) J v"
proof -
  let ?r = "TtaskId resp"
  let ?del = "DelFileByReduceId ?r (WReport \<lparr>req_JjobType = ReduceJob, req_TtaskId = ?r, req_Sstatus = Finished\<rparr>)"
  let ?fin = "\<lambda>t. WStat (out_name ?r) (\<lambda>exists. if exists then ?del else WRename t (out_name ?r) ?del)"
  let ?wr = "\<lambda>fs keys t. WCreate t (write_lines (reducef J) t (group_values (concat (map decode fs))) (sort keys) (?fin t))"
  have "w_ok (?wr fs keys t) J (own_new t (learn_dir L v))"
    if L: "distinct L" "list_all (known_name J) L" and fs: "list_all2 (read_ok J ?r) (filter (inter_matches ?r) L) fs"
      and keys: "mset keys = mset (map fst (group_values (concat (map decode fs))))" for L fs keys t
  proof -
    let ?v = "own_set t (Some (map Txt (out_lines (reducef J) (concat (map decode fs))))) (own_new t (learn_dir L v))"
    have "out_lines (reducef J) (concat (map decode fs)) = partition_lines J ?r" if "?r \<notin> outs (learn_dir L v)"
      unfolding partition_lines_def
      using that assms(2) by (intro out_lines_cong red mset_read [OF L _ fs]) (auto simp: learn_dir_def)
    then have "w_ok (?fin t) J ?v"
      using assms(1) by (auto simp: out_ok_def intro!: w_ok_DelFileByReduceId)
    then have "w_ok (write_lines (reducef J) t (group_values (concat (map decode fs))) (sort keys) (?fin t)) J
        (own_set t (Some []) (own_new t (learn_dir L v)))"
      by (intro w_ok_write_lines [where ls = "[]"]) (simp_all add: sort_keys [OF keys] out_lines_def)
    then show ?thesis by simp
  qed
  then have "w_ok (open_matching ?r L [] (\<lambda>fs. WRange (map fst (group_values (concat (map decode fs)))) (\<lambda>keys. WTemp (?wr fs keys)))) J (learn_dir L v)"
    if "distinct L" "list_all (known_name J) L" for L
    using that by (intro w_ok_open_matching) simp_all
  then show ?thesis
    unfolding doReduceTask_def reduceId2Filename_def Let_def out_name_def [symmetric] w_ok.simps by blast
qed

section \<open>Steps on the directory\<close>

definition step_ok :: "mr_job \<Rightarrow> view \<Rightarrow> (string \<rightharpoonup> chunk list) \<Rightarrow> view \<Rightarrow> (string \<rightharpoonup> chunk list) \<Rightarrow> bool" where
  "step_ok J v F v' F' \<longleftrightarrow> view_ok J v' F' \<and> dir_ok J F' \<and> grows J F F' \<and>
     (\<forall>t. temp_name t \<longrightarrow> t \<notin> mine v' \<longrightarrow> F' t = F t) \<and> mine v \<subseteq> mine v'"

lemma temp_not_name:
  "temp_name t \<Longrightarrow> t \<noteq> inter_name m r" "temp_name t \<Longrightarrow> t \<noteq> out_name r"
  by auto

lemma has_upd_temp [simp]:
  "temp_name t \<Longrightarrow> has_out (F(t := x)) r = has_out F r"
  "temp_name t \<Longrightarrow> has_inter (F(t := x)) m r = has_inter F m r"
  using temp_not_name by (auto simp: has_out_def has_inter_def)

lemma has_upd_out:
  "has_out (F(out_name r \<mapsto> cs)) r'  \<longleftrightarrow> r' = r \<or> has_out F r'"
  "is_reduce J r \<Longrightarrow> is_map J m \<Longrightarrow> has_inter (F(out_name r \<mapsto> cs)) m r'  \<longleftrightarrow> r' = r \<or> has_inter F m r'"
  by (auto simp: has_out_def has_inter_def)

lemma has_upd_inter:
  "is_map J m \<Longrightarrow> is_reduce J r' \<Longrightarrow> has_out (F(inter_name m r := x)) r' = has_out F r'"
  "is_map J m \<Longrightarrow> is_map J m' \<Longrightarrow> is_reduce J r' \<Longrightarrow>
     has_inter (F(inter_name m r := x)) m' r' \<longleftrightarrow>
       (if m' = m \<and> r' = r then x \<noteq> None \<or> has_out F r' else has_inter F m' r')"
  by (auto simp: has_out_def has_inter_def)

lemma dir_ok_upd:
  assumes "dir_ok J F"
    and "\<And>cs. x = Some cs \<Longrightarrow> temp_name name \<or> (\<exists>m r. is_map J m \<and> is_reduce J r \<and> name = inter_name m r \<and> inter_ok J m r cs) \<or>
      (\<exists>r. is_reduce J r \<and> name = out_name r \<and> out_ok J r cs)"
  shows "dir_ok J (F(name := x))"
  using assms unfolding dir_ok_def by (metis fun_upd_apply)

lemma step_same:
  assumes "view_ok J v' F" "dir_ok J F" "mine v \<subseteq> mine v'"
  shows "step_ok J v F v' F"
  using assms by (simp add: step_ok_def grows_def)

lemma step_temp:
  assumes "view_ok J v F" "dir_ok J F" "t \<in> mine v"
  shows "step_ok J v F (own_set t x v) (F(t := x))"
proof -
  have t: "temp_name t" using assms(1,3) by (simp add: view_ok_def)
  then have "view_ok J (own_set t x v) (F(t := x))" using assms(1) by (simp add: view_ok_def)
  moreover have "dir_ok J (F(t := x))" using assms(2) t by (simp add: dir_ok_upd)
  ultimately show ?thesis using t assms(3) by (auto simp: step_ok_def grows_def)
qed

lemma step_rename_out:
  assumes "view_ok J v F" "dir_ok J F" "t \<in> mine v" "is_reduce J r" "out_ok J r cs"
  shows "step_ok J v F (add_out r (own_set t None v)) (F(t := None, out_name r \<mapsto> cs))"
proof -
  let ?F = "F(t := None)"
  have st: "step_ok J v F (own_set t None v) ?F" by (rule step_temp [OF assms(1-3)])
  have "dir_ok J (?F(out_name r \<mapsto> cs))" using st assms(4,5) by (auto simp: step_ok_def intro!: dir_ok_upd)
  moreover have "view_ok J (add_out r (own_set t None v)) (?F(out_name r \<mapsto> cs))"
    using st assms(4) temp_not_name by (fastforce simp: step_ok_def view_ok_def has_upd_out)
  moreover have "grows J F (?F(out_name r \<mapsto> cs))"
    using st assms(4) by (auto simp: step_ok_def grows_def has_upd_out)
  ultimately show ?thesis using st by (auto simp: step_ok_def)
qed

lemma step_rename_inter:
  assumes "view_ok J v F" "dir_ok J F" "t \<in> mine v" "is_map J m" "is_reduce J r" "inter_ok J m r cs"
  shows "step_ok J v F (add_inter m r (own_set t None v)) (F(t := None, inter_name m r \<mapsto> cs))"
proof -
  let ?F = "F(t := None)"
  have st: "step_ok J v F (own_set t None v) ?F" by (rule step_temp [OF assms(1-3)])
  have "dir_ok J (?F(inter_name m r \<mapsto> cs))" using st assms(4-6) by (auto simp: step_ok_def intro!: dir_ok_upd)
  moreover have "view_ok J (add_inter m r (own_set t None v)) (?F(inter_name m r \<mapsto> cs))"
    using st assms(4,5) temp_not_name by (fastforce simp: step_ok_def view_ok_def has_upd_inter)
  moreover have "grows J F (?F(inter_name m r \<mapsto> cs))"
    using st assms(4) by (auto simp: step_ok_def grows_def has_upd_inter)
  ultimately show ?thesis using st by (auto simp: step_ok_def)
qed

lemma step_remove:
  assumes "view_ok J v F" "dir_ok J F" "is_map J m" "is_reduce J r" "r \<in> outs v"
  shows "step_ok J v F v (F(inter_name m r := None))"
proof -
  have out: "has_out F r" using assms(1,5) by (simp add: view_ok_def)
  have "dir_ok J (F(inter_name m r := None))" using assms(2) by (rule dir_ok_upd) simp
  moreover have "view_ok J v (F(inter_name m r := None))"
    using assms(1,3) out temp_not_name by (fastforce simp: view_ok_def has_upd_inter)
  moreover have "grows J F (F(inter_name m r := None))"
    using assms(3) out by (auto simp: grows_def has_upd_inter)
  ultimately show ?thesis by (auto simp: step_ok_def)
qed

section \<open>Steps of a worker\<close>

definition coord_ok :: "mr_job \<Rightarrow> Coordinator \<Rightarrow> (string \<rightharpoonup> chunk list) \<Rightarrow> bool" where
  "coord_ok J c F \<longleftrightarrow> coord_inv c \<and> files c = job_files J \<and> NnReduce c = job_nReduce J \<and>
     (\<forall>m r. map_done c m \<longrightarrow> is_reduce J r \<longrightarrow> has_inter F m r) \<and> (\<forall>r. reduce_done c r \<longrightarrow> has_out F r)"

lemma coord_ok_sizes:
  assumes "coord_ok J c F"
  shows "nMap c = go_len (job_files J)" "int (length (tasks c)) = nMap c + NnReduce c" "NnReduce c = job_nReduce J"
    "0 \<le> m \<Longrightarrow> m < nMap c \<Longrightarrow> nat m < length (tasks c)"
    "0 \<le> r \<Longrightarrow> r < NnReduce c \<Longrightarrow> nat (nMap c + r) < length (tasks c)" "0 \<le> nMap c"
  using assms by (auto simp: coord_ok_def coord_inv_def go_len_def)

lemma coord_ok_grows: "coord_ok J c F \<Longrightarrow> grows J F F' \<Longrightarrow> coord_ok J c F'"
  using coord_ok_sizes(1) [of J c F]
  unfolding coord_ok_def grows_def is_map_def is_reduce_def by auto

lemma coord_ok_step: "coord_ok J c F \<Longrightarrow> step_ok J v F v' F' \<Longrightarrow> coord_ok J c F'"
  unfolding step_ok_def using coord_ok_grows by blast

lemma coord_ok_same:
  assumes "coord_ok J c F" "coord_inv c'" "same_tasks c c'"
    and "\<And>k. k < length (tasks c) \<Longrightarrow> Sstatus (tasks c' ! k) = Finished \<Longrightarrow> Sstatus (tasks c ! k) = Finished \<or> k = i"
    and "\<And>m r. 0 \<le> m \<Longrightarrow> m < nMap c \<Longrightarrow> nat m = i \<Longrightarrow> is_reduce J r \<Longrightarrow> has_inter F m r"
    and "\<And>r. 0 \<le> r \<Longrightarrow> r < NnReduce c \<Longrightarrow> nat (nMap c + r) = i \<Longrightarrow> has_out F r"
  shows "coord_ok J c' F"
  using assms(1,2,3,5,6) assms(4) [OF coord_ok_sizes(4) [OF assms(1)]] assms(4) [OF coord_ok_sizes(5) [OF assms(1)]]
  unfolding coord_ok_def same_tasks_def by metis

lemma HeartBeat_coord:
  assumes "coord_ok J c F"
  shows "returns (HeartBeat now c) (\<lambda>(c', resp). coord_ok J c' F \<and> response_ok c' resp)"
proof -
  have "coord_ok J c' F" if "coord_inv c'" "advances c c'" for c'
    by (rule coord_ok_same [OF assms that(1), of "length (tasks c)"])
      (use that(2) in \<open>auto simp: advances_def dest: coord_ok_sizes(4,5) [OF assms]\<close>)
  moreover have "coord_inv c" using assms by (simp add: coord_ok_def)
  ultimately show ?thesis by (intro returns_mono [OF HeartBeat_ok]) auto
qed

lemma Report_coord:
  assumes "coord_ok J c F" "w_ok (WReport req) J v" "view_ok J v F"
  shows "returns (Report req c) (\<lambda>c'. coord_ok J c' F)"
proof -
  note sizes = coord_ok_sizes [OF assms(1)]
  have inv: "coord_inv c" using assms(1) by (simp add: coord_ok_def)
  have range: "0 \<le> req_TtaskId req"
    "req_JjobType req = MapJob \<and> req_TtaskId req < nMap c \<or> req_JjobType req = ReduceJob \<and> req_TtaskId req < NnReduce c"
    using assms(2) sizes(1,3) by (auto simp: is_map_def is_reduce_def)
  from Report_ok [OF inv range] show ?thesis
  proof (rule returns_mono)
    fix c' assume c': "coord_inv c' \<and> same_tasks c c' \<and> (\<forall>k < length (tasks c). Sstatus (tasks c' ! k) = Finished \<longleftrightarrow>
       Sstatus (tasks c ! k) = Finished \<or> k = nat (req_TtaskId req + (if req_JjobType req = ReduceJob then nMap c else 0)))"
    show "coord_ok J c' F"
    proof (rule coord_ok_same [OF assms(1)])
      fix m r assume "0 \<le> m" "m < nMap c" "is_reduce J r"
        "nat m = nat (req_TtaskId req + (if req_JjobType req = ReduceJob then nMap c else 0))"
      then show "has_inter F m r" using assms(2,3) range sizes(6) by (auto simp: view_ok_def eq_nat_nat_iff split: if_splits)
    next
      fix r assume "0 \<le> r" "r < NnReduce c"
        "nat (nMap c + r) = nat (req_TtaskId req + (if req_JjobType req = ReduceJob then nMap c else 0))"
      then show "has_out F r" using assms(2,3) range sizes(6) by (auto simp: view_ok_def eq_nat_nat_iff split: if_splits)
    qed (use c' in auto)
  qed
qed

lemma w_ok_Worker:
  assumes "coord_ok J c F" "response_ok c resp" "view_ok J v F"
    and "\<And>key vs vs'. mset vs = mset vs' \<Longrightarrow> reducef J key vs = reducef J key vs'"
  shows "\<exists>v'. w_ok (Worker (mapf J) (reducef J) resp) J v' \<and> view_ok J v' F \<and> mine v' = mine v"
proof -
  let ?v = "v\<lparr>inters := {(m, r). is_map J m \<and> is_reduce J r \<and> has_inter F m r}\<rparr>"
  have v: "view_ok J ?v F" using assms(3) by (auto simp: view_ok_def)
  note sizes = coord_ok_sizes [OF assms(1)]
  have "w_ok (Worker (mapf J) (reducef J) resp) J ?v"
  proof (cases "JjobType resp")
    case MapJob
    with assms(2) obtain t where "TtaskPtr resp = Some t" "FileName t = files c ! nat (TtaskId resp)" "task_Id t = TtaskId resp"
      "0 \<le> TtaskId resp" "TtaskId resp < nMap c" "resp_NnReduce resp = NnReduce c"
      by (auto simp: response_ok_def)
    then have "w_ok (doMapTask (mapf J) resp (WReport \<lparr>req_JjobType = MapJob, req_TtaskId = TtaskId resp, req_Sstatus = Finished\<rparr>)) J ?v"
      using assms(1) sizes by (intro w_ok_doMapTask) (auto simp: is_map_def coord_ok_def)
    then show ?thesis by (simp add: Worker_def MapJob)
  next
    case ReduceJob
    with assms(2) have r: "is_reduce J (TtaskId resp)" and mdone: "\<And>m. is_map J m \<Longrightarrow> map_done c m"
      using sizes by (auto simp: response_ok_def is_reduce_def is_map_def)
    then have "has_inter F m (TtaskId resp)" if "is_map J m" for m
      using assms(1) that unfolding coord_ok_def by blast
    with r have "w_ok (doReduceTask (reducef J) resp (WReport \<lparr>req_JjobType = ReduceJob, req_TtaskId = TtaskId resp, req_Sstatus = Finished\<rparr>)) J ?v"
      by (intro w_ok_doReduceTask assms(4)) auto
    then show ?thesis by (simp add: Worker_def ReduceJob)
  qed (simp_all add: Worker_def)
  with v show ?thesis by (intro exI [of _ ?v]) simp
qed

text \<open>A worker at a point of its program, and what a step from there has to do.\<close>

definition worker_at :: "mr_job \<Rightarrow> view \<Rightarrow> Coordinator \<Rightarrow> dir \<Rightarrow> bool" where
  "worker_at J v c d \<longleftrightarrow> view_ok J v (map_of d) \<and> dir_ok J (map_of d) \<and> distinct (map fst d) \<and> coord_ok J c (map_of d)"

definition goes :: "mr_job \<Rightarrow> view \<Rightarrow> dir \<Rightarrow> string list \<Rightarrow> (Coordinator \<times> dir \<times> wprog) option \<Rightarrow> bool" where
  "goes J v d new res \<longleftrightarrow> (\<exists>c' d' p' v'. res = Some (c', d', p') \<and> distinct (map fst d') \<and> coord_ok J c' (map_of d') \<and>
     w_ok p' J v' \<and> step_ok J v (map_of d) v' (map_of d') \<and> mine v' \<subseteq> mine v \<union> set new)"

lemma worker_atD:
  assumes "worker_at J v c d"
  shows "view_ok J v (map_of d)" "dir_ok J (map_of d)" "distinct (map fst d)" "coord_ok J c (map_of d)"
  using assms by (simp_all add: worker_at_def)

lemma goes_same:
  assumes "worker_at J v c d" "w_ok p' J v'" "view_ok J v' (map_of d)" "mine v \<subseteq> mine v'" "mine v' \<subseteq> mine v \<union> set new"
    "coord_ok J c' (map_of d)"
  shows "goes J v d new (Some (c', d, p'))"
  unfolding goes_def using assms step_same [OF assms(3) worker_atD(2) [OF assms(1)] assms(4)] worker_atD(3) [OF assms(1)]
  by blast

lemma goes_moved:
  assumes "worker_at J v c d" "w_ok p' J v'" "step_ok J v (map_of d) v' (map_of d')" "distinct (map fst d')" "mine v' \<subseteq> mine v"
  shows "goes J v d new (Some (c, d', p'))"
  unfolding goes_def using assms(2-5) coord_ok_step [OF worker_atD(4) [OF assms(1)] assms(3)] by blast

lemmas dir_maps = AList.update_conv' AList.delete_conv' distinct_update distinct_delete

lemma goes_rpc:
  assumes "worker_at J v c d" and red: "\<And>key vs vs'. mset vs = mset vs' \<Longrightarrow> reducef J key vs = reducef J key vs'"
  shows "goes J v d new (w_step (input J) (mapf J) (reducef J) ch WNext c d)"
    "w_ok (WReport req) J v \<Longrightarrow> goes J v d new (w_step (input J) (mapf J) (reducef J) ch (WReport req) c d)"
proof -
  note at = worker_atD [OF assms(1)]
  have same: "goes J v d new (Some (c', d, p'))" if "w_ok p' J v'" "view_ok J v' (map_of d)" "mine v' = mine v"
    "coord_ok J c' (map_of d)" for c' p' v'
    using goes_same [OF assms(1) that(1,2) _ _ that(4)] that(3) by simp
  from HeartBeat_coord [OF at(4), of "clock ch"] obtain c' resp where hb: "HeartBeat (clock ch) c = Some (c', resp)"
    "coord_ok J c' (map_of d)" "response_ok c' resp" by (auto elim!: returnsE)
  from w_ok_Worker [OF hb(2,3) at(1) red] obtain v' where
    "w_ok (Worker (mapf J) (reducef J) resp) J v'" "view_ok J v' (map_of d)" "mine v' = mine v" by blast
  note answer = same [OF this hb(2)]
  have "Worker (mapf J) (reducef J) zero_response = WFatal"
    by (simp add: Worker_def zero_response_def doMapTask_def)
  then show "goes J v d new (w_step (input J) (mapf J) (reducef J) ch WNext c d)"
    using answer hb(1) same [of WFatal v c'] same [of WFatal v c] hb(2) at by (simp add: doHeartbeat_def)
  assume req: "w_ok (WReport req) J v"
  from Report_coord [OF at(4) req at(1)] obtain c'' where "Report req c = Some c''" "coord_ok J c'' (map_of d)"
    by (auto elim!: returnsE)
  then show "goes J v d new (w_step (input J) (mapf J) (reducef J) ch (WReport req) c d)"
    using same [of WNext v c''] same [of WNext v c] at by (simp add: doReport_def)
qed

lemma goes_stat:
  assumes "worker_at J v c d" "w_ok (WStat name k) J v"
  shows "goes J v d new (w_step (input J) (mapf J) (reducef J) ch (WStat name k) c d)"
proof -
  note at = worker_atD [OF assms(1)]
  have same: "goes J v d new (Some (c, d, p'))" if "w_ok p' J v'" "view_ok J v' (map_of d)" "mine v' = mine v" for p' v'
    using goes_same [OF assms(1) that(1,2) _ _ at(4)] that(3) by simp
  from assms(2) consider r where "is_reduce J r" "name = out_name r" "w_ok (k True) J (add_out r v)" "r \<notin> outs v \<longrightarrow> w_ok (k False) J v"
    | m r where "is_map J m" "is_reduce J r" "name = inter_name m r" "w_ok (k True) J (add_inter m r v)" "w_ok (k False) J v"
    by auto
  then show ?thesis
  proof cases
    case (1 r)
    have "map_of d name = None \<Longrightarrow> r \<notin> outs v" using at(1) 1(2) by (auto simp: view_ok_def has_out_def)
    moreover have "map_of d name \<noteq> None \<Longrightarrow> view_ok J (add_out r v) (map_of d)"
      using at(1) 1(1,2) by (auto simp: view_ok_def has_out_def)
    ultimately show ?thesis using 1(3,4) at(1) by (cases "map_of d name = None") (auto intro: same)
  next
    case (2 m r)
    have "map_of d name \<noteq> None \<Longrightarrow> view_ok J (add_inter m r v) (map_of d)"
      using at(1) 2(1-3) by (auto simp: view_ok_def has_inter_def)
    then show ?thesis using 2(4,5) at(1) by (cases "map_of d name = None") (auto intro: same)
  qed
qed

lemma goes_rename:
  assumes "worker_at J v c d" "w_ok (WRename t target k) J v"
  shows "goes J v d new (w_step (input J) (mapf J) (reducef J) ch (WRename t target k) c d)"
proof -
  note at = worker_atD [OF assms(1)]
  from assms(2) obtain cs where t: "t \<in> mine v" and cs: "own v t = Some cs" by auto
  then have dt: "map_of d t = Some cs" using at(1) by (simp add: view_ok_def)
  let ?d = "AList.update target cs (AList.delete t d)"
  have dist: "distinct (map fst ?d)" using at(3) by (simp add: dir_maps)
  from assms(2) cs consider r where "is_reduce J r" "target = out_name r" "out_ok J r cs" "w_ok k J (add_out r (own_set t None v))"
    | m r where "is_map J m" "is_reduce J r" "target = inter_name m r" "inter_ok J m r cs"
        "w_ok k J (add_inter m r (own_set t None v))"
    by auto
  then have "goes J v d new (Some (c, ?d, k))"
  proof cases
    case (1 r)
    then show ?thesis using step_rename_out [OF at(1,2) t 1(1,3)] dist
      by (intro goes_moved [OF assms(1) 1(4)]) (simp_all add: dir_maps)
  next
    case (2 m r)
    then show ?thesis using step_rename_inter [OF at(1,2) t 2(1,2,4)] dist
      by (intro goes_moved [OF assms(1) 2(5)]) (simp_all add: dir_maps)
  qed
  then show ?thesis using dt by simp
qed

lemma goes_temp:
  assumes "worker_at J v c d" "w_ok (WTemp k) J v" "choice_ok ch (WTemp k) used" "mine v \<subseteq> set used"
  shows "goes J v d (draws ch (WTemp k)) (w_step (input J) (mapf J) (reducef J) ch (WTemp k) c d)"
proof -
  note at = worker_atD [OF assms(1)]
  let ?t = "generateRandomString (intns ch)"
  have t: "temp_name ?t" "?t \<notin> mine v" using assms(3,4) generateRandomString_temp by auto
  then have "map_of d ?t = None \<Longrightarrow> view_ok J (own_new ?t v) (map_of d)" using at(1) by (auto simp: view_ok_def)
  with t assms(2) show ?thesis
    using goes_same [OF assms(1), of "k ?t" "own_new ?t v" "[?t]" c] goes_same [OF assms(1), of "WTemp k" v] at(1,4)
    by (cases "map_of d ?t = None") (auto simp: Let_def subset_insertI)
qed

lemma goes_write:
  assumes "worker_at J v c d"
  shows "w_ok (WCreate t k) J v \<Longrightarrow> goes J v d new (w_step (input J) (mapf J) (reducef J) ch (WCreate t k) c d)"
    "w_ok (WWrite t chunk k) J v \<Longrightarrow> goes J v d new (w_step (input J) (mapf J) (reducef J) ch (WWrite t chunk k) c d)"
proof -
  note at = worker_atD [OF assms]
  have set: "goes J v d new (Some (c, AList.update t cs d, k))" if "t \<in> mine v" "w_ok k J (own_set t (Some cs) v)" for cs
    using step_temp [OF at(1,2) that(1), of "Some cs"] at(3)
    by (intro goes_moved [OF assms that(2)]) (simp_all add: dir_maps)
  show "goes J v d new (w_step (input J) (mapf J) (reducef J) ch (WCreate t k) c d)" if "w_ok (WCreate t k) J v"
    using that set by simp
  show "goes J v d new (w_step (input J) (mapf J) (reducef J) ch (WWrite t chunk k) c d)" if "w_ok (WWrite t chunk k) J v"
    using that set at(1) by (auto simp: view_ok_def)
qed

lemma goes_read:
  assumes "worker_at J v c d"
  shows "w_ok (WReadDir k) J v \<Longrightarrow> goes J v d new (w_step (input J) (mapf J) (reducef J) ch (WReadDir k) c d)"
    "w_ok (WOpen name k') J v \<Longrightarrow> goes J v d new (w_step (input J) (mapf J) (reducef J) ch (WOpen name k') c d)"
proof -
  note at = worker_atD [OF assms]
  let ?L = "sort (map fst d)"
  have "list_all (known_name J) ?L"
  proof (clarsimp simp: list_all_iff)
    fix name cs assume "(name, cs) \<in> set d"
    with at(3) have "map_of d name = Some cs" by simp
    with at(2) show "known_name J name" unfolding dir_ok_def known_name_def by blast
  qed
  moreover have "view_ok J (learn_dir ?L v) (map_of d)"
    using at(1) by (auto simp: view_ok_def learn_dir_def has_inter_def map_of_eq_None_iff)
  ultimately show "goes J v d new (w_step (input J) (mapf J) (reducef J) ch (WReadDir k) c d)" if "w_ok (WReadDir k) J v"
    using that at(3,4) goes_same [OF assms, of "k ?L" "learn_dir ?L v"] by simp
  show "goes J v d new (w_step (input J) (mapf J) (reducef J) ch (WOpen name k') c d)" if "w_ok (WOpen name k') J v"
  proof -
    from that obtain m r where mr: "is_map J m" "is_reduce J r" "name = inter_name m r" "\<And>cs. inter_ok J m r cs \<Longrightarrow> w_ok (k' cs) J v"
      by auto
    then have "inter_ok J m r cs" if "map_of d name = Some cs" for cs
      using that at(2) unfolding dir_ok_def by (metis mr_names(1,3) not_temp(1))
    with mr(4) show ?thesis
      using at(1,4) goes_same [OF assms, of _ v] by (auto split: option.splits)
  qed
qed

lemma goes_remove:
  assumes "worker_at J v c d" "w_ok (WRemove name k) J v"
  shows "goes J v d new (w_step (input J) (mapf J) (reducef J) ch (WRemove name k) c d)"
proof -
  note at = worker_atD [OF assms(1)]
  from assms(2) obtain m r where mr: "is_map J m" "is_reduce J r" "name = inter_name m r" "r \<in> outs v" "w_ok (k True) J v" "w_ok (k False) J v"
    by auto
  have "goes J v d new (Some (c, AList.delete name d, k True))"
    using step_remove [OF at(1,2) mr(1,2,4)] at(3) mr(3)
    by (intro goes_moved [OF assms(1) mr(5)]) (simp_all add: dir_maps)
  then show ?thesis
    using goes_same [OF assms(1) mr(6) at(1)] at(4) by (cases "map_of d name") simp_all
qed

lemma w_step_goes:
  assumes "worker_at J v c d" "w_ok p J v" "choice_ok ch p used" "mine v \<subseteq> set used"
    and "\<And>key vs vs'. mset vs = mset vs' \<Longrightarrow> reducef J key vs = reducef J key vs'"
  shows "goes J v d (draws ch p) (w_step (input J) (mapf J) (reducef J) ch p c d)"
proof -
  note at = worker_atD [OF assms(1)]
  have same: "goes J v d new (Some (c, d, p'))" if "w_ok p' J v" for p' new
    using goes_same [OF assms(1) that at(1) _ _ at(4)] by simp
  show ?thesis
    using assms goes_rpc [OF assms(1,5)] goes_stat [OF assms(1)] goes_rename [OF assms(1)] goes_temp [OF assms(1)]
      goes_write [OF assms(1)] goes_read [OF assms(1)] goes_remove [OF assms(1)]
    by (cases p) (auto simp del: w_step.simps(1,2,8-) w_ok.simps(2,8-) choice_ok.simps(3) intro: same split: option.splits)
qed

section \<open>The whole job\<close>

definition mr_inv :: "mr_job \<Rightarrow> unit list \<Rightarrow> mr_sys \<Rightarrow> bool" where
  "mr_inv J H s \<longleftrightarrow> (\<exists>V. (\<forall>w. worker_at J (V w) (coord s) (workdir s) \<and> w_ok (workers s w) J (V w) \<and>
       mine (V w) \<subseteq> set (drawn s)) \<and>
     (\<forall>w w'. w \<noteq> w' \<longrightarrow> mine (V w) \<inter> mine (V w') = {}))"

text \<open>What another worker knows stays true.\<close>

lemma view_ok_frame:
  assumes "view_ok J u F" "step_ok J v F v' F'" "mine u \<inter> mine v' = {}"
  shows "view_ok J u F'"
  unfolding view_ok_def
proof (intro conjI ballI allI impI)
  fix t assume "t \<in> mine u"
  with assms show "temp_name t" "F' t = own u t" unfolding view_ok_def step_ok_def by auto
qed (use assms(1,2) in \<open>auto simp: view_ok_def step_ok_def grows_def\<close>)

lemma mr_step_inv:
  assumes "mr_inv J H s" "mr_ok J (w, ch) s"
    and "\<And>key vs vs'. mset vs = mset vs' \<Longrightarrow> reducef J key vs = reducef J key vs'"
  shows "returns (mr_step J (w, ch) s) (\<lambda>(s', os). mr_inv J (H @ os) s')"
proof -
  from assms(1) obtain V where V: "\<And>w. worker_at J (V w) (coord s) (workdir s)" "\<And>w. w_ok (workers s w) J (V w)"
    "\<And>w. mine (V w) \<subseteq> set (drawn s)" "\<And>w w'. w \<noteq> w' \<Longrightarrow> mine (V w) \<inter> mine (V w') = {}"
    unfolding mr_inv_def by blast
  let ?p = "workers s w" and ?F = "map_of (workdir s)"
  have "choice_ok ch ?p (drawn s)" using assms(2) by simp
  from w_step_goes [OF V(1,2) this V(3) assms(3)] obtain c' d' p' v' where
    st: "w_step (input J) (mapf J) (reducef J) ch ?p (coord s) (workdir s) = Some (c', d', p')"
    and d': "distinct (map fst d')" "coord_ok J c' (map_of d')" and p': "w_ok p' J v'"
    and so: "step_ok J (V w) ?F v' (map_of d')" and mine': "mine v' \<subseteq> mine (V w) \<union> set (draws ch ?p)"
    unfolding goes_def by blast
  have new: "set (draws ch ?p) \<inter> set (drawn s) = {}" using assms(2) by (cases ?p) auto
  have disj: "mine (V u) \<inter> mine v' = {}" if "u \<noteq> w" for u using V(3) [of u] V(4) [OF that] mine' new by blast
  have others: "view_ok J (V u) (map_of d')" if "u \<noteq> w" for u
    by (rule view_ok_frame [OF worker_atD(1) [OF V(1)] so disj [OF that]])
  have "view_ok J v' (map_of d')" "dir_ok J (map_of d')" using so by (simp_all add: step_ok_def)
  with others d' have at: "worker_at J ((V(w := v')) u) c' d'" for u by (cases "u = w") (simp_all add: worker_at_def)
  have "mine ((V(w := v')) u) \<subseteq> set (draws ch ?p @ drawn s)" for u using V(3) mine' by (cases "u = w") fastforce+
  moreover have "mine ((V(w := v')) u) \<inter> mine ((V(w := v')) u') = {}" if "u \<noteq> u'" for u u'
    using that V(4) disj by (cases "u = w"; cases "u' = w") auto
  moreover have "w_ok (((workers s)(w := p')) u) J ((V(w := v')) u)" for u using p' V(2) by (cases "u = w") simp_all
  ultimately have "mr_inv J [] \<lparr>coord = c', workdir = d', workers = (workers s)(w := p'), drawn = draws ch ?p @ drawn s\<rparr>"
    using at unfolding mr_inv_def mr_sys.select_convs by blast
  then show ?thesis by (simp add: st mr_inv_def)
qed

text \<open>Jobs whose result does not depend on the order in which values reach \<^verbatim>\<open>Reduce\<close>.\<close>

locale commutative_job =
  fixes J :: mr_job
  assumes reduce_perm: "mset vs = mset vs' \<Longrightarrow> reducef J key vs = reducef J key vs'"
    and nReduce: "0 \<le> job_nReduce J"

sublocale commutative_job < job: machine "mr_step J" "mr_ok J" "mr_inv J"
proof
  fix H s e assume "mr_inv J H s" "mr_ok J e s"
  then show "returns (mr_step J e s) (\<lambda>(s', os). mr_inv J (H @ os) s')"
    using mr_step_inv [OF _ _ reduce_perm] by (cases e) blast
qed

context commutative_job
begin

lemma start_inv: "mr_inv J [] (mr_start J now)"
proof -
  let ?v = "\<lparr>mine = {}, own = Map.empty, outs = {}, inters = {}\<rparr>"
  have "coord_inv (MakeCoordinator (job_files J) (job_nReduce J) now)" by (rule MakeCoordinator_ok [OF nReduce])
  moreover have "Sstatus (tasks (MakeCoordinator (job_files J) (job_nReduce J) now) ! nat i) \<noteq> Finished"
    if "0 \<le> i" "i < go_len (job_files J) + job_nReduce J" for i
    using MakeCoordinator_ok(2) [OF nReduce, of "nat i" "job_files J" now] that nReduce
    by (auto simp: MakeCoordinator_def go_len_def)
  ultimately have "coord_ok J (MakeCoordinator (job_files J) (job_nReduce J) now) Map.empty"
    using nReduce by (auto simp: coord_ok_def MakeCoordinator_def)
  then show ?thesis
    unfolding mr_inv_def mr_start_def
    by (intro exI [of _ "\<lambda>w. ?v"]) (simp add: worker_at_def view_ok_def dir_ok_def)
qed

lemma run_inv:
  "admissible (mr_step J) (mr_ok J) es (mr_start J now) \<Longrightarrow>
   returns (run (mr_step J) es (mr_start J now)) (\<lambda>(s, H). mr_inv J H s)"
  by (rule job.run_from_start [OF start_inv])

lemma outputs:
  assumes "mr_inv J H s" "is_reduce J r"
  shows "map_of (workdir s) (out_name r) = Some cs \<Longrightarrow> cs = map Txt (partition_lines J r)"
    "Done_rpc (coord s) \<Longrightarrow> map_of (workdir s) (out_name r) \<noteq> None"
proof -
  let ?F = "map_of (workdir s)"
  have ok: "dir_ok J ?F" "coord_ok J (coord s) ?F" using assms(1) by (auto simp: mr_inv_def worker_at_def)
  show "cs = map Txt (partition_lines J r)" if "?F (out_name r) = Some cs"
    using ok(1) that assms(2) unfolding dir_ok_def out_ok_def by (metis mr_names(2) not_temp(2) out_name_inj)
  show "?F (out_name r) \<noteq> None" if "Done_rpc (coord s)"
    using ok(2) that assms(2) unfolding coord_ok_def coord_inv_def has_out_def Done_rpc_def is_reduce_def by auto
qed

end

end
