(* ===== verification/MR_Apps.thy ===== *)
theory MR_Apps
  imports MR_System
begin

text \<open>
  Applications for MapReduce (\<^verbatim>\<open>src/mrapps\<close>) and the sequential program \<^verbatim>\<open>src/main/mrsequential.go\<close> that says
  what a job should compute. The distributed job is shown to compute the same lines.
\<close>

section \<open>Words\<close>

text \<open>Go ranges over a string by code points of UTF-8; a byte that starts none is taken alone, as U+FFFD.\<close>

definition cont_byte :: "nat \<Rightarrow> nat \<Rightarrow> char \<Rightarrow> bool" where
  "cont_byte lo hi c \<longleftrightarrow> lo \<le> of_char c \<and> of_char c \<le> hi"

abbreviation low6 :: "char \<Rightarrow> nat" where
  "low6 c \<equiv> of_char c mod 64"

definition decode2 :: "nat \<Rightarrow> string \<Rightarrow> (nat \<times> nat) option" where
  "decode2 b s = (case s of
     c1 # _ \<Rightarrow> if cont_byte 0x80 0xBF c1 then Some (b mod 32 * 64 + low6 c1, 2) else None
   | _ \<Rightarrow> None)"

definition decode3 :: "nat \<Rightarrow> string \<Rightarrow> (nat \<times> nat) option" where
  "decode3 b s = (case s of
     c1 # c2 # _ \<Rightarrow>
       if cont_byte (if b = 0xE0 then 0xA0 else 0x80) (if b = 0xED then 0x9F else 0xBF) c1 \<and> cont_byte 0x80 0xBF c2
       then Some ((b mod 16 * 64 + low6 c1) * 64 + low6 c2, 3) else None
   | _ \<Rightarrow> None)"

definition decode4 :: "nat \<Rightarrow> string \<Rightarrow> (nat \<times> nat) option" where
  "decode4 b s = (case s of
     c1 # c2 # c3 # _ \<Rightarrow>
       if cont_byte (if b = 0xF0 then 0x90 else 0x80) (if b = 0xF4 then 0x8F else 0xBF) c1 \<and>
          cont_byte 0x80 0xBF c2 \<and> cont_byte 0x80 0xBF c3
       then Some (((b mod 8 * 64 + low6 c1) * 64 + low6 c2) * 64 + low6 c3, 4) else None
   | _ \<Rightarrow> None)"

definition decode_rune :: "char \<Rightarrow> string \<Rightarrow> nat \<times> nat" where
  "decode_rune c s =
     (let b = of_char c;
          r = (if b < 0x80 then Some (b, 1)
               else if 0xC2 \<le> b \<and> b \<le> 0xDF then decode2 b s
               else if 0xE0 \<le> b \<and> b \<le> 0xEF then decode3 b s
               else if 0xF0 \<le> b \<and> b \<le> 0xF4 then decode4 b s
               else None)
      in case r of None \<Rightarrow> (0xFFFD, 1) | Some x \<Rightarrow> x)"

lemma decode_rune_width: "0 < snd (decode_rune c s)"
  by (auto simp: decode_rune_def decode2_def decode3_def decode4_def Let_def split: list.splits option.splits if_splits)

function runes :: "string \<Rightarrow> (nat \<times> string) list" where
  "runes [] = []"
| "runes (c # s) =
     (let (r, width) = decode_rune c s in (r, take width (c # s)) # runes (drop width (c # s)))"
  by pat_completeness auto

termination
proof (relation "measure length")
  fix c s x r width assume "x = decode_rune c s" "(r, width) = x"
  with decode_rune_width [of c s] have "0 < width" by (metis snd_conv)
  then show "(drop width (c # s), c # s) \<in> measure length" by simp
qed simp

primrec split_fields :: "(nat \<Rightarrow> bool) \<Rightarrow> (nat \<times> string) list \<Rightarrow> string \<Rightarrow> string list" where
  "split_fields f [] field = (if field = [] then [] else [field])"
| "split_fields f (u # us) field =
     (if f (fst u) then (if field = [] then split_fields f us [] else field # split_fields f us [])
      else split_fields f us (field @ snd u))"

definition FieldsFunc :: "(nat \<Rightarrow> bool) \<Rightarrow> string \<Rightarrow> string list" where
  "FieldsFunc f s = split_fields f (runes s) []"

fun Join :: "string list \<Rightarrow> string \<Rightarrow> string" where
  "Join [] sep = []"
| "Join [x] sep = x"
| "Join (x # xs) sep = x @ sep @ Join xs sep"

section \<open>Applications\<close>

text \<open>\<open>IsLetter\<close> stands for the tables of Unicode; \<open>order\<close> is the order in which a map is ranged over.\<close>

definition wc_Map :: "(nat \<Rightarrow> bool) \<Rightarrow> string \<Rightarrow> string \<Rightarrow> KeyValue list" where
  "wc_Map IsLetter filename contents =
     map (\<lambda>w. \<lparr>Key = w, Value = ''1''\<rparr>) (FieldsFunc (\<lambda>r. \<not> IsLetter r) contents)"

definition wc_Reduce :: "string \<Rightarrow> string list \<Rightarrow> string" where
  "wc_Reduce key values = Itoa (go_len values)"

definition indexer_Map :: "(nat \<Rightarrow> bool) \<Rightarrow> (string list \<Rightarrow> string list) \<Rightarrow> string \<Rightarrow> string \<Rightarrow> KeyValue list" where
  "indexer_Map IsLetter order document value =
     (let words = FieldsFunc (\<lambda>r. \<not> IsLetter r) value
      in map (\<lambda>w. \<lparr>Key = w, Value = document\<rparr>) (order (remdups words)))"

definition indexer_Reduce :: "string \<Rightarrow> string list \<Rightarrow> string" where
  "indexer_Reduce key values = Itoa (go_len values) @ '' '' @ Join (sort values) '',''"

definition nocrash_Map :: "string \<Rightarrow> string \<Rightarrow> KeyValue list" where
  "nocrash_Map filename contents =
     [\<lparr>Key = ''a'', Value = filename\<rparr>, \<lparr>Key = ''b'', Value = Itoa (go_len filename)\<rparr>,
      \<lparr>Key = ''c'', Value = Itoa (go_len contents)\<rparr>, \<lparr>Key = ''d'', Value = ''xyzzy''\<rparr>]"

definition nocrash_Reduce :: "string \<Rightarrow> string list \<Rightarrow> string" where
  "nocrash_Reduce key values = Join (sort values) '' ''"

definition early_exit_Map :: "string \<Rightarrow> string \<Rightarrow> KeyValue list" where
  "early_exit_Map filename contents = [\<lparr>Key = filename, Value = ''1''\<rparr>]"

definition early_exit_Reduce :: "string \<Rightarrow> string list \<Rightarrow> string" where
  "early_exit_Reduce key values = Itoa (go_len values)"

text \<open>None of them depends on the order of the values.\<close>

lemma sort_mset: "mset vs = mset vs' \<Longrightarrow> sort vs = sort vs'"
  by (rule properties_for_sort) simp_all

lemma len_mset: "mset vs = mset vs' \<Longrightarrow> go_len vs = go_len vs'"
  using mset_eq_length [of vs vs'] by (simp add: go_len_def)

lemma app_perm:
  assumes "mset vs = mset vs'"
  shows "wc_Reduce key vs = wc_Reduce key vs'" "indexer_Reduce key vs = indexer_Reduce key vs'"
    "nocrash_Reduce key vs = nocrash_Reduce key vs'" "early_exit_Reduce key vs = early_exit_Reduce key vs'"
  using sort_mset [OF assms] len_mset [OF assms]
  by (simp_all add: wc_Reduce_def indexer_Reduce_def nocrash_Reduce_def early_exit_Reduce_def)

definition app_job :: "(string \<Rightarrow> string \<Rightarrow> KeyValue list) \<Rightarrow> (string \<Rightarrow> string list \<Rightarrow> string) \<Rightarrow>
  (string \<rightharpoonup> string) \<Rightarrow> string list \<Rightarrow> nat \<Rightarrow> mr_job" where
  "app_job m r inp fs n = \<lparr>input = inp, mapf = m, reducef = r, job_files = fs, job_nReduce = int n\<rparr>"

interpretation wc: commutative_job "app_job (wc_Map IsLetter) wc_Reduce inp fs n" for IsLetter inp fs n
  by unfold_locales (auto simp: app_job_def intro: app_perm)

interpretation indexer: commutative_job "app_job (indexer_Map IsLetter order) indexer_Reduce inp fs n"
  for IsLetter order inp fs n
  by unfold_locales (auto simp: app_job_def intro: app_perm)

interpretation nocrash: commutative_job "app_job nocrash_Map nocrash_Reduce inp fs n" for inp fs n
  by unfold_locales (auto simp: app_job_def intro: app_perm)

interpretation early_exit: commutative_job "app_job early_exit_Map early_exit_Reduce inp fs n" for inp fs n
  by unfold_locales (auto simp: app_job_def intro: app_perm)

section \<open>The sequential program\<close>

fun read_inputs :: "(string \<rightharpoonup> string) \<Rightarrow> (string \<Rightarrow> string \<Rightarrow> KeyValue list) \<Rightarrow> string list \<Rightarrow> KeyValue list \<Rightarrow> KeyValue list option" where
  "read_inputs inp m [] intermediate = Some intermediate"
| "read_inputs inp m (filename # fs) intermediate =
     (case inp filename of
        None \<Rightarrow> None
      | Some content \<Rightarrow> read_inputs inp m fs (intermediate @ m filename content))"

text \<open>The loop over the sorted records, which takes the records of one key at a time.\<close>

function reduce_runs :: "(string \<Rightarrow> string list \<Rightarrow> string) \<Rightarrow> KeyValue list \<Rightarrow> string list" where
  "reduce_runs rf [] = []"
| "reduce_runs rf (kv # kvs) =
     out_line rf (Key kv) (Value kv # map Value (takeWhile (\<lambda>x. Key x = Key kv) kvs)) #
     reduce_runs rf (dropWhile (\<lambda>x. Key x = Key kv) kvs)"
  by pat_completeness auto

termination
  by (relation "measure (length \<circ> snd)") (auto simp: less_Suc_eq_le length_dropWhile_le)

definition mrsequential :: "(KeyValue list \<Rightarrow> KeyValue list) \<Rightarrow> mr_job \<Rightarrow> string list option" where
  "mrsequential Sort J =
     do { intermediate \<leftarrow> read_inputs (input J) (mapf J) (job_files J) [];
          Some (reduce_runs (reducef J) (Sort intermediate)) }"

section \<open>The job computes what the sequential program does\<close>

lemma remdups_run:
  assumes "\<forall>k \<in> set ks. k = a" "a \<notin> set ls"
  shows "remdups (a # ks @ ls) = a # remdups ls"
  using assms by (induction ks) auto

lemma out_lines_run:
  assumes "\<forall>x \<in> set same. Key x = Key kv" "\<forall>x \<in> set rest. Key kv < Key x" "sorted (map Key rest)"
  shows "out_lines rf (kv # same @ rest) = out_line rf (Key kv) (Value kv # map Value same) # out_lines rf rest"
proof -
  have "filter (\<lambda>x. Key x = Key kv) same = same" using assms(1) by (intro filter_True) blast
  moreover have "filter (\<lambda>x. Key x = Key kv) rest = []" using assms(2) by (intro filter_False) force
  ultimately have vals: "values_of (Key kv) (kv # same @ rest) = Value kv # map Value same"
    by (simp add: values_of_def)
  have vals': "values_of key (kv # same @ rest) = values_of key rest" if "key \<in> Key ` set rest" for key
  proof -
    have "Key kv \<noteq> key" using that assms(2) by force
    moreover have "filter (\<lambda>x. Key x = key) same = []" using assms(1) calculation by (intro filter_False) metis
    ultimately show ?thesis by (simp add: values_of_def)
  qed
  have k1: "\<forall>k \<in> set (map Key same). k = Key kv" unfolding set_map using assms(1) by blast
  have k2: "Key kv \<notin> set (map Key rest)" unfolding set_map using assms(2) by (metis imageE less_irrefl)
  have keys: "remdups (map Key (kv # same @ rest)) = Key kv # remdups (map Key rest)"
    using remdups_run [OF k1 k2] by simp
  have "sorted (Key kv # remdups (map Key rest))" using assms(2,3) by (auto simp: sorted_remdups less_imp_le)
  then have "sort (Key kv # remdups (map Key rest)) = Key kv # remdups (map Key rest)"
    by (rule sort_key_id_if_sorted [of "\<lambda>x. x", simplified])
  moreover have "sort (remdups (map Key rest)) = remdups (map Key rest)"
    using assms(3) by (simp add: sorted_remdups sort_key_id_if_sorted)
  ultimately show ?thesis
    unfolding out_lines_def keys by (simp add: vals vals')
qed

lemma reduce_runs_sorted: "sorted (map Key kvs) \<Longrightarrow> reduce_runs rf kvs = out_lines rf kvs"
proof (induction rf kvs rule: reduce_runs.induct)
  case (2 rf kv kvs)
  let ?same = "takeWhile (\<lambda>x. Key x = Key kv) kvs" and ?rest = "dropWhile (\<lambda>x. Key x = Key kv) kvs"
  have sorted: "sorted (map Key ?rest)"
    using sorted_dropWhile [of "map Key kvs" "\<lambda>k. k = Key kv"] 2(2) by (simp add: dropWhile_map comp_def)
  have "\<forall>x \<in> set ?rest. Key kv < Key x"
  proof (cases ?rest)
    case (Cons y ys)
    then have "Key y \<noteq> Key kv" using hd_dropWhile [of "\<lambda>x. Key x = Key kv" kvs] by simp
    moreover have "y \<in> set kvs" using Cons set_dropWhileD [of y _ kvs] by (metis list.set_intros(1))
    ultimately have "Key kv < Key y" using 2(2) by (auto simp: order_less_le)
    moreover have "\<forall>x \<in> set ys. Key y \<le> Key x" using sorted Cons by simp
    ultimately show ?thesis unfolding Cons by auto
  next
    case Nil
    show ?thesis unfolding Nil by simp
  qed
  moreover have "\<forall>x \<in> set ?same. Key x = Key kv" by (auto dest: set_takeWhileD)
  ultimately have "out_lines rf (kv # ?same @ ?rest) = out_line rf (Key kv) (Value kv # map Value ?same) # out_lines rf ?rest"
    using sorted by (intro out_lines_run)
  with 2 sorted show ?case by simp
qed (simp add: out_lines_def)

definition all_records :: "mr_job \<Rightarrow> KeyValue list" where
  "all_records J = concat (map (\<lambda>m. records_of J (int m)) [0..<length (job_files J)])"

lemma read_inputs_Some:
  assumes "\<And>f. f \<in> set fs \<Longrightarrow> inp f \<noteq> None"
  shows "read_inputs inp m fs acc =
    Some (acc @ concat (map (\<lambda>f. case inp f of None \<Rightarrow> [] | Some s \<Rightarrow> m f s) fs))"
  using assms by (induction fs arbitrary: acc) (auto split: option.splits)

lemma all_records_files:
  "all_records J = concat (map (\<lambda>f. case input J f of None \<Rightarrow> [] | Some s \<Rightarrow> mapf J f s) (job_files J))"
proof -
  have "map (\<lambda>m. records_of J (int m)) [0..<length (job_files J)] =
      map ((\<lambda>f. case input J f of None \<Rightarrow> [] | Some s \<Rightarrow> mapf J f s) \<circ> (!) (job_files J)) [0..<length (job_files J)]"
    by (simp add: records_of_def comp_def cong: option.case_cong)
  also have "\<dots> = map (\<lambda>f. case input J f of None \<Rightarrow> [] | Some s \<Rightarrow> mapf J f s) (job_files J)"
    by (simp only: map_map [symmetric] map_nth)
  finally show ?thesis by (simp add: all_records_def)
qed

lemma partition_records:
  "partition_lines J r = out_lines (reducef J) (filter (\<lambda>kv. ihash (Key kv) mod job_nReduce J = r) (all_records J))"
  by (simp add: partition_lines_def all_records_def part_def filter_concat comp_def)

lemma out_lines_filter:
  "out_lines rf (filter (\<lambda>kv. Q (Key kv)) kvs) =
     map (\<lambda>key. out_line rf key (values_of key kvs)) (filter Q (sort (remdups (map Key kvs))))"
proof -
  have "map Key (filter (\<lambda>kv. Q (Key kv)) kvs) = filter Q (map Key kvs)" by (simp add: filter_map comp_def)
  then have "sort (remdups (map Key (filter (\<lambda>kv. Q (Key kv)) kvs))) = filter Q (sort (remdups (map Key kvs)))"
    by (simp add: remdups_filter filter_sort)
  moreover have "values_of key (filter (\<lambda>kv. Q (Key kv)) kvs) = values_of key kvs" if "Q key" for key
    using that by (auto simp: values_of_def intro!: arg_cong [of _ _ "map Value"] filter_cong)
  ultimately show ?thesis by (simp add: out_lines_def)
qed

lemma mset_classes: "mset (concat (map (\<lambda>r. map g (filter (\<lambda>x. f x = int r) xs)) [0..<n])) =
  image_mset g (filter_mset (\<lambda>x. 0 \<le> f x \<and> f x < int n) (mset xs))"
proof (induction n)
  case (Suc n)
  have "filter_mset (\<lambda>x. 0 \<le> f x \<and> f x < int (Suc n)) (mset xs) =
      filter_mset (\<lambda>x. 0 \<le> f x \<and> f x < int n) (mset xs) + filter_mset (\<lambda>x. f x = int n) (mset xs)"
    by (auto simp: multiset_eq_iff)
  with Suc show ?case by simp
qed simp

lemma partition_lines_all:
  assumes "0 < job_nReduce J"
  shows "mset (concat (map (\<lambda>r. partition_lines J (int r)) [0..<nat (job_nReduce J)])) =
    mset (out_lines (reducef J) (all_records J))"
proof -
  have "partition_lines J r = map (\<lambda>key. out_line (reducef J) key (values_of key (all_records J)))
      (filter (\<lambda>key. ihash key mod job_nReduce J = r) (sort (remdups (map Key (all_records J)))))" for r
    unfolding partition_records by (rule out_lines_filter)
  then show ?thesis using assms by (simp add: mset_classes) (simp add: out_lines_def)
qed

lemma mrsequential_lines:
  assumes "\<And>key vs vs'. mset vs = mset vs' \<Longrightarrow> reducef J key vs = reducef J key vs'"
    and "\<And>f. f \<in> set (job_files J) \<Longrightarrow> input J f \<noteq> None"
    and "\<And>kvs. mset (Sort kvs) = mset kvs \<and> sorted (map Key (Sort kvs))"
  shows "mrsequential Sort J = Some (out_lines (reducef J) (all_records J))"
proof -
  have "reduce_runs (reducef J) (Sort (all_records J)) = out_lines (reducef J) (Sort (all_records J))"
    using assms(3) by (simp add: reduce_runs_sorted)
  also have "\<dots> = out_lines (reducef J) (all_records J)"
    using assms(3) by (intro out_lines_cong assms(1)) simp_all
  finally have runs: "reduce_runs (reducef J) (Sort (all_records J)) = out_lines (reducef J) (all_records J)" .
  have "read_inputs (input J) (mapf J) (job_files J) [] = Some (all_records J)"
    unfolding all_records_files by (subst read_inputs_Some) (use assms(2) in auto)
  then show ?thesis by (simp add: mrsequential_def runs)
qed



section \<open>A run\<close>

text \<open>Word count of a file with the words \<^verbatim>\<open>b\<close>, \<^verbatim>\<open>a\<close>, \<^verbatim>\<open>b\<close> with one reduce task. Worker 0 takes the map task and stops after it
  has written its temporary file; eleven seconds later worker 1 gets the task again and completes the job.\<close>

definition sample_job :: mr_job where
  "sample_job = app_job (wc_Map (\<lambda>r. 97 \<le> r \<and> r \<le> 122)) wc_Reduce [''f'' \<mapsto> ''b a,b''] [''f''] 1"

definition sample_choice :: "int \<Rightarrow> choice" where
  "sample_choice i =
     \<lparr>delivered = True, replied = True, clock = \<lambda>_. i, intns = replicate 20 i,
      order_kvs = [\<lparr>Key = ''a'', Value = ''1''\<rparr>, \<lparr>Key = ''b'', Value = ''1''\<rparr>, \<lparr>Key = ''b'', Value = ''1''\<rparr>],
      order_keys = [''b'', ''a'']\<rparr>"

definition sample_steps :: "(nat \<times> choice) list" where
  "sample_steps = replicate 7 (0, sample_choice 0) @ replicate 14 (1, sample_choice 11) @
     replicate 14 (1, sample_choice 12)"

lemma sample_steps_ok: "admissible (mr_step sample_job) (mr_ok sample_job) sample_steps (mr_start sample_job 0)"
  by code_simp

lemma sample_steps_end:
  "returns (run (mr_step sample_job) sample_steps (mr_start sample_job 0)) (\<lambda>(s, H).
    Done_rpc (coord s) \<and> map_of (workdir s) (out_name 0) = Some [Txt (''a 1'' @ [CHR 0x0A]), Txt (''b 2'' @ [CHR 0x0A])])"
  by code_simp

lemma sample_job_ok:
  "mset vs = mset vs' \<Longrightarrow> reducef sample_job key vs = reducef sample_job key vs'" "job_nReduce sample_job = 1"
  "f \<in> set (job_files sample_job) \<Longrightarrow> input sample_job f \<noteq> None"
  by (auto simp: sample_job_def app_job_def intro: app_perm)



end
