(* ===== verification/KVSrv.thy ===== *)
theory KVSrv
  imports Machine
begin

text \<open>
  The single-server key/value service of \<^verbatim>\<open>src/kvsrv\<close>, in which a clerk repeats a call until it is answered. The
  server recognises repeated calls by client and transaction numbers. The result is that every
  Put and Append takes effect exactly once, whatever requests and replies are lost, late or repeated.
\<close>

section \<open>Messages and server\<close>

datatype PutAppendType = Puttype | Appendtype

record PutAppendArgs =
  pa_Key :: string
  pa_Value :: string
  PutOrAppend :: PutAppendType
  pa_ClientId :: int
  pa_TransactionId :: int

record PutAppendReply =
  rep_Value :: string
  rep_ClientId :: int
  rep_AckId :: int

record GetArgs =
  ga_Key :: string
  ga_ClientId :: int
  ga_TransactionId :: int

record GetReply =
  gr_Value :: string
  gr_ClientId :: int
  gr_AckId :: int

record ClientAckTime =
  AckID :: int
  ValueBuffer :: string

record KVServer =
  KeyValue :: "string \<rightharpoonup> string"
  AckTime :: "ClientAckTime list"
  LenAckTime :: int

definition NewClient :: "int \<Rightarrow> KVServer \<Rightarrow> KVServer \<times> int" where
  "NewClient TransactionId kv =
     (kv\<lparr>LenAckTime := 1 + LenAckTime kv, AckTime := AckTime kv @ [\<lparr>AckID = TransactionId, ValueBuffer = ''''\<rparr>]\<rparr>,
      LenAckTime kv)"

definition read_value :: "KVServer \<Rightarrow> string \<Rightarrow> string" where
  "read_value kv key = (case KeyValue kv key of Some value \<Rightarrow> value | None \<Rightarrow> '''')"

definition srv_Get :: "GetArgs \<Rightarrow> KVServer \<Rightarrow> GetReply" where
  "srv_Get args kv = \<lparr>gr_Value = read_value kv (ga_Key args), gr_ClientId = ga_ClientId args, gr_AckId = 0\<rparr>"

definition srv_Put :: "PutAppendArgs \<Rightarrow> KVServer \<Rightarrow> (KVServer \<times> PutAppendReply) option" where
  "srv_Put args kv =
     (let value = read_value kv (pa_Key args); clientId = pa_ClientId args in
      if clientId = -1 then
        let (kv, clientId) = NewClient (pa_TransactionId args) kv
        in Some (kv, \<lparr>rep_Value = '''', rep_ClientId = clientId, rep_AckId = pa_TransactionId args\<rparr>)
      else do {
        ack \<leftarrow> go_index (AckTime kv) clientId;
        if pa_TransactionId args = AckID ack then do {
          acks \<leftarrow> go_update (AckTime kv) clientId (ack\<lparr>AckID := 1 + AckID ack\<rparr>);
          Some (kv\<lparr>AckTime := acks, KeyValue := (KeyValue kv)(pa_Key args \<mapsto> pa_Value args)\<rparr>,
                \<lparr>rep_Value = value, rep_ClientId = clientId, rep_AckId = 1 + AckID ack\<rparr>) }
        else Some (kv, \<lparr>rep_Value = ValueBuffer ack, rep_ClientId = clientId, rep_AckId = AckID ack\<rparr>) })"

definition srv_Append :: "PutAppendArgs \<Rightarrow> KVServer \<Rightarrow> (KVServer \<times> PutAppendReply) option" where
  "srv_Append args kv =
     (let value = read_value kv (pa_Key args); clientId = pa_ClientId args in
      if clientId = -1 then
        let (kv, clientId) = NewClient (pa_TransactionId args) kv
        in Some (kv, \<lparr>rep_Value = '''', rep_ClientId = clientId, rep_AckId = pa_TransactionId args\<rparr>)
      else do {
        ack \<leftarrow> go_index (AckTime kv) clientId;
        if pa_TransactionId args = AckID ack then do {
          acks \<leftarrow> go_update (AckTime kv) clientId (ack\<lparr>AckID := 1 + AckID ack, ValueBuffer := value\<rparr>);
          Some (kv\<lparr>AckTime := acks, KeyValue := (KeyValue kv)(pa_Key args \<mapsto> value @ pa_Value args)\<rparr>,
                \<lparr>rep_Value = value, rep_ClientId = clientId, rep_AckId = 1 + AckID ack\<rparr>) }
        else Some (kv, \<lparr>rep_Value = ValueBuffer ack, rep_ClientId = clientId, rep_AckId = AckID ack\<rparr>) })"

definition StartKVServer :: KVServer where
  "StartKVServer = \<lparr>KeyValue = Map.empty, AckTime = [], LenAckTime = 0\<rparr>"

section \<open>Clerk\<close>

text \<open>\<open>calling\<close> holds the arguments and the reply variable of a call of \<^verbatim>\<open>PutAppend\<close> that has not returned. The
  reply variable is declared before the loop, and decoding leaves its fields alone where the
  message has the zero value.\<close>

record Clerk =
  ClientId :: int
  TransactionId :: int
  calling :: "(PutAppendArgs \<times> PutAppendReply) option"

definition MakeClerk :: Clerk where
  "MakeClerk = \<lparr>ClientId = -1, TransactionId = 0, calling = None\<rparr>"

definition zero_reply :: PutAppendReply where
  "zero_reply = \<lparr>rep_Value = '''', rep_ClientId = 0, rep_AckId = 0\<rparr>"

definition decode_into :: "PutAppendReply \<Rightarrow> PutAppendReply \<Rightarrow> PutAppendReply" where
  "decode_into old new =
     \<lparr>rep_Value = (if rep_Value new = '''' then rep_Value old else rep_Value new),
      rep_ClientId = (if rep_ClientId new = 0 then rep_ClientId old else rep_ClientId new),
      rep_AckId = (if rep_AckId new = 0 then rep_AckId old else rep_AckId new)\<rparr>"

definition PutAppend_start :: "string \<Rightarrow> string \<Rightarrow> string \<Rightarrow> Clerk \<Rightarrow> Clerk" where
  "PutAppend_start key value op ck =
     (let put_or_append = (if op = ''Append'' then Appendtype else Puttype)
      in ck\<lparr>calling := Some (\<lparr>pa_Key = key, pa_Value = value, PutOrAppend = put_or_append, pa_ClientId = ClientId ck,
                            pa_TransactionId = TransactionId ck\<rparr>, zero_reply)\<rparr>)"

text \<open>One iteration of the loop with a reply; the result of the call, if it returns.\<close>

definition PutAppend_reply :: "PutAppendReply \<Rightarrow> Clerk \<Rightarrow> Clerk \<times> string option" where
  "PutAppend_reply msg ck =
     (case calling ck of
        None \<Rightarrow> (ck, None)
      | Some (args, old) \<Rightarrow>
          let reply = decode_into old msg in
          if ClientId ck = -1 then
            (ck\<lparr>ClientId := rep_ClientId reply, calling := Some (args\<lparr>pa_ClientId := rep_ClientId reply\<rparr>, reply)\<rparr>, None)
          else if TransactionId ck = rep_AckId reply - 1 then
            (ck\<lparr>TransactionId := rep_AckId reply, calling := None\<rparr>, Some (rep_Value reply))
          else (ck\<lparr>calling := Some (args, reply)\<rparr>, None))"

definition clerk_Get :: "string \<Rightarrow> Clerk \<Rightarrow> GetArgs" where
  "clerk_Get key ck = \<lparr>ga_Key = key, ga_ClientId = ClientId ck, ga_TransactionId = TransactionId ck\<rparr>"

section \<open>The service\<close>

text \<open>Clerks, the server, every request that was sent and every answer the server gave. A request may be
  served late and several times, or never; a clerk may get an answer to any request it sent with its
  current arguments, or none.\<close>

record srv_sys =
  server :: KVServer
  clerks :: "nat \<Rightarrow> Clerk"
  sent :: "(nat \<times> PutAppendArgs) list"
  answers :: "(nat \<times> PutAppendArgs \<times> PutAppendReply) list"

datatype srv_event =
    EStart nat string string string
  | ESend nat
  | EServe nat
  | EReply nat nat
  | EGet nat string

datatype srv_report =
    Applied nat PutAppendArgs string
  | Returned nat PutAppendArgs string
  | GotValue nat string string

definition executes :: "PutAppendArgs \<Rightarrow> KVServer \<Rightarrow> bool" where
  "executes args kv \<longleftrightarrow> pa_ClientId args \<noteq> -1 \<and>
     (case go_index (AckTime kv) (pa_ClientId args) of None \<Rightarrow> False | Some ack \<Rightarrow> pa_TransactionId args = AckID ack)"

definition serve :: "PutAppendArgs \<Rightarrow> KVServer \<Rightarrow> (KVServer \<times> PutAppendReply) option" where
  "serve args kv = (case PutOrAppend args of Puttype \<Rightarrow> srv_Put args kv | Appendtype \<Rightarrow> srv_Append args kv)"

fun srv_step :: "srv_event \<Rightarrow> srv_sys \<Rightarrow> (srv_sys \<times> srv_report list) option" where
  "srv_step (EStart c key value op) s =
     (if calling (clerks s c) = None
      then Some (s\<lparr>clerks := (clerks s)(c := PutAppend_start key value op (clerks s c))\<rparr>, [])
      else Some (s, []))"
| "srv_step (ESend c) s =
     (case calling (clerks s c) of
        None \<Rightarrow> Some (s, [])
      | Some (args, _) \<Rightarrow> Some (s\<lparr>sent := sent s @ [(c, args)]\<rparr>, []))"
| "srv_step (EServe i) s =
     (if i < length (sent s) then
        let (c, args) = sent s ! i in
        do { (kv, reply) \<leftarrow> serve args (server s);
             Some (s\<lparr>server := kv, answers := answers s @ [(c, args, reply)]\<rparr>,
                   if executes args (server s) then [Applied c args (read_value (server s) (pa_Key args))] else []) }
      else Some (s, []))"
| "srv_step (EReply c j) s =
     (if j < length (answers s) then
        let (c', args, msg) = answers s ! j in
        (case calling (clerks s c) of
           None \<Rightarrow> Some (s, [])
         | Some (args', _) \<Rightarrow>
             if c' = c \<and> args' = args then
               let (ck, result) = PutAppend_reply msg (clerks s c)
               in Some (s\<lparr>clerks := (clerks s)(c := ck)\<rparr>,
                        case result of None \<Rightarrow> [] | Some v \<Rightarrow> [Returned c args v])
             else Some (s, []))
      else Some (s, []))"
| "srv_step (EGet c key) s = Some (s, [GotValue c key (gr_Value (srv_Get (clerk_Get key (clerks s c)) (server s)))])"

definition srv_start :: srv_sys where
  "srv_start = \<lparr>server = StartKVServer, clerks = \<lambda>c. MakeClerk, sent = [], answers = []\<rparr>"

section \<open>Specification\<close>

text \<open>What a history did to one map, and whether the old values in it are those the map held.\<close>

definition value_in :: "(string \<rightharpoonup> string) \<Rightarrow> string \<Rightarrow> string" where
  "value_in m key = (case m key of None \<Rightarrow> '''' | Some v \<Rightarrow> v)"

fun replay :: "(string \<rightharpoonup> string) \<Rightarrow> srv_report list \<Rightarrow> (string \<rightharpoonup> string) option" where
  "replay m [] = Some m"
| "replay m (Applied c args old # H) =
     (if old = value_in m (pa_Key args)
      then replay (m(pa_Key args \<mapsto> (case PutOrAppend args of Puttype \<Rightarrow> pa_Value args | Appendtype \<Rightarrow> old @ pa_Value args))) H
      else None)"
| "replay m (GotValue c key v # H) = (if v = value_in m key then replay m H else None)"
| "replay m (Returned c args v # H) = replay m H"

text \<open>The operations of a clerk that took effect and that returned, with their results; \<^verbatim>\<open>Put\<close> drops its result.\<close>

definition result_of :: "PutAppendArgs \<Rightarrow> string \<Rightarrow> string" where
  "result_of args v = (case PutOrAppend args of Puttype \<Rightarrow> '''' | Appendtype \<Rightarrow> v)"

fun applied_of :: "nat \<Rightarrow> srv_report list \<Rightarrow> (PutAppendArgs \<times> string) list" where
  "applied_of c [] = []"
| "applied_of c (Applied c' args old # H) = (if c' = c then [(args, result_of args old)] else []) @ applied_of c H"
| "applied_of c (_ # H) = applied_of c H"

fun returned_of :: "nat \<Rightarrow> srv_report list \<Rightarrow> (PutAppendArgs \<times> string) list" where
  "returned_of c [] = []"
| "returned_of c (Returned c' args v # H) = (if c' = c then [(args, result_of args v)] else []) @ returned_of c H"
| "returned_of c (_ # H) = returned_of c H"

lemma history_append [simp]:
  "applied_of c (H @ K) = applied_of c H @ applied_of c K"
  "returned_of c (H @ K) = returned_of c H @ returned_of c K"
  "replay m (H @ K) = Option.bind (replay m H) (\<lambda>m'. replay m' K)"
proof -
  show "applied_of c (H @ K) = applied_of c H @ applied_of c K" by (induction c H rule: applied_of.induct) auto
  show "returned_of c (H @ K) = returned_of c H @ returned_of c K" by (induction c H rule: returned_of.induct) auto
  show "replay m (H @ K) = Option.bind (replay m H) (\<lambda>m'. replay m' K)"
  proof (induction H arbitrary: m)
    case (Cons x H)
    then show ?case by (cases x) (simp_all add: fun_upd_def)
  qed simp
qed

lemma read_value_in: "read_value kv key = value_in (KeyValue kv) key"
  by (simp add: read_value_def value_in_def split: option.splits)

section \<open>The invariant\<close>

abbreviation ack :: "KVServer \<Rightarrow> int \<Rightarrow> ClientAckTime" where
  "ack kv i \<equiv> AckTime kv ! nat i"

definition registered :: "KVServer \<Rightarrow> int \<Rightarrow> bool" where
  "registered kv i \<longleftrightarrow> 0 \<le> i \<and> i < go_len (AckTime kv)"

text \<open>A clerk before and after it has got a client number. Then the server has executed its current
  transaction or not yet.\<close>

definition clerk_ok :: "(int \<Rightarrow> nat) \<Rightarrow> KVServer \<Rightarrow> nat \<Rightarrow> Clerk \<Rightarrow> bool" where
  "clerk_ok owner kv c ck \<longleftrightarrow>
     (if ClientId ck = -1
      then TransactionId ck = 0 \<and>
        (\<forall>args rep. calling ck = Some (args, rep) \<longrightarrow> pa_ClientId args = -1 \<and> pa_TransactionId args = 0 \<and> rep = zero_reply)
      else registered kv (ClientId ck) \<and> owner (ClientId ck) = c \<and> 0 \<le> TransactionId ck \<and>
        (calling ck = None \<longrightarrow> AckID (ack kv (ClientId ck)) = TransactionId ck) \<and>
        AckID (ack kv (ClientId ck)) \<in> {TransactionId ck, TransactionId ck + 1} \<and>
        (\<forall>args rep. calling ck = Some (args, rep) \<longrightarrow> pa_ClientId args = ClientId ck \<and>
           pa_TransactionId args = TransactionId ck \<and> rep_Value rep = ''''))"

definition sent_ok :: "Clerk \<Rightarrow> PutAppendArgs \<Rightarrow> bool" where
  "sent_ok ck args \<longleftrightarrow>
     pa_ClientId args = -1 \<and> pa_TransactionId args = 0 \<or>
     pa_ClientId args = ClientId ck \<and> pa_ClientId args \<noteq> -1 \<and> pa_TransactionId args \<le> TransactionId ck \<and>
       (pa_TransactionId args = TransactionId ck \<longrightarrow> (\<exists>rep. calling ck = Some (args, rep)))"

definition answer_ok :: "(int \<Rightarrow> nat) \<Rightarrow> KVServer \<Rightarrow> nat \<Rightarrow> Clerk \<Rightarrow> PutAppendArgs \<Rightarrow> PutAppendReply \<Rightarrow> bool" where
  "answer_ok owner kv c ck args rep \<longleftrightarrow>
     pa_ClientId args = -1 \<and> registered kv (rep_ClientId rep) \<and> owner (rep_ClientId rep) = c \<and> rep_Value rep = '''' \<or>
     pa_ClientId args = ClientId ck \<and> pa_ClientId args \<noteq> -1 \<and> pa_TransactionId args \<le> TransactionId ck \<and>
       (pa_TransactionId args = TransactionId ck \<longrightarrow>
          rep_AckId rep = TransactionId ck + 1 \<and> AckID (ack kv (ClientId ck)) = TransactionId ck + 1 \<and>
          (PutOrAppend args = Appendtype \<longrightarrow> rep_Value rep = ValueBuffer (ack kv (ClientId ck))))"

text \<open>The operation of a clerk that took effect and has not returned.\<close>

definition pending :: "KVServer \<Rightarrow> Clerk \<Rightarrow> (PutAppendArgs \<times> string) list" where
  "pending kv ck =
     (case calling ck of
        None \<Rightarrow> []
      | Some (args, _) \<Rightarrow>
          if ClientId ck \<noteq> -1 \<and> AckID (ack kv (ClientId ck)) = TransactionId ck + 1
          then [(args, result_of args (ValueBuffer (ack kv (ClientId ck))))] else [])"

definition srv_ok :: "(int \<Rightarrow> nat) \<Rightarrow> srv_report list \<Rightarrow> srv_sys \<Rightarrow> bool" where
  "srv_ok owner H s \<longleftrightarrow>
     LenAckTime (server s) = go_len (AckTime (server s)) \<and>
     (\<forall>c. clerk_ok owner (server s) c (clerks s c)) \<and>
     (\<forall>c args. (c, args) \<in> set (sent s) \<longrightarrow> sent_ok (clerks s c) args) \<and>
     (\<forall>c args rep. (c, args, rep) \<in> set (answers s) \<longrightarrow> answer_ok owner (server s) c (clerks s c) args rep) \<and>
     (\<forall>i. registered (server s) i \<longrightarrow> ClientId (clerks s (owner i)) \<noteq> i \<longrightarrow> AckID (ack (server s) i) = 0) \<and>
     (\<forall>c. applied_of c H = returned_of c H @ pending (server s) (clerks s c)) \<and>
     replay Map.empty H = Some (KeyValue (server s))"

lemma srv_okD:
  assumes "srv_ok owner H s"
  shows "LenAckTime (server s) = go_len (AckTime (server s))" "clerk_ok owner (server s) c (clerks s c)"
    "(c, args) \<in> set (sent s) \<Longrightarrow> sent_ok (clerks s c) args"
    "(c, args, rep) \<in> set (answers s) \<Longrightarrow> answer_ok owner (server s) c (clerks s c) args rep"
    "registered (server s) i \<Longrightarrow> ClientId (clerks s (owner i)) \<noteq> i \<Longrightarrow> AckID (ack (server s) i) = 0"
    "applied_of c H = returned_of c H @ pending (server s) (clerks s c)"
    "replay Map.empty H = Some (KeyValue (server s))"
  using assms unfolding srv_ok_def by blast+

text \<open>A step of one clerk that leaves the server alone.\<close>

lemma srv_ok_clerk:
  assumes "srv_ok owner H s" "clerk_ok owner (server s) c ck"
    and "\<And>args. (c, args) \<in> set (sent s) \<Longrightarrow> sent_ok ck args"
    and "\<And>args rep. (c, args, rep) \<in> set (answers s) \<Longrightarrow> answer_ok owner (server s) c ck args rep"
    and "\<And>i. registered (server s) i \<Longrightarrow> owner i = c \<Longrightarrow> ClientId ck \<noteq> i \<Longrightarrow> AckID (ack (server s) i) = 0"
    and "applied_of c os = []" "returned_of c os @ pending (server s) ck = pending (server s) (clerks s c)"
    and "\<And>c'. c' \<noteq> c \<Longrightarrow> applied_of c' os = [] \<and> returned_of c' os = []" "replay (KeyValue (server s)) os = Some (KeyValue (server s))"
  shows "srv_ok owner (H @ os) (s\<lparr>clerks := (clerks s)(c := ck)\<rparr>)"
  using srv_okD [OF assms(1)] assms(2-) unfolding srv_ok_def
  by (auto simp: fun_upd_apply)

lemma step_start:
  assumes "srv_ok owner H s" "calling (clerks s c) = None"
  shows "srv_ok owner H (s\<lparr>clerks := (clerks s)(c := PutAppend_start key value op (clerks s c))\<rparr>)"
proof -
  note ok = srv_okD [OF assms(1)]
  have "sent_ok (PutAppend_start key value op (clerks s c)) args" if "(c, args) \<in> set (sent s)" for args
    using ok(3) [OF that] assms(2) by (auto simp: sent_ok_def PutAppend_start_def Let_def)
  moreover have "answer_ok owner (server s) c (PutAppend_start key value op (clerks s c)) args rep"
    if "(c, args, rep) \<in> set (answers s)" for args rep
    using ok(4) [OF that] by (simp add: answer_ok_def PutAppend_start_def Let_def)
  ultimately have "srv_ok owner (H @ []) (s\<lparr>clerks := (clerks s)(c := PutAppend_start key value op (clerks s c))\<rparr>)"
    using ok(2) [of c] ok(5) assms(2)
    by (intro srv_ok_clerk [OF assms(1)])
      (auto simp: clerk_ok_def pending_def PutAppend_start_def zero_reply_def Let_def split: if_splits)
  then show ?thesis by simp
qed

lemma step_send:
  assumes "srv_ok owner H s" "calling (clerks s c) = Some (args, rep)"
  shows "srv_ok owner H (s\<lparr>sent := sent s @ [(c, args)]\<rparr>)"
proof -
  have "sent_ok (clerks s c) args"
    using srv_okD(2) [OF assms(1), of c] assms(2) by (auto simp: clerk_ok_def sent_ok_def split: if_splits)
  with assms(1) show ?thesis by (auto simp: srv_ok_def)
qed

text \<open>The answer to a registration gives the clerk its number; it was not used before.\<close>

lemma step_registered:
  assumes "srv_ok owner H s" "(c, args, msg) \<in> set (answers s)" "calling (clerks s c) = Some (args, old)"
    and "ClientId (clerks s c) = -1"
  shows "\<exists>ck. PutAppend_reply msg (clerks s c) = (ck, None) \<and> srv_ok owner H (s\<lparr>clerks := (clerks s)(c := ck)\<rparr>)"
proof -
  note ok = srv_okD [OF assms(1)]
  let ?ck = "clerks s c" and ?i = "rep_ClientId msg"
  from assms(3,4) ok(2) [of c] ok(4) [OF assms(2)] have i: "registered (server s) ?i" "owner ?i = c" "rep_Value msg = ''''"
    and args: "pa_ClientId args = -1" "pa_TransactionId args = 0" and old: "old = zero_reply" "TransactionId ?ck = 0"
    by (auto simp: clerk_ok_def answer_ok_def)
  have r: "rep_ClientId (decode_into old msg) = ?i" "rep_Value (decode_into old msg) = ''''"
    using i(3) old(1) by (simp_all add: decode_into_def zero_reply_def)
  have ack0: "AckID (ack (server s) ?i) = 0" using ok(5) [OF i(1)] assms(4) i by (auto simp: registered_def)
  let ?new = "?ck\<lparr>ClientId := ?i, calling := Some (args\<lparr>pa_ClientId := ?i\<rparr>, decode_into old msg)\<rparr>"
  have "srv_ok owner (H @ []) (s\<lparr>clerks := (clerks s)(c := ?new)\<rparr>)"
  proof (rule srv_ok_clerk [OF assms(1)])
    show "clerk_ok owner (server s) c ?new"
      using i old args r ack0 by (auto simp: clerk_ok_def registered_def)
    show "AckID (ack (server s) j) = 0" if "registered (server s) j" "owner j = c" for j
      using ok(5) [OF that(1)] that assms(4) by (auto simp: registered_def)
  qed (use ok(3) [of c] ok(4) [of c] assms(3,4) ack0 old in \<open>auto simp: sent_ok_def answer_ok_def pending_def\<close>)
  then show ?thesis using assms(3,4) r by (simp add: PutAppend_reply_def Let_def)
qed

text \<open>Any other answer that a clerk gets says that its operation took effect, and has its result.\<close>

lemma step_returned:
  assumes "srv_ok owner H s" "(c, args, msg) \<in> set (answers s)" "calling (clerks s c) = Some (args, old)"
    and "ClientId (clerks s c) \<noteq> -1"
  shows "\<exists>ck v. PutAppend_reply msg (clerks s c) = (ck, Some v) \<and>
    srv_ok owner (H @ [Returned c args v]) (s\<lparr>clerks := (clerks s)(c := ck)\<rparr>)"
proof -
  note ok = srv_okD [OF assms(1)]
  let ?ck = "clerks s c" and ?v = "rep_Value msg"
  let ?T = "TransactionId ?ck"
  have cok: "clerk_ok owner (server s) c ?ck" by (rule ok(2))
  with assms(3,4) ok(4) [OF assms(2)] have T: "pa_ClientId args = ClientId ?ck" "pa_TransactionId args = ?T" "0 \<le> ?T" "rep_Value old = ''''"
    and msg: "rep_AckId msg = ?T + 1" "AckID (ack (server s) (ClientId ?ck)) = ?T + 1"
      "PutOrAppend args = Appendtype \<longrightarrow> ?v = ValueBuffer (ack (server s) (ClientId ?ck))"
    by (auto simp: clerk_ok_def answer_ok_def)
  have r: "rep_AckId (decode_into old msg) = ?T + 1" "rep_Value (decode_into old msg) = ?v"
    using T msg(1) by (simp_all add: decode_into_def)
  let ?new = "?ck\<lparr>TransactionId := ?T + 1, calling := None\<rparr>"
  have "srv_ok owner (H @ [Returned c args ?v]) (s\<lparr>clerks := (clerks s)(c := ?new)\<rparr>)"
  proof (rule srv_ok_clerk [OF assms(1)])
    show "clerk_ok owner (server s) c ?new" using cok assms(4) msg(2) by (auto simp: clerk_ok_def)
    show "returned_of c [Returned c args ?v] @ pending (server s) ?new = pending (server s) ?ck"
      using msg assms(3,4) by (auto simp: pending_def result_of_def split: PutAppendType.splits)
    show "sent_ok ?new a" if "(c, a) \<in> set (sent s)" for a
      using ok(3) [OF that] by (auto simp: sent_ok_def)
    show "answer_ok owner (server s) c ?new a rep" if "(c, a, rep) \<in> set (answers s)" for a rep
      using ok(4) [OF that] by (auto simp: answer_ok_def)
    show "AckID (ack (server s) j) = 0" if "registered (server s) j" "owner j = c" "ClientId ?new \<noteq> j" for j
      using ok(5) [OF that(1)] that by simp
  qed simp_all
  then show ?thesis using assms(3,4) r by (simp add: PutAppend_reply_def Let_def)
qed

section \<open>Serving a request\<close>

lemma serve_new:
  assumes "pa_ClientId args = -1"
  shows "serve args kv = Some (fst (NewClient (pa_TransactionId args) kv),
    \<lparr>rep_Value = '''', rep_ClientId = LenAckTime kv, rep_AckId = pa_TransactionId args\<rparr>)" "\<not> executes args kv"
  using assms
  by (simp_all add: serve_def srv_Put_def srv_Append_def NewClient_def Let_def executes_def split: PutAppendType.splits)

lemma serve_again:
  assumes "registered kv (pa_ClientId args)" "pa_TransactionId args \<noteq> AckID (ack kv (pa_ClientId args))"
  shows "serve args kv = Some (kv, \<lparr>rep_Value = ValueBuffer (ack kv (pa_ClientId args)), rep_ClientId = pa_ClientId args,
    rep_AckId = AckID (ack kv (pa_ClientId args))\<rparr>)" "\<not> executes args kv"
  using assms
  by (auto simp: serve_def srv_Put_def srv_Append_def Let_def executes_def registered_def go_index_def split: PutAppendType.splits)

definition executed :: "PutAppendArgs \<Rightarrow> KVServer \<Rightarrow> KVServer" where
  "executed args kv =
     (let a = ack kv (pa_ClientId args); v = read_value kv (pa_Key args) in
      case PutOrAppend args of
        Puttype \<Rightarrow> kv\<lparr>AckTime := (AckTime kv)[nat (pa_ClientId args) := a\<lparr>AckID := 1 + AckID a\<rparr>],
                      KeyValue := (KeyValue kv)(pa_Key args \<mapsto> pa_Value args)\<rparr>
      | Appendtype \<Rightarrow> kv\<lparr>AckTime := (AckTime kv)[nat (pa_ClientId args) := a\<lparr>AckID := 1 + AckID a, ValueBuffer := v\<rparr>],
                      KeyValue := (KeyValue kv)(pa_Key args \<mapsto> v @ pa_Value args)\<rparr>)"

lemma serve_execute:
  assumes "registered kv (pa_ClientId args)" "pa_TransactionId args = AckID (ack kv (pa_ClientId args))"
  shows "serve args kv = Some (executed args kv, \<lparr>rep_Value = read_value kv (pa_Key args), rep_ClientId = pa_ClientId args,
    rep_AckId = pa_TransactionId args + 1\<rparr>)" "executes args kv"
  using assms
  by (auto simp: serve_def srv_Put_def srv_Append_def Let_def executes_def executed_def registered_def go_index_def
      go_update_def split: PutAppendType.splits)

lemma executed_facts:
  assumes "registered kv (pa_ClientId args)"
  shows "LenAckTime (executed args kv) = LenAckTime kv" "registered (executed args kv) = registered kv"
    "go_len (AckTime (executed args kv)) = go_len (AckTime kv)"
    "AckID (ack (executed args kv) (pa_ClientId args)) = AckID (ack kv (pa_ClientId args)) + 1"
    "PutOrAppend args = Appendtype \<Longrightarrow> ValueBuffer (ack (executed args kv) (pa_ClientId args)) = read_value kv (pa_Key args)"
    "0 \<le> i \<Longrightarrow> i \<noteq> pa_ClientId args \<Longrightarrow> ack (executed args kv) i = ack kv i"
    "replay (KeyValue kv) [Applied c args (read_value kv (pa_Key args))] = Some (KeyValue (executed args kv))"
  using assms
  by (auto simp: executed_def Let_def registered_def go_len_def fun_eq_iff nth_list_update read_value_in eq_nat_nat_iff
      split: PutAppendType.splits)

text \<open>What holds of a clerk depends on the server only through the entry of its number, and on who owns it.\<close>

lemma server_frame:
  assumes "ClientId ck \<noteq> -1 \<Longrightarrow> ack kv' (ClientId ck) = ack kv (ClientId ck)"
    and "\<And>i. registered kv i \<Longrightarrow> registered kv' i \<and> owner' i = owner i"
  shows "clerk_ok owner kv c ck \<Longrightarrow> clerk_ok owner' kv' c ck"
    "answer_ok owner kv c ck args rep \<Longrightarrow> answer_ok owner' kv' c ck args rep"
    "pending kv' ck = pending kv ck"
proof -
  show "clerk_ok owner' kv' c ck" if "clerk_ok owner kv c ck"
  proof (cases "ClientId ck = -1")
    case False
    with that have "registered kv (ClientId ck)" by (simp add: clerk_ok_def)
    note r = assms(2) [OF this]
    show ?thesis using that r False unfolding clerk_ok_def assms(1) [OF False] if_not_P [OF False] by metis
  qed (use that in \<open>simp add: clerk_ok_def\<close>)
  show "answer_ok owner' kv' c ck args rep" if "answer_ok owner kv c ck args rep"
    using that assms(1) assms(2) [of "rep_ClientId rep"] unfolding answer_ok_def by auto
  show "pending kv' ck = pending kv ck"
    using assms(1) by (auto simp: pending_def split: option.splits)
qed

lemma clerk_okD:
  assumes "clerk_ok owner kv c ck" "ClientId ck \<noteq> -1"
  shows "registered kv (ClientId ck)" "owner (ClientId ck) = c" "0 \<le> ClientId ck"
    "AckID (ack kv (ClientId ck)) \<in> {TransactionId ck, TransactionId ck + 1}"
  using assms by (simp_all add: clerk_ok_def registered_def)

text \<open>A registration adds a client that nobody uses yet.\<close>

lemma step_serve_new:
  assumes "srv_ok owner H s" "(c, args) \<in> set (sent s)" "pa_ClientId args = -1"
    and "serve args (server s) = Some (kv, rep)"
  shows "srv_ok (owner(LenAckTime (server s) := c)) H (s\<lparr>server := kv, answers := answers s @ [(c, args, rep)]\<rparr>)"
proof -
  note ok = srv_okD [OF assms(1)]
  let ?n = "LenAckTime (server s)" and ?old = "server s"
  have T: "pa_TransactionId args = 0" using ok(3) [OF assms(2)] assms(3) by (auto simp: sent_ok_def)
  have kv: "AckTime kv = AckTime ?old @ [\<lparr>AckID = 0, ValueBuffer = ''''\<rparr>]" "LenAckTime kv = ?n + 1"
    "KeyValue kv = KeyValue ?old" and rep: "rep = \<lparr>rep_Value = '''', rep_ClientId = ?n, rep_AckId = 0\<rparr>"
    using assms(4) serve_new(1) [OF assms(3)] T by (auto simp: NewClient_def)
  have n: "?n = go_len (AckTime ?old)" by (rule ok(1))
  have reg: "registered kv i \<longleftrightarrow> registered ?old i \<or> i = ?n" for i by (auto simp: registered_def kv n)
  have ne: "registered ?old i \<Longrightarrow> i \<noteq> ?n" for i by (auto simp: registered_def n)
  have ack: "registered ?old i \<Longrightarrow> ack kv i = ack ?old i" for i by (auto simp: registered_def kv nth_append go_len_def)
  have ackn: "AckID (ack kv ?n) = 0" by (simp add: kv n go_len_def)
  have "ack kv (ClientId (clerks s c')) = ack ?old (ClientId (clerks s c'))" if "ClientId (clerks s c') \<noteq> -1" for c'
    by (rule ack [OF clerk_okD(1) [OF ok(2) that]])
  moreover have "registered kv i \<and> (owner(?n := c)) i = owner i" if "registered ?old i" for i
    using that reg ne by auto
  ultimately have frame: "\<And>c'. clerk_ok (owner(?n := c)) kv c' (clerks s c')"
    "\<And>c' a r. (c', a, r) \<in> set (answers s) \<Longrightarrow> answer_ok (owner(?n := c)) kv c' (clerks s c') a r"
    "\<And>c'. pending kv (clerks s c') = pending ?old (clerks s c')"
    using server_frame [where kv = ?old and kv' = kv and owner = owner] ok(2,4) by blast+
  have "answer_ok (owner(?n := c)) kv c (clerks s c) args rep"
    using assms(3) by (simp add: answer_ok_def rep reg)
  moreover have "AckID (ack kv i) = 0" if "registered kv i" "ClientId (clerks s ((owner(?n := c)) i)) \<noteq> i" for i
    using that ok(5) [of i] ack [of i] ackn ne [of i] reg [of i] by (cases "i = ?n") auto
  ultimately show ?thesis
    unfolding srv_ok_def using frame ok(3,6,7) kv n by auto
qed

lemma step_serve_again:
  assumes "srv_ok owner H s" "(c, args) \<in> set (sent s)" "pa_ClientId args \<noteq> -1" "\<not> executes args (server s)"
    and "serve args (server s) = Some (kv, rep)"
  shows "srv_ok owner H (s\<lparr>server := kv, answers := answers s @ [(c, args, rep)]\<rparr>)"
proof -
  note ok = srv_okD [OF assms(1)]
  let ?ck = "clerks s c" and ?old = "server s"
  have s: "pa_ClientId args = ClientId ?ck" "pa_TransactionId args \<le> TransactionId ?ck"
    using ok(3) [OF assms(2)] assms(3) by (auto simp: sent_ok_def)
  with ok(2) [of c] assms(3) have reg: "registered ?old (pa_ClientId args)"
    and ack: "AckID (ack ?old (ClientId ?ck)) \<in> {TransactionId ?ck, TransactionId ?ck + 1}"
    by (auto simp: clerk_ok_def)
  have ne: "pa_TransactionId args \<noteq> AckID (ack ?old (pa_ClientId args))" using serve_execute(2) [OF reg] assms(4) by blast
  have kv: "kv = ?old" "rep_AckId rep = AckID (ack ?old (ClientId ?ck))" "rep_Value rep = ValueBuffer (ack ?old (ClientId ?ck))"
    using assms(5) serve_again(1) [OF reg ne] s(1) by auto
  have "answer_ok owner kv c ?ck args rep"
    using s assms(3) ack ne by (auto simp: answer_ok_def kv)
  then show ?thesis using assms(1) by (auto simp: srv_ok_def kv)
qed

lemma step_serve_execute:
  assumes "srv_ok owner H s" "(c, args) \<in> set (sent s)" "executes args (server s)"
    and "serve args (server s) = Some (kv, rep)"
  shows "srv_ok owner (H @ [Applied c args (read_value (server s) (pa_Key args))])
    (s\<lparr>server := kv, answers := answers s @ [(c, args, rep)]\<rparr>)"
proof -
  note ok = srv_okD [OF assms(1)]
  let ?ck = "clerks s c" and ?old = "server s"
  have s: "pa_ClientId args = ClientId ?ck" "ClientId ?ck \<noteq> -1" "pa_TransactionId args \<le> TransactionId ?ck"
    "pa_TransactionId args = TransactionId ?ck \<longrightarrow> (\<exists>r. calling ?ck = Some (args, r))"
    using ok(3) [OF assms(2)] assms(3) by (auto simp: sent_ok_def executes_def)
  note reg = clerk_okD(1) [OF ok(2) s(2)] and own = clerk_okD(2) [OF ok(2) s(2)] and ack = clerk_okD(4) [OF ok(2) s(2)]
  have T: "AckID (ack ?old (ClientId ?ck)) = pa_TransactionId args"
    using assms(3) reg s(1) by (auto simp: executes_def registered_def go_index_def)
  with ack s(3) have T': "pa_TransactionId args = TransactionId ?ck" by auto
  then obtain r where call: "calling ?ck = Some (args, r)" using s(4) by blast
  have kv: "kv = executed args ?old" "rep_AckId rep = TransactionId ?ck + 1" "rep_Value rep = read_value ?old (pa_Key args)"
    using assms(4) serve_execute(1) [of ?old args] reg T T' s(1) by auto
  note ex = executed_facts [of ?old args, unfolded s(1), OF reg, folded kv(1)]
  have "ack kv (ClientId (clerks s c')) = ack ?old (ClientId (clerks s c'))"
    if "c' \<noteq> c" "ClientId (clerks s c') \<noteq> -1" for c'
    using clerk_okD(2,3) [OF ok(2) that(2)] own that(1) by (intro ex(6)) auto
  then have frame: "clerk_ok owner kv c' (clerks s c')"
    "(c', a, x) \<in> set (answers s) \<Longrightarrow> answer_ok owner kv c' (clerks s c') a x"
    "pending kv (clerks s c') = pending ?old (clerks s c')" if "c' \<noteq> c" for c' a x
    using server_frame [where kv = ?old and kv' = kv and owner = owner] ok(2,4) that ex(2) by metis+
  have clerk: "clerk_ok owner kv c ?ck"
    using ok(2) [of c] unfolding clerk_ok_def if_not_P [OF s(2)] ex(2,4) T T' call by blast
  have ans: "answer_ok owner kv c ?ck a x" if "(c, a, x) \<in> set (answers s)" for a x
    using ok(4) [OF that] T T' unfolding answer_ok_def ex(2) by auto
  have new: "answer_ok owner kv c ?ck args rep" using s T T' by (auto simp: answer_ok_def ex kv(2,3))
  have pend0: "pending ?old ?ck = []" "pending kv ?ck = [(args, result_of args (read_value ?old (pa_Key args)))]"
    using call T T' s(2) by (auto simp: pending_def ex result_of_def split: PutAppendType.splits)
  have "applied_of c' (H @ [Applied c args (read_value ?old (pa_Key args))]) =
      returned_of c' (H @ [Applied c args (read_value ?old (pa_Key args))]) @ pending kv (clerks s c')" for c'
    using ok(6) [of c'] frame(3) [of c'] pend0 by (cases "c' = c") auto
  moreover have "AckID (ack kv i) = 0" if "registered kv i" "ClientId (clerks s (owner i)) \<noteq> i" for i
    using ok(5) [of i] that own by (cases "i = ClientId ?ck") (auto simp: ex registered_def)
  moreover have "clerk_ok owner kv c' (clerks s c')" for c' using clerk frame(1) by (cases "c' = c") simp_all
  moreover have "answer_ok owner kv c' (clerks s c') a x" if "(c', a, x) \<in> set (answers s)" for c' a x
    using that ans frame(2) by (cases "c' = c") simp_all
  ultimately show ?thesis
    unfolding srv_ok_def using new ok(1,3,7) ex(1,3,7) by auto
qed

section \<open>Every operation takes effect once\<close>

definition srv_inv :: "srv_report list \<Rightarrow> srv_sys \<Rightarrow> bool" where
  "srv_inv H s \<longleftrightarrow> (\<exists>owner. srv_ok owner H s)"

lemma srv_invI: "srv_ok owner H s \<Longrightarrow> srv_inv H s"
  by (auto simp: srv_inv_def)

lemma srv_step_serve:
  assumes "srv_inv H s"
  shows "returns (srv_step (EServe i) s) (\<lambda>(s', os). srv_inv (H @ os) s')"
proof (cases "i < length (sent s)")
  case True
  from assms obtain owner where ok: "srv_ok owner H s" by (auto simp: srv_inv_def)
  obtain c args where ca: "sent s ! i = (c, args)" by fastforce
  with True have sent: "(c, args) \<in> set (sent s)" by (metis nth_mem)
  have "\<exists>kv rep. serve args (server s) = Some (kv, rep)"
  proof (cases "pa_ClientId args = -1")
    case False
    with srv_okD(3) [OF ok sent] have "pa_ClientId args = ClientId (clerks s c)" "ClientId (clerks s c) \<noteq> -1"
      by (auto simp: sent_ok_def)
    with clerk_okD(1) [OF srv_okD(2) [OF ok]] have "registered (server s) (pa_ClientId args)" by simp
    then show ?thesis using serve_execute(1) serve_again(1) by metis
  qed (use serve_new(1) in blast)
  then obtain kv rep where kv: "serve args (server s) = Some (kv, rep)" by blast
  have "srv_inv (H @ (if executes args (server s) then [Applied c args (read_value (server s) (pa_Key args))] else []))
      (s\<lparr>server := kv, answers := answers s @ [(c, args, rep)]\<rparr>)"
    using step_serve_new [OF ok sent _ kv] step_serve_again [OF ok sent _ _ kv] step_serve_execute [OF ok sent _ kv] serve_new(2)
    unfolding srv_inv_def by (cases "executes args (server s)"; cases "pa_ClientId args = -1") auto
  with True ca kv show ?thesis by simp
qed (use assms in simp)

lemma srv_step_reply:
  assumes "srv_inv H s"
  shows "returns (srv_step (EReply c j) s) (\<lambda>(s', os). srv_inv (H @ os) s')"
proof -
  from assms obtain owner where ok: "srv_ok owner H s" by (auto simp: srv_inv_def)
  obtain c' args msg where ans: "answers s ! j = (c', args, msg)" by (metis prod_cases3)
  show ?thesis
  proof (cases "j < length (answers s) \<and> c' = c \<and> (\<exists>old. calling (clerks s c) = Some (args, old))")
    case True
    then obtain old where call: "calling (clerks s c) = Some (args, old)" and mem: "(c, args, msg) \<in> set (answers s)"
      using ans by (metis nth_mem)
    have "\<exists>ck result. PutAppend_reply msg (clerks s c) = (ck, result) \<and>
        srv_inv (H @ (case result of None \<Rightarrow> [] | Some v \<Rightarrow> [Returned c args v])) (s\<lparr>clerks := (clerks s)(c := ck)\<rparr>)"
    proof (cases "ClientId (clerks s c) = -1")
      case True
      with step_registered [OF ok mem call] show ?thesis unfolding srv_inv_def by fastforce
    next
      case False
      from step_returned [OF ok mem call False] obtain ck v where "PutAppend_reply msg (clerks s c) = (ck, Some v)"
        "srv_ok owner (H @ [Returned c args v]) (s\<lparr>clerks := (clerks s)(c := ck)\<rparr>)" by blast
      then show ?thesis by (intro exI [of _ ck] exI [of _ "Some v"]) (simp add: srv_invI)
    qed
    with True ans call show ?thesis by auto
  next
    case False
    then show ?thesis using assms ans by (auto split: option.splits)
  qed
qed

interpretation kvsrv: machine srv_step "\<lambda>e s. True" srv_inv
proof
  fix H s e assume inv: "srv_inv H s"
  then obtain owner where ok: "srv_ok owner H s" by (auto simp: srv_inv_def)
  show "returns (srv_step e s) (\<lambda>(s', os). srv_inv (H @ os) s')"
  proof (cases e)
    case (EStart c key v op)
    then show ?thesis using inv srv_invI [OF step_start [OF ok]] by simp
  next
    case (ESend c)
    then show ?thesis using inv srv_invI [OF step_send [OF ok]] by (auto split: option.splits)
  next
    case (EGet c key)
    have "srv_ok owner (H @ [GotValue c key (read_value (server s) key)]) s"
      using ok by (simp add: srv_ok_def read_value_in)
    with EGet show ?thesis by (auto simp: srv_inv_def srv_Get_def clerk_Get_def)
  qed (simp_all only: srv_step_serve [OF inv] srv_step_reply [OF inv])
qed

lemma srv_start_inv: "srv_inv [] srv_start"
  unfolding srv_inv_def srv_ok_def
  by (intro exI [of _ "\<lambda>i. 0"])
    (simp add: srv_start_def StartKVServer_def MakeClerk_def clerk_ok_def pending_def registered_def)

text \<open>C6. Exactly once. However requests and replies are lost, delayed or repeated and however clerks interleave: the server
  does not panic; what was applied, with the values that Append and Get returned, is what one map does;
  and the operations of a clerk that were applied are those that returned, in their order and with
  the same results, and at most one more, which the clerk is still waiting for.\<close>

theorem kvsrv_exactly_once:
  "returns (run srv_step es srv_start) (\<lambda>(s, H).
     replay Map.empty H = Some (KeyValue (server s)) \<and>
     (\<forall>c. \<exists>waiting. applied_of c H = returned_of c H @ waiting \<and>
        (case calling (clerks s c) of
           None \<Rightarrow> waiting = []
         | Some (args, _) \<Rightarrow> waiting = [] \<or> (\<exists>r. waiting = [(args, r)]))))"
proof -
  have "admissible srv_step (\<lambda>e s. True) es srv_start" by (rule admissible_True) simp
  from kvsrv.run_from_start [OF srv_start_inv this] show ?thesis
  proof (rule returns_mono)
    fix x assume x: "case x of (s, H) \<Rightarrow> srv_inv H s"
    obtain s H where sH: "x = (s, H)" by fastforce
    with x obtain owner where ok: "srv_ok owner H s" by (auto simp: srv_inv_def)
    have "\<exists>waiting. applied_of c H = returned_of c H @ waiting \<and>
        (case calling (clerks s c) of None \<Rightarrow> waiting = [] | Some (args, _) \<Rightarrow> waiting = [] \<or> (\<exists>r. waiting = [(args, r)]))" for c
      using srv_okD(6) [OF ok, of c] by (auto simp: pending_def split: option.splits)
    with srv_okD(7) [OF ok] sH show "case x of (s, H) \<Rightarrow> replay Map.empty H = Some (KeyValue (server s)) \<and>
       (\<forall>c. \<exists>waiting. applied_of c H = returned_of c H @ waiting \<and>
          (case calling (clerks s c) of None \<Rightarrow> waiting = [] | Some (args, _) \<Rightarrow> waiting = [] \<or> (\<exists>r. waiting = [(args, r)])))"
      by simp
  qed
qed

end
