(* ===== verification/Porcupine.thy ===== *)
theory Porcupine
  imports Prelude "HOL-Library.AList" "HOL-Library.List_Lexorder" "HOL-Library.Char_ord"
begin

text \<open>
  The linearizability checker of \<^verbatim>\<open>src/porcupine\<close>, as it is used by the tests: bit sets, the history as a
  doubly linked list from which operations are lifted out and put back, and the search. A pointer is an
  address of a heap of nodes; \<open>None\<close> is nil, and a panic where the result is an \<open>option\<close>.
\<close>

section \<open>Bit sets\<close>

type_synonym bitset = "64 word list"

definition newBitset :: "nat \<Rightarrow> bitset" where
  "newBitset bits = (let extra = (if bits mod 64 \<noteq> 0 then 1 else 0) in replicate (bits div 64 + extra) 0)"

definition bitset_set :: "nat \<Rightarrow> bitset \<Rightarrow> bitset option" where
  "bitset_set pos b =
     do { w \<leftarrow> go_index b (int (pos div 64)); go_update b (int (pos div 64)) (w OR push_bit (pos mod 64) 1) }"

definition bitset_clear :: "nat \<Rightarrow> bitset \<Rightarrow> bitset option" where
  "bitset_clear pos b =
     do { w \<leftarrow> go_index b (int (pos div 64)); go_update b (int (pos div 64)) (w AND NOT (push_bit (pos mod 64) 1)) }"

definition bitset_get :: "nat \<Rightarrow> bitset \<Rightarrow> bool option" where
  "bitset_get pos b = do { w \<leftarrow> go_index b (int (pos div 64)); Some (w AND push_bit (pos mod 64) 1 \<noteq> 0) }"

definition OnesCount64 :: "64 word \<Rightarrow> nat" where
  "OnesCount64 w = length (filter (bit w) [0..<64])"

definition popcnt :: "bitset \<Rightarrow> nat" where
  "popcnt b = foldl (\<lambda>total v. total + OnesCount64 v) 0 b"

definition bitset_hash :: "bitset \<Rightarrow> 64 word" where
  "bitset_hash b = foldl (\<lambda>h v. h XOR v) (of_nat (popcnt b)) b"

fun bitset_equals :: "bitset \<Rightarrow> bitset \<Rightarrow> bool" where
  "bitset_equals [] [] \<longleftrightarrow> True"
| "bitset_equals (v # b) (w # b2) \<longleftrightarrow> v = w \<and> bitset_equals b b2"
| "bitset_equals _ _ \<longleftrightarrow> False"

section \<open>Histories and models\<close>

record 'v Operation =
  op_ClientId :: int
  op_Input :: 'v
  op_Call :: int
  op_Output :: 'v
  op_Return :: int

datatype EventKind = CallEvent | ReturnEvent

record 'v Event =
  ev_ClientId :: int
  ev_Kind :: EventKind
  ev_Value :: 'v
  ev_Id :: int

text \<open>A model as the caller gives it, where a function may be nil, and with the defaults filled in. The functions that
  inspect values of type \<^verbatim>\<open>interface{}\<close> panic on a value of another type.\<close>

record ('s, 'v) Model =
  Partition :: "'v Operation list \<Rightarrow> 'v Operation list list option"
  PartitionEvent :: "'v Event list \<Rightarrow> 'v Event list list option"
  Init :: 's
  Step :: "'s \<Rightarrow> 'v \<Rightarrow> 'v \<Rightarrow> (bool \<times> 's) option"
  Equal :: "'s \<Rightarrow> 's \<Rightarrow> bool"

record ('s, 'v) ModelArg =
  arg_Partition :: "('v Operation list \<Rightarrow> 'v Operation list list option) option"
  arg_PartitionEvent :: "('v Event list \<Rightarrow> 'v Event list list option) option"
  arg_Init :: 's
  arg_Step :: "'s \<Rightarrow> 'v \<Rightarrow> 'v \<Rightarrow> (bool \<times> 's) option"
  arg_Equal :: "('s \<Rightarrow> 's \<Rightarrow> bool) option"

definition NoPartition :: "'v Operation list \<Rightarrow> 'v Operation list list option" where
  "NoPartition history = Some [history]"

definition NoPartitionEvent :: "'v Event list \<Rightarrow> 'v Event list list option" where
  "NoPartitionEvent history = Some [history]"

definition ShallowEqual :: "'s \<Rightarrow> 's \<Rightarrow> bool" where
  "ShallowEqual state1 state2 \<longleftrightarrow> state1 = state2"

definition fillDefault :: "('s, 'v) ModelArg \<Rightarrow> ('s, 'v) Model" where
  "fillDefault model =
     \<lparr>Partition = (case arg_Partition model of None \<Rightarrow> NoPartition | Some f \<Rightarrow> f),
      PartitionEvent = (case arg_PartitionEvent model of None \<Rightarrow> NoPartitionEvent | Some f \<Rightarrow> f),
      Init = arg_Init model, Step = arg_Step model,
      Equal = (case arg_Equal model of None \<Rightarrow> ShallowEqual | Some f \<Rightarrow> f)\<rparr>"

datatype entryKind = callEntry | returnEntry

record 'v entry =
  kind :: entryKind
  evalue :: 'v
  eid :: int
  etime :: int
  eclientId :: int

text \<open>The order by time, with calls before returns of the same time.\<close>

definition byTime_Less :: "'v entry \<Rightarrow> 'v entry \<Rightarrow> bool" where
  "byTime_Less a b \<longleftrightarrow>
     (if etime a \<noteq> etime b then etime a < etime b else kind a = callEntry \<and> kind b = returnEntry)"

fun entries_of :: "int \<Rightarrow> 'v Operation list \<Rightarrow> 'v entry list" where
  "entries_of i [] = []"
| "entries_of i (elem # history) =
     \<lparr>kind = callEntry, evalue = op_Input elem, eid = i, etime = op_Call elem, eclientId = op_ClientId elem\<rparr> #
     \<lparr>kind = returnEntry, evalue = op_Output elem, eid = i, etime = op_Return elem, eclientId = op_ClientId elem\<rparr> #
     entries_of (i + 1) history"

definition makeEntries :: "('v entry list \<Rightarrow> 'v entry list) \<Rightarrow> 'v Operation list \<Rightarrow> 'v entry list" where
  "makeEntries Sort history = Sort (entries_of 0 history)"

text \<open>Events come in the order in which they happened; their numbers are replaced by 0, 1, \<dots> in the order of first use.\<close>

fun renumber_from :: "(int \<rightharpoonup> int) \<Rightarrow> int \<Rightarrow> 'v Event list \<Rightarrow> 'v Event list" where
  "renumber_from m i [] = []"
| "renumber_from m i (v # events) =
     (case m (ev_Id v) of
        Some r \<Rightarrow> v\<lparr>ev_Id := r\<rparr> # renumber_from m i events
      | None \<Rightarrow> v\<lparr>ev_Id := i\<rparr> # renumber_from (m(ev_Id v \<mapsto> i)) (i + 1) events)"

definition renumber :: "'v Event list \<Rightarrow> 'v Event list" where
  "renumber events = renumber_from Map.empty 0 events"

definition convertEntries :: "'v Event list \<Rightarrow> 'v entry list" where
  "convertEntries events =
     map (\<lambda>(i, elem).
            \<lparr>kind = (if ev_Kind elem = ReturnEvent then returnEntry else callEntry), evalue = ev_Value elem, eid = ev_Id elem,
             etime = int i, eclientId = ev_ClientId elem\<rparr>)
         (zip [0..<length events] events)"

section \<open>Linked lists\<close>

record 'v node =
  nvalue :: "'v option"
  nmatch :: "nat option"
  nid :: int
  nnext :: "nat option"
  nprev :: "nat option"

type_synonym 'v heap = "nat \<rightharpoonup> 'v node"

definition set_next :: "nat \<Rightarrow> nat option \<Rightarrow> 'v heap \<Rightarrow> 'v heap option" where
  "set_next a x h = do { n \<leftarrow> h a; Some (h(a \<mapsto> n\<lparr>nnext := x\<rparr>)) }"

definition set_prev :: "nat \<Rightarrow> nat option \<Rightarrow> 'v heap \<Rightarrow> 'v heap option" where
  "set_prev a x h = do { n \<leftarrow> h a; Some (h(a \<mapsto> n\<lparr>nprev := x\<rparr>)) }"

definition insertBefore :: "nat \<Rightarrow> nat option \<Rightarrow> 'v heap \<Rightarrow> 'v heap option" where
  "insertBefore n mark h =
     (case mark of
        None \<Rightarrow> Some h
      | Some mk \<Rightarrow>
          do { m \<leftarrow> h mk;
               let beforeMark = nprev m;
               h \<leftarrow> set_prev mk (Some n) h;
               h \<leftarrow> set_next n (Some mk) h;
               (case beforeMark of
                  None \<Rightarrow> Some h
                | Some b \<Rightarrow> do { h \<leftarrow> set_prev n (Some b) h; set_next b (Some n) h }) })"

partial_function (option) list_length :: "'v heap \<Rightarrow> nat option \<Rightarrow> nat option" where
  "list_length h n =
     (case n of
        None \<Rightarrow> Some 0
      | Some a \<Rightarrow> do { nd \<leftarrow> h a; l \<leftarrow> list_length h (nnext nd); Some (Suc l) })"

text \<open>The loop over the entries from the last to the first; the node of entry \<open>i\<close> has address \<open>i\<close>.\<close>

fun link_entries :: "'v entry list \<Rightarrow> nat \<Rightarrow> 'v heap \<Rightarrow> nat option \<Rightarrow> (int \<rightharpoonup> nat) \<Rightarrow> ('v heap \<times> nat option) option" where
  "link_entries entries 0 h root mtch = Some (h, root)"
| "link_entries entries (Suc i) h root mtch =
     (let elem = entries ! i in
      if kind elem = returnEntry
      then do { h \<leftarrow> insertBefore i root
                  (h(i \<mapsto> \<lparr>nvalue = Some (evalue elem), nmatch = None, nid = eid elem, nnext = None, nprev = None\<rparr>));
                link_entries entries i h (Some i) (mtch(eid elem \<mapsto> i)) }
      else do { h \<leftarrow> insertBefore i root
                  (h(i \<mapsto> \<lparr>nvalue = Some (evalue elem), nmatch = mtch (eid elem), nid = eid elem, nnext = None, nprev = None\<rparr>));
                link_entries entries i h (Some i) mtch })"

definition makeLinkedEntries :: "'v entry list \<Rightarrow> ('v heap \<times> nat option) option" where
  "makeLinkedEntries entries = link_entries entries (length entries) Map.empty None Map.empty"

definition lift_entry :: "nat \<Rightarrow> 'v heap \<Rightarrow> 'v heap option" where
  "lift_entry entry h =
     do { e \<leftarrow> h entry;
          p \<leftarrow> nprev e; h \<leftarrow> set_next p (nnext e) h;
          e \<leftarrow> h entry;
          q \<leftarrow> nnext e; h \<leftarrow> set_prev q (nprev e) h;
          e \<leftarrow> h entry;
          mt \<leftarrow> nmatch e;
          m \<leftarrow> h mt;
          p \<leftarrow> nprev m; h \<leftarrow> set_next p (nnext m) h;
          m \<leftarrow> h mt;
          (case nnext m of None \<Rightarrow> Some h | Some q \<Rightarrow> set_prev q (nprev m) h) }"

definition unlift_entry :: "nat \<Rightarrow> 'v heap \<Rightarrow> 'v heap option" where
  "unlift_entry entry h =
     do { e \<leftarrow> h entry;
          mt \<leftarrow> nmatch e;
          m \<leftarrow> h mt;
          p \<leftarrow> nprev m; h \<leftarrow> set_next p (Some mt) h;
          m \<leftarrow> h mt;
          h \<leftarrow> (case nnext m of None \<Rightarrow> Some h | Some q \<Rightarrow> set_prev q (Some mt) h);
          e \<leftarrow> h entry;
          p \<leftarrow> nprev e; h \<leftarrow> set_next p (Some entry) h;
          e \<leftarrow> h entry;
          q \<leftarrow> nnext e; set_prev q (Some entry) h }"

section \<open>The search\<close>

type_synonym 's cache = "64 word \<Rightarrow> (bitset \<times> 's) list"

definition cacheContains :: "('s, 'v) Model \<Rightarrow> 's cache \<Rightarrow> bitset \<times> 's \<Rightarrow> bool" where
  "cacheContains model cache entry =
     list_ex (\<lambda>elem. bitset_equals (fst entry) (fst elem) \<and> Equal model (snd entry) (snd elem)) (cache (bitset_hash (fst entry)))"

record ('s, 'v) search =
  sheap :: "'v heap"
  sentry :: "nat option"
  sstate :: 's
  slinearized :: bitset
  scache :: "'s cache"
  scalls :: "(nat \<times> 's) list"
  slongest :: "int list option list"

text \<open>The identifiers of the operations on the stack of calls.\<close>

fun call_ids :: "'v heap \<Rightarrow> (nat \<times> 's) list \<Rightarrow> int list option" where
  "call_ids h [] = Some []"
| "call_ids h ((a, s) # calls) = do { n \<leftarrow> h a; rest \<leftarrow> call_ids h calls; Some (nid n # rest) }"

fun update_longest :: "int list \<Rightarrow> int list \<Rightarrow> int list option list \<Rightarrow> int list option list option" where
  "update_longest seq [] longest = Some longest"
| "update_longest seq (i # ids) longest =
     do { l \<leftarrow> go_index longest i;
          longest \<leftarrow> (case l of
             None \<Rightarrow> go_update longest i (Some seq)
           | Some old \<Rightarrow> if go_len seq > go_len old then go_update longest i (Some seq) else Some longest);
          update_longest seq ids longest }"

text \<open>The body of the loop at a call and at a return.\<close>

definition at_call :: "('s, 'v) Model \<Rightarrow> nat \<Rightarrow> nat \<Rightarrow> 'v node \<Rightarrow> nat \<Rightarrow> ('s, 'v) search \<Rightarrow> ('s, 'v) search option" where
  "at_call model head a e matching s =
     do { m \<leftarrow> sheap s matching;
          inp \<leftarrow> nvalue e;
          out \<leftarrow> nvalue m;
          (ok, newState) \<leftarrow> Step model (sstate s) inp out;
          if ok then do {
            newLinearized \<leftarrow> bitset_set (nat (nid e)) (slinearized s);
            if \<not> cacheContains model (scache s) (newLinearized, newState) then do {
              let hash = bitset_hash newLinearized;
              lin \<leftarrow> bitset_set (nat (nid e)) (slinearized s);
              h \<leftarrow> lift_entry a (sheap s);
              hd \<leftarrow> h head;
              Some (s\<lparr>scache := (scache s)(hash := scache s hash @ [(newLinearized, newState)]),
                      scalls := scalls s @ [(a, sstate s)], sstate := newState, slinearized := lin,
                      sheap := h, sentry := nnext hd\<rparr>) }
            else Some (s\<lparr>sentry := nnext e\<rparr>) }
          else Some (s\<lparr>sentry := nnext e\<rparr>) }"

definition at_return :: "bool \<Rightarrow> ('s, 'v) search \<Rightarrow> ('s, 'v) search option" where
  "at_return computePartial s =
     do { longest \<leftarrow> (if computePartial
             then do { ids \<leftarrow> call_ids (sheap s) (scalls s); update_longest ids ids (slongest s) }
             else Some (slongest s));
          let (a, state) = last (scalls s);
          e \<leftarrow> sheap s a;
          lin \<leftarrow> bitset_clear (nat (nid e)) (slinearized s);
          h \<leftarrow> unlift_entry a (sheap s);
          e \<leftarrow> h a;
          Some (s\<lparr>sentry := nnext e, sstate := state, slinearized := lin, scalls := butlast (scalls s), sheap := h,
                  slongest := longest\<rparr>) }"

text \<open>The loop; \<open>kill\<close> says in which iterations the kill flag is read as set. The result \<open>None\<close> is a panic or a
  loop that does not end.\<close>

partial_function (option) check_loop ::
  "('s, 'v) Model \<Rightarrow> bool \<Rightarrow> (nat \<Rightarrow> bool) \<Rightarrow> nat \<Rightarrow> nat \<Rightarrow> ('s, 'v) search \<Rightarrow> (bool \<times> int list option list) option" where
  "check_loop model computePartial kill head k s =
     do { hd \<leftarrow> sheap s head;
          if nnext hd = None then
            do { seq \<leftarrow> call_ids (sheap s) (scalls s);
                 Some (True, map (\<lambda>_. Some seq) (slongest s)) }
          else if kill k then Some (False, slongest s)
          else do {
            a \<leftarrow> sentry s;
            e \<leftarrow> sheap s a;
            (case nmatch e of
               Some matching \<Rightarrow>
                 do { s' \<leftarrow> at_call model head a e matching s; check_loop model computePartial kill head (Suc k) s' }
             | None \<Rightarrow>
                 if scalls s = [] then Some (False, slongest s)
                 else do { s' \<leftarrow> at_return computePartial s; check_loop model computePartial kill head (Suc k) s' }) } }"

definition checkSingle ::
  "('s, 'v) Model \<Rightarrow> 'v entry list \<Rightarrow> bool \<Rightarrow> (nat \<Rightarrow> bool) \<Rightarrow> (bool \<times> int list option list) option" where
  "checkSingle model history computePartial kill =
     do { (h, entry) \<leftarrow> makeLinkedEntries history;
          len \<leftarrow> list_length h entry;
          let n = len div 2;
          let head = length history;
          h \<leftarrow> insertBefore head entry (h(head \<mapsto> \<lparr>nvalue = None, nmatch = None, nid = -1, nnext = None, nprev = None\<rparr>));
          check_loop model computePartial kill head 0
            \<lparr>sheap = h, sentry = entry, sstate = Init model, slinearized = newBitset n, scache = \<lambda>_. [], scalls = [],
             slongest = replicate n None\<rparr> }"

end
