(* ===== verification/Porcupine_List.thy ===== *)
theory Porcupine_List
  imports Porcupine
begin

text \<open>
  The doubly linked list of the checker. A heap represents a list of addresses; lifting an
  operation removes its call and its return from the list, and unlifting puts the operation that was lifted last
  back where it was.
\<close>

section \<open>Links\<close>

definition nxt :: "'v heap \<Rightarrow> nat \<Rightarrow> nat option" where
  "nxt h a = Option.bind (h a) nnext"

definition prv :: "'v heap \<Rightarrow> nat \<Rightarrow> nat option" where
  "prv h a = Option.bind (h a) nprev"

text \<open>What linking does not change.\<close>

definition node_data :: "'v heap \<Rightarrow> nat \<Rightarrow> ('v option \<times> nat option \<times> int) option" where
  "node_data h a = map_option (\<lambda>n. (nvalue n, nmatch n, nid n)) (h a)"

definition same_data :: "'v heap \<Rightarrow> 'v heap \<Rightarrow> bool" where
  "same_data h h' \<longleftrightarrow> node_data h' = node_data h"

lemma same_data_refl [simp]: "same_data h h"
  by (simp add: same_data_def)

lemma same_data_trans: "same_data h h1 \<Longrightarrow> same_data h1 h2 \<Longrightarrow> same_data h h2"
  by (simp add: same_data_def)

lemma node_data_dom: "a \<in> dom h \<longleftrightarrow> node_data h a \<noteq> None"
  by (auto simp: node_data_def)

lemma same_data_dom: "same_data h h' \<Longrightarrow> dom h' = dom h"
  by (auto simp: same_data_def node_data_dom set_eq_iff simp del: not_None_eq)

lemma same_dataD:
  assumes "same_data h h'" "h a = Some n"
  obtains n' where "h' a = Some n'" "nvalue n' = nvalue n" "nmatch n' = nmatch n" "nid n' = nid n"
proof -
  from assms have "node_data h' a = Some (nvalue n, nmatch n, nid n)"
    by (simp add: same_data_def) (simp add: node_data_def)
  then show ?thesis using that by (auto simp: node_data_def)
qed

lemma set_next_eq:
  assumes "a \<in> dom h"
  obtains h' where "set_next a x h = Some h'" "nxt h' = (nxt h)(a := x)" "prv h' = prv h" "same_data h h'"
proof -
  from assms obtain n where n: "h a = Some n" by auto
  let ?h = "h(a \<mapsto> n\<lparr>nnext := x\<rparr>)"
  have "nxt ?h = (nxt h)(a := x)" "prv ?h = prv h" "same_data h ?h"
    using n by (auto simp: fun_eq_iff nxt_def prv_def same_data_def node_data_def)
  with n that show ?thesis by (simp add: set_next_def)
qed

lemma set_prev_eq:
  assumes "a \<in> dom h"
  obtains h' where "set_prev a x h = Some h'" "nxt h' = nxt h" "prv h' = (prv h)(a := x)" "same_data h h'"
proof -
  from assms obtain n where n: "h a = Some n" by auto
  let ?h = "h(a \<mapsto> n\<lparr>nprev := x\<rparr>)"
  have "nxt ?h = nxt h" "prv ?h = (prv h)(a := x)" "same_data h ?h"
    using n by (auto simp: fun_eq_iff nxt_def prv_def same_data_def node_data_def)
  with n that show ?thesis by (simp add: set_prev_def)
qed

section \<open>Lists of addresses\<close>

fun seg :: "(nat \<rightharpoonup> nat) \<Rightarrow> (nat \<rightharpoonup> nat) \<Rightarrow> nat list \<Rightarrow> bool" where
  "seg N P (a # b # xs) \<longleftrightarrow> N a = Some b \<and> P b = Some a \<and> seg N P (b # xs)"
| "seg N P _ \<longleftrightarrow> True"

definition first_of :: "nat list \<Rightarrow> nat option" where
  "first_of xs = (case xs of [] \<Rightarrow> None | x # _ \<Rightarrow> Some x)"

definition dll :: "(nat \<rightharpoonup> nat) \<Rightarrow> (nat \<rightharpoonup> nat) \<Rightarrow> nat list \<Rightarrow> bool" where
  "dll N P xs \<longleftrightarrow> distinct xs \<and> seg N P xs \<and> (xs \<noteq> [] \<longrightarrow> N (last xs) = None)"

lemma first_of_simps [simp]: "first_of [] = None" "first_of (x # xs) = Some x"
  by (simp_all add: first_of_def)

lemma first_of_append: "first_of (xs @ ys) = (if xs = [] then first_of ys else first_of xs)"
  by (cases xs) simp_all

lemma seg_append:
  "seg N P (as @ bs) \<longleftrightarrow>
     seg N P as \<and> seg N P bs \<and> (as \<noteq> [] \<and> bs \<noteq> [] \<longrightarrow> N (last as) = Some (hd bs) \<and> P (hd bs) = Some (last as))"
  by (induction N P as rule: seg.induct; cases bs; auto)

lemma seg_cong:
  assumes "\<And>a. a \<in> set (butlast xs) \<Longrightarrow> N' a = N a" "\<And>a. a \<in> set (tl xs) \<Longrightarrow> P' a = P a"
  shows "seg N' P' xs = seg N P xs"
  using assms by (induction N P xs rule: seg.induct) (auto split: if_splits)

text \<open>The links around an element, and the list without it.\<close>

lemma dll_around:
  assumes "dll N P (as @ x # bs)" "as \<noteq> []"
  shows "N x = first_of bs" "P x = Some (last as)" "N (last as) = Some x"
    "bs \<noteq> [] \<Longrightarrow> P (hd bs) = Some x"
  using assms by (cases bs; auto simp: dll_def seg_append first_of_def)+

text \<open>Redirecting the links between two adjacent segments keeps the links inside them.\<close>

lemma seg_redirect:
  assumes "distinct (as @ bs)" "as \<noteq> []"
  shows "seg (N(last as := y)) (case bs of [] \<Rightarrow> P | q # _ \<Rightarrow> P(q := z)) as = seg N P as" (is ?A)
    and "seg (N(last as := y)) (case bs of [] \<Rightarrow> P | q # _ \<Rightarrow> P(q := z)) bs = seg N P bs" (is ?B)
proof -
  have last: "last as \<notin> set (butlast as)" "last as \<notin> set bs"
    using assms by (metis append_butlast_last_id disjoint_iff distinct_append list.set_intros(1))
      (use assms last_in_set [OF assms(2)] in \<open>auto simp del: last_in_set\<close>)
  have first: "hd bs \<notin> set as" "hd bs \<notin> set (tl bs)" if "bs \<noteq> []"
    using that assms by (cases bs; auto)+
  show ?A
    by (rule seg_cong) (use last first in \<open>auto split: list.splits dest: list.set_sel(2) [OF assms(2)]\<close>)
  show ?B
    by (rule seg_cong) (use last first in \<open>auto split: list.splits dest: in_set_butlastD\<close>)
qed

lemma distinct_lasts: "distinct (as @ bs) \<Longrightarrow> as \<noteq> [] \<Longrightarrow> bs \<noteq> [] \<Longrightarrow> last bs \<noteq> last as"
  by (metis disjoint_iff distinct_append last_in_set)

definition unlinked :: "nat \<Rightarrow> (nat \<rightharpoonup> nat) \<Rightarrow> (nat \<rightharpoonup> nat) \<Rightarrow> (nat \<rightharpoonup> nat) \<times> (nat \<rightharpoonup> nat)" where
  "unlinked x N P = (N(the (P x) := N x), case N x of None \<Rightarrow> P | Some q \<Rightarrow> P(q := P x))"

definition relinked :: "nat \<Rightarrow> (nat \<rightharpoonup> nat) \<Rightarrow> (nat \<rightharpoonup> nat) \<Rightarrow> (nat \<rightharpoonup> nat) \<times> (nat \<rightharpoonup> nat)" where
  "relinked x N P = (N(the (P x) := Some x), case N x of None \<Rightarrow> P | Some q \<Rightarrow> P(q := Some x))"

lemma dll_unlinked:
  assumes "dll N P (as @ x # bs)" "as \<noteq> []" "unlinked x N P = (N', P')"
  shows "dll N' P' (as @ bs)" "\<And>a. a \<notin> set as \<Longrightarrow> N' a = N a" "\<And>a. a \<notin> set bs \<Longrightarrow> P' a = P a"
    "bs \<noteq> [] \<Longrightarrow> P' (hd bs) = Some (last as)"
proof -
  note ar = dll_around [OF assms(1,2)]
  have N': "N' = N(last as := first_of bs)" using assms(3) ar by (auto simp: unlinked_def)
  have P': "P' = (case bs of [] \<Rightarrow> P | q # _ \<Rightarrow> P(q := Some (last as)))"
    using assms(3) ar by (auto simp: unlinked_def first_of_def split: list.splits)
  have d: "distinct (as @ x # bs)" using assms(1) by (simp add: dll_def)
  show "N' a = N a" if "a \<notin> set as" for a using that assms(2) by (auto simp: N')
  show "P' a = P a" if "a \<notin> set bs" for a using that by (auto simp: P' split: list.splits)
  show hdP: "P' (hd bs) = Some (last as)" if "bs \<noteq> []" using that by (cases bs) (auto simp: P')
  have "seg N' P' as = seg N P as" "seg N' P' bs = seg N P bs"
    unfolding N' P' using seg_redirect [of as bs] d assms(2) by auto
  moreover have "seg N P as" "seg N P bs" using assms(1) by (cases bs; auto simp: dll_def seg_append)+
  moreover have "N' (last (as @ bs)) = None"
    using assms(1,2) d distinct_lasts [of as bs] by (cases "bs = []") (auto simp: N' dll_def)
  moreover have "N' (last as) = first_of bs" by (simp add: N')
  ultimately show "dll N' P' (as @ bs)"
    using d hdP assms(2) by (cases bs) (simp_all add: dll_def seg_append)
qed

lemma dll_relinked:
  assumes "dll N P (as @ bs)" "as \<noteq> []" "x \<notin> set (as @ bs)" "N x = first_of bs" "P x = Some (last as)"
    and "relinked x N P = (N', P')"
  shows "dll N' P' (as @ x # bs)" "\<And>a. a \<notin> set as \<Longrightarrow> N' a = N a" "\<And>a. a \<notin> set bs \<Longrightarrow> P' a = P a"
proof -
  have N': "N' = N(last as := Some x)" using assms(5,6) by (simp add: relinked_def)
  have P': "P' = (case bs of [] \<Rightarrow> P | q # _ \<Rightarrow> P(q := Some x))"
    using assms(4,6) by (auto simp: relinked_def first_of_def split: list.splits)
  have d: "distinct (as @ bs)" using assms(1) by (simp add: dll_def)
  show "N' a = N a" if "a \<notin> set as" for a using that assms(2) by (auto simp: N')
  show "P' a = P a" if "a \<notin> set bs" for a using that by (auto simp: P' split: list.splits)
  have "seg N' P' as = seg N P as" "seg N' P' bs = seg N P bs"
    unfolding N' P' using seg_redirect [of as bs] d assms(2) by auto
  moreover have "N' x = first_of bs" "P' x = Some (last as)" "bs \<noteq> [] \<Longrightarrow> P' (hd bs) = Some x"
    using assms(2-5) by (auto simp: N' P' split: list.splits)
  moreover have "N' (last as) = Some x" by (simp add: N')
  moreover have "bs \<noteq> [] \<Longrightarrow> N' (last bs) = None"
    using assms(1,2) d distinct_lasts [of as bs] by (auto simp: N' dll_def)
  moreover have "seg N P as" "seg N P bs" using assms(1) by (simp_all add: dll_def seg_append)
  ultimately show "dll N' P' (as @ x # bs)"
    using d assms(2,3) by (cases bs) (simp_all add: dll_def seg_append)
qed

section \<open>Lifting and unlifting\<close>

definition unlink :: "nat \<Rightarrow> 'v heap \<Rightarrow> 'v heap option" where
  "unlink x h =
     do { n \<leftarrow> h x; p \<leftarrow> nprev n; h \<leftarrow> set_next p (nnext n) h;
          n \<leftarrow> h x; (case nnext n of None \<Rightarrow> Some h | Some q \<Rightarrow> set_prev q (nprev n) h) }"

definition relink :: "nat \<Rightarrow> 'v heap \<Rightarrow> 'v heap option" where
  "relink x h =
     do { n \<leftarrow> h x; p \<leftarrow> nprev n; h \<leftarrow> set_next p (Some x) h;
          n \<leftarrow> h x; (case nnext n of None \<Rightarrow> Some h | Some q \<Rightarrow> set_prev q (Some x) h) }"

lemma nxt_SomeD: "x \<in> dom h \<Longrightarrow> \<exists>n. h x = Some n \<and> nnext n = nxt h x \<and> nprev n = prv h x"
  by (auto simp: nxt_def prv_def)

lemma unlink_eq:
  assumes "x \<in> dom h" "prv h x = Some p" "set_next p (nxt h x) h = Some h1" "p \<noteq> x"
  shows "unlink x h = (case nxt h x of None \<Rightarrow> Some h1 | Some q \<Rightarrow> set_prev q (prv h x) h1)"
proof -
  obtain n where n: "h x = Some n" "nnext n = nxt h x" "nprev n = prv h x" using nxt_SomeD [OF assms(1)] by blast
  moreover have "h1 x = Some n" using assms(3,4) n(1) by (auto simp: set_next_def bind_eq_Some_conv)
  ultimately show ?thesis using assms(2,3) by (simp add: unlink_def split: option.split)
qed

lemma relink_eq:
  assumes "x \<in> dom h" "prv h x = Some p" "set_next p (Some x) h = Some h1" "p \<noteq> x"
  shows "relink x h = (case nxt h x of None \<Rightarrow> Some h1 | Some q \<Rightarrow> set_prev q (Some x) h1)"
proof -
  obtain n where n: "h x = Some n" "nnext n = nxt h x" "nprev n = prv h x" using nxt_SomeD [OF assms(1)] by blast
  moreover have "h1 x = Some n" using assms(3,4) n(1) by (auto simp: set_next_def bind_eq_Some_conv)
  ultimately show ?thesis using assms(2,3) by (simp add: relink_def)
qed

lemma unlink_ok:
  assumes "dll (nxt h) (prv h) (as @ x # bs)" "as \<noteq> []" "set (as @ x # bs) \<subseteq> dom h"
  obtains h' where "unlink x h = Some h'" "unlinked x (nxt h) (prv h) = (nxt h', prv h')" "same_data h h'"
proof -
  note ar = dll_around [OF assms(1,2)]
  have ne: "last as \<noteq> x" using assms(1,2) by (auto simp: dll_def)
  have d: "last as \<in> dom h" "x \<in> dom h" using assms(3) last_in_set [OF assms(2)] by (auto simp del: last_in_set)
  obtain h1 where h1: "set_next (last as) (nxt h x) h = Some h1" "nxt h1 = (nxt h)(last as := nxt h x)"
    "prv h1 = prv h" "same_data h h1" using d(1) by (rule set_next_eq)
  note eq = unlink_eq [OF d(2) ar(2) h1(1) ne]
  show ?thesis
  proof (cases bs)
    case Nil
    then show ?thesis using that [of h1] h1 ar eq by (simp add: unlinked_def)
  next
    case (Cons q qs)
    then have "q \<in> dom h1" using assms(3) same_data_dom [OF h1(4)] by auto
    then obtain h2 where h2: "set_prev q (prv h x) h1 = Some h2" "nxt h2 = nxt h1" "prv h2 = (prv h1)(q := prv h x)"
      "same_data h1 h2" by (rule set_prev_eq)
    then show ?thesis
      using that [of h2] h1 ar eq Cons same_data_trans [OF h1(4) h2(4)] by (simp add: unlinked_def)
  qed
qed

lemma relink_ok:
  assumes "as \<noteq> []" "x \<notin> set (as @ bs)" "nxt h x = first_of bs" "prv h x = Some (last as)" "set (as @ x # bs) \<subseteq> dom h"
  obtains h' where "relink x h = Some h'" "relinked x (nxt h) (prv h) = (nxt h', prv h')" "same_data h h'"
proof -
  have ne: "last as \<noteq> x" using assms(1,2) last_in_set [OF assms(1)] by (auto simp del: last_in_set)
  have d: "last as \<in> dom h" "x \<in> dom h" using assms(5) last_in_set [OF assms(1)] by (auto simp del: last_in_set)
  obtain h1 where h1: "set_next (last as) (Some x) h = Some h1" "nxt h1 = (nxt h)(last as := Some x)"
    "prv h1 = prv h" "same_data h h1" using d(1) by (rule set_next_eq)
  note eq = relink_eq [OF d(2) assms(4) h1(1) ne]
  show ?thesis
  proof (cases bs)
    case Nil
    then show ?thesis using that [of h1] h1 assms eq by (simp add: relinked_def)
  next
    case (Cons q qs)
    then have "q \<in> dom h1" using assms(5) same_data_dom [OF h1(4)] by auto
    then obtain h2 where h2: "set_prev q (Some x) h1 = Some h2" "nxt h2 = nxt h1" "prv h2 = (prv h1)(q := Some x)"
      "same_data h1 h2" by (rule set_prev_eq)
    then show ?thesis
      using that [of h2] h1 assms eq Cons same_data_trans [OF h1(4) h2(4)] by (simp add: relinked_def)
  qed
qed

text \<open>Lifting a call unlinks it and its return; unlifting relinks them in the opposite order.\<close>

lemma lift_entry_eq:
  assumes "h a = Some n" "nnext n \<noteq> None" "nprev n \<noteq> Some a"
  shows "lift_entry a h = do { h1 \<leftarrow> unlink a h; e \<leftarrow> h1 a; mt \<leftarrow> nmatch e; unlink mt h1 }"
proof (cases "nprev n")
  case (Some p)
  show ?thesis
  proof (cases "set_next p (nnext n) h")
    case (Some h0)
    have "h0 a = Some n" using Some assms(1,3) \<open>nprev n = Some p\<close> by (auto simp: set_next_def bind_eq_Some_conv)
    then show ?thesis
      using assms(1,2) Some \<open>nprev n = Some p\<close> by (auto simp: lift_entry_def unlink_def Option.bind_assoc)
  qed (use assms(1) Some in \<open>simp add: lift_entry_def unlink_def\<close>)
qed (use assms(1) in \<open>simp add: lift_entry_def unlink_def\<close>)

lemma unlift_entry_eq:
  assumes "h a = Some n" "nmatch n = Some m" "relink m h = Some h1" "h1 a = Some n1" "nnext n1 \<noteq> None" "nprev n1 \<noteq> Some a"
  shows "unlift_entry a h = relink a h1"
proof -
  have "unlift_entry a h = do { h \<leftarrow> relink m h; e \<leftarrow> h a; p \<leftarrow> nprev e; h \<leftarrow> set_next p (Some a) h; e \<leftarrow> h a; q \<leftarrow> nnext e; set_prev q (Some a) h }"
    using assms(1,2) by (simp add: unlift_entry_def relink_def Option.bind_assoc)
  also have "\<dots> = relink a h1"
    using assms(4-6) unfolding assms(3) relink_def [of a h1]
    by (cases "nprev n1") (auto simp: set_next_def Option.bind_assoc split: bind_splits)
  finally show ?thesis .
qed

section \<open>The operations that are lifted\<close>

text \<open>\<open>lifted N P full calls xs\<close>: lifting the calls (the last one first in the list, with their returns) one after
  the other from \<open>full\<close> left \<open>xs\<close>, and each lifted node still has the links to where it was.\<close>

fun lifted :: "(nat \<rightharpoonup> nat) \<Rightarrow> (nat \<rightharpoonup> nat) \<Rightarrow> nat list \<Rightarrow> (nat \<times> nat) list \<Rightarrow> nat list \<Rightarrow> bool" where
  "lifted N P full [] xs \<longleftrightarrow> xs = full"
| "lifted N P full ((e, m) # calls) xs \<longleftrightarrow>
     (\<exists>as bs cs. xs = as @ bs @ cs \<and> as \<noteq> [] \<and>
        P e = Some (last as) \<and> N e = first_of (bs @ [m]) \<and> P m = Some (last (as @ bs)) \<and> N m = first_of cs \<and>
        lifted N P full calls (as @ e # bs @ m # cs))"

definition nodes_of :: "(nat \<times> nat) list \<Rightarrow> nat set" where
  "nodes_of calls = set (map fst calls) \<union> set (map snd calls)"

lemma nodes_of_simps [simp]: "nodes_of [] = {}" "nodes_of ((e, m) # calls) = insert e (insert m (nodes_of calls))"
  by (auto simp: nodes_of_def)

lemma lifted_cong:
  assumes "\<And>a. a \<in> nodes_of calls \<Longrightarrow> N' a = N a" "\<And>a. a \<in> nodes_of calls \<Longrightarrow> P' a = P a"
  shows "lifted N' P' full calls xs = lifted N P full calls xs"
  using assms by (induction calls arbitrary: xs) auto

lemma lifted_ConsE:
  assumes "lifted N P full (c # calls) xs"
  obtains e m as bs cs where "c = (e, m)" "xs = as @ bs @ cs" "as \<noteq> []" "lifted N P full calls (as @ e # bs @ m # cs)"
  using assms by (cases c) auto

lemma lifted_sets:
  assumes "lifted N P full calls xs"
  shows "set full = set xs \<union> nodes_of calls"
  using assms
proof (induction calls arbitrary: xs)
  case (Cons c calls)
  from Cons.prems obtain e m as bs cs where "c = (e, m)" "xs = as @ bs @ cs" "lifted N P full calls (as @ e # bs @ m # cs)"
    by (rule lifted_ConsE)
  with Cons.IH [OF this(3)] show ?case by auto
qed simp

lemma lifted_notin:
  assumes "lifted N P full calls xs" "distinct full"
  shows "distinct xs \<and> set xs \<inter> nodes_of calls = {}"
  using assms(1)
proof (induction calls arbitrary: xs)
  case (Cons c calls)
  from Cons.prems obtain e m as bs cs where "c = (e, m)" "xs = as @ bs @ cs" "lifted N P full calls (as @ e # bs @ m # cs)"
    by (rule lifted_ConsE)
  with Cons.IH [OF this(3)] show ?case by auto
qed (use assms(2) in simp)

text \<open>A heap that holds \<open>xs\<close> as a list, with the calls lifted.\<close>

definition holds :: "'v heap \<Rightarrow> nat list \<Rightarrow> (nat \<times> nat) list \<Rightarrow> nat list \<Rightarrow> bool" where
  "holds h full calls xs \<longleftrightarrow>
     set full \<subseteq> dom h \<and> distinct full \<and> dll (nxt h) (prv h) xs \<and> lifted (nxt h) (prv h) full calls xs"

lemma holdsD:
  assumes "holds h full calls xs"
  shows "set xs \<subseteq> dom h" "nodes_of calls \<subseteq> dom h" "distinct xs" "set xs \<inter> nodes_of calls = {}"
  using assms lifted_sets [of "nxt h" "prv h" full calls xs] lifted_notin [of "nxt h" "prv h" full calls xs]
  by (auto simp: holds_def)

lemma holds_nxt:
  assumes "holds h full calls (as @ x # bs)" "as \<noteq> []"
  obtains n where "h x = Some n" "nnext n = first_of bs" "nprev n = Some (last as)"
proof -
  have "dll (nxt h) (prv h) (as @ x # bs)" "x \<in> dom h" using assms(1) holdsD(1) [OF assms(1)] by (auto simp: holds_def)
  with dll_around(1,2) [OF this(1) assms(2)] nxt_SomeD [OF this(2)] that show ?thesis by metis
qed

lemma holds_head:
  assumes "holds h full calls (x # xs)"
  obtains n where "h x = Some n" "nnext n = first_of xs"
proof -
  have "dll (nxt h) (prv h) (x # xs)" "x \<in> dom h" using assms holdsD(1) [OF assms] by (auto simp: holds_def)
  then have "nxt h x = first_of xs" by (cases xs) (simp_all add: dll_def)
  with nxt_SomeD [OF \<open>x \<in> dom h\<close>] that show ?thesis by metis
qed

lemma holds_lift:
  assumes "holds h full calls (as @ e # bs @ m # cs)" "as \<noteq> []" "h e = Some n" "nmatch n = Some m"
  obtains h' where "lift_entry e h = Some h'" "holds h' full ((e, m) # calls) (as @ bs @ cs)" "same_data h h'"
proof -
  let ?xs = "as @ e # bs @ m # cs"
  have dl: "dll (nxt h) (prv h) ?xs" and sub: "set ?xs \<subseteq> dom h" and dis: "distinct ?xs" "set ?xs \<inter> nodes_of calls = {}"
    using assms(1) holdsD [OF assms(1)] by (simp_all add: holds_def)
  note ar = dll_around [OF dl assms(2)]
  obtain h1 where h1: "unlink e h = Some h1" "unlinked e (nxt h) (prv h) = (nxt h1, prv h1)" "same_data h h1"
    using unlink_ok [OF dl assms(2) sub] .
  note u1 = dll_unlinked [OF dl assms(2) h1(2)]
  from u1(1) have dl1: "dll (nxt h1) (prv h1) ((as @ bs) @ m # cs)" by simp
  have ne1: "as @ bs \<noteq> []" using assms(2) by simp
  have sub1: "set ((as @ bs) @ m # cs) \<subseteq> dom h1" using sub same_data_dom [OF h1(3)] by auto
  note ar1 = dll_around [OF dl1 ne1]
  obtain h2 where h2: "unlink m h1 = Some h2" "unlinked m (nxt h1) (prv h1) = (nxt h2, prv h2)" "same_data h1 h2"
    using unlink_ok [OF dl1 ne1 sub1] .
  note u2 = dll_unlinked [OF dl1 ne1 h2(2)]
  note sd = same_data_trans [OF h1(3) h2(3)]
  obtain n1 where "h1 e = Some n1" "nmatch n1 = Some m" using same_dataD [OF h1(3) assms(3)] assms(4) by metis
  moreover have "nnext n \<noteq> None" "nprev n \<noteq> Some e"
    using ar assms(2,3) dis(1) by (auto simp: nxt_def prv_def first_of_append split: if_splits) (cases bs; auto)
  ultimately have "lift_entry e h = Some h2" using lift_entry_eq [of h e, OF assms(3)] h1(1) h2(1) by simp
  moreover have links: "nxt h2 a = nxt h a" "prv h2 a = prv h a" if "a \<notin> set (as @ bs @ m # cs)" for a
    using that u1(2,3) [of a] u2(2,3) [of a] by auto
  moreover have "lifted (nxt h2) (prv h2) full calls ?xs"
    using assms(1) dis by (subst lifted_cong [of calls _ "nxt h" _ "prv h"]) (auto intro!: links simp: holds_def)
  moreover have "nxt h2 m = first_of cs" "prv h2 m = Some (last (as @ bs))"
    using u2(2,3) ar1(1,2) dis(1) by auto
  moreover have "nxt h2 e = first_of (bs @ [m])" "prv h2 e = Some (last as)"
    using links [of e] ar dis(1) by (auto simp: first_of_append)
  ultimately have "lift_entry e h = Some h2" "lifted (nxt h2) (prv h2) full ((e, m) # calls) (as @ bs @ cs)"
    using assms(2) by auto
  then show ?thesis
    using that [of h2] assms(1) sd u2(1) same_data_dom [OF sd] by (simp add: holds_def del: lifted.simps)
qed

lemma holds_unlift:
  assumes "holds h full ((e, m) # calls) xs" "h e = Some n" "nmatch n = Some m"
  obtains h' as bs cs where "unlift_entry e h = Some h'" "holds h' full calls (as @ e # bs @ m # cs)" "same_data h h'"
    "xs = as @ bs @ cs" "as \<noteq> []"
proof -
  from assms(1) obtain as bs cs where xs: "xs = as @ bs @ cs" "as \<noteq> []" "prv h e = Some (last as)"
    "nxt h e = first_of (bs @ [m])" "prv h m = Some (last (as @ bs))" "nxt h m = first_of cs"
    "lifted (nxt h) (prv h) full calls (as @ e # bs @ m # cs)" and dl: "dll (nxt h) (prv h) ((as @ bs) @ cs)"
    by (auto simp: holds_def)
  have dis: "distinct (as @ e # bs @ m # cs)" "set (as @ e # bs @ m # cs) \<inter> nodes_of calls = {}"
    using lifted_notin [OF xs(7)] assms(1) by (simp_all add: holds_def)
  have sub: "set (as @ e # bs @ m # cs) \<subseteq> dom h" using lifted_sets [OF xs(7)] assms(1) by (auto simp: holds_def)
  have ne: "as @ bs \<noteq> []" "m \<notin> set ((as @ bs) @ cs)" "set ((as @ bs) @ m # cs) \<subseteq> dom h" using xs(2) dis(1) sub by auto
  obtain h1 where h1: "relink m h = Some h1" "relinked m (nxt h) (prv h) = (nxt h1, prv h1)" "same_data h h1"
    using relink_ok [OF ne(1,2) xs(6,5) ne(3)] .
  note r1 = dll_relinked [OF dl ne(1,2) xs(6,5) h1(2)]
  from r1(1) have dl1: "dll (nxt h1) (prv h1) (as @ bs @ m # cs)" by simp
  have e1: "nxt h1 e = first_of (bs @ m # cs)" "prv h1 e = Some (last as)" "e \<notin> set (as @ bs @ m # cs)"
    "set (as @ e # bs @ m # cs) \<subseteq> dom h1"
    using r1(2,3) xs(3,4) dis(1) sub same_data_dom [OF h1(3)] by (auto simp: first_of_append)
  obtain h2 where h2: "relink e h1 = Some h2" "relinked e (nxt h1) (prv h1) = (nxt h2, prv h2)" "same_data h1 h2"
    using relink_ok [OF xs(2) e1(3,1,2,4)] .
  note r2 = dll_relinked [OF dl1 xs(2) e1(3,1,2) h2(2)]
  note sd = same_data_trans [OF h1(3) h2(3)]
  obtain n1 where n1: "h1 e = Some n1" using same_dataD [OF h1(3) assms(2)] by metis
  moreover have "nnext n1 \<noteq> None" "nprev n1 \<noteq> Some e"
    using e1 n1 xs(2) dis(1) by (auto simp: nxt_def prv_def first_of_append split: if_splits) (cases bs; auto)
  moreover have links: "nxt h2 a = nxt h a" "prv h2 a = prv h a" if "a \<notin> set (as @ bs @ m # cs)" for a
    using that r1(2,3) [of a] r2(2,3) [of a] by auto
  ultimately have "unlift_entry e h = Some h2" using unlift_entry_eq [of h e, OF assms(2,3) h1(1)] h2(1) by simp
  moreover have "lifted (nxt h2) (prv h2) full calls (as @ e # bs @ m # cs)"
    using xs(7) dis by (subst lifted_cong [of calls _ "nxt h" _ "prv h"]) (auto intro!: links)
  ultimately show ?thesis
    using that [of h2 as bs cs] assms(1) xs(1,2) sd r2(1) same_data_dom [OF sd] by (simp add: holds_def)
qed

lemma lifted_filter:
  assumes "lifted N P full calls xs" "distinct full"
  shows "xs = filter (\<lambda>a. a \<notin> nodes_of calls) full"
  using assms(1)
proof (induction calls arbitrary: xs)
  case (Cons c calls)
  from Cons.prems obtain e m as bs cs where c: "c = (e, m)" and xs: "xs = as @ bs @ cs"
    and l: "lifted N P full calls (as @ e # bs @ m # cs)" by (rule lifted_ConsE)
  have "filter (\<lambda>a. a \<notin> nodes_of (c # calls)) full = filter (\<lambda>a. a \<noteq> e \<and> a \<noteq> m) (filter (\<lambda>a. a \<notin> nodes_of calls) full)"
    by (simp add: c conj_ac)
  also have "\<dots> = filter (\<lambda>a. a \<noteq> e \<and> a \<noteq> m) (as @ e # bs @ m # cs)" by (simp only: Cons.IH [OF l])
  also have "\<dots> = xs"
  proof -
    have "filter (\<lambda>a. a \<noteq> e \<and> a \<noteq> m) ys = ys" if "set ys \<subseteq> set xs" for ys
      using that lifted_notin [OF l assms(2)] by (auto simp: xs filter_id_conv)
    from this [of as] this [of bs] this [of cs] show ?thesis by (simp add: xs le_supI1 le_supI2)
  qed
  finally show ?case ..
qed simp

section \<open>Building the list\<close>

lemma insertBefore_ok:
  assumes "dll (nxt h) (prv h) xs" "x \<notin> dom h" "set xs \<subseteq> dom h" "xs \<noteq> [] \<Longrightarrow> prv h (hd xs) = None"
    and "nnext nd = None" "nprev nd = None"
  obtains h' where "insertBefore x (first_of xs) (h(x \<mapsto> nd)) = Some h'" "dll (nxt h') (prv h') (x # xs)" "prv h' x = None"
    "node_data h' = (node_data h)(x \<mapsto> (nvalue nd, nmatch nd, nid nd))" "dom h' = insert x (dom h)"
proof (cases xs)
  case Nil
  have "nxt (h(x \<mapsto> nd)) x = None" "prv (h(x \<mapsto> nd)) x = None" using assms(5,6) by (simp_all add: nxt_def prv_def)
  moreover have "node_data (h(x \<mapsto> nd)) = (node_data h)(x \<mapsto> (nvalue nd, nmatch nd, nid nd))"
    by (simp add: fun_eq_iff node_data_def)
  ultimately show ?thesis using that [of "h(x \<mapsto> nd)"] Nil by (simp add: insertBefore_def dll_def)
next
  case (Cons y ys)
  let ?h = "h(x \<mapsto> nd)"
  have nx: "nxt ?h = (nxt h)(x := None)" "prv ?h = (prv h)(x := None)"
    using assms(5,6) by (auto simp: fun_eq_iff nxt_def prv_def)
  have y: "y \<in> dom ?h" "y \<noteq> x" "prv h y = None" using assms(2-4) Cons by auto
  obtain h1 where h1: "set_prev y (Some x) ?h = Some h1" "nxt h1 = nxt ?h" "prv h1 = (prv ?h)(y := Some x)" "same_data ?h h1"
    using set_prev_eq [OF y(1)] .
  have "x \<in> dom h1" using same_data_dom [OF h1(4)] by simp
  then obtain h2 where h2: "set_next x (Some y) h1 = Some h2" "nxt h2 = (nxt h1)(x := Some y)" "prv h2 = prv h1" "same_data h1 h2"
    by (rule set_next_eq)
  note sd = same_data_trans [OF h1(4) h2(4)]
  obtain ny where "?h y = Some ny" "nprev ny = None" using y by (auto simp: prv_def)
  then have ins: "insertBefore x (first_of xs) ?h = Some h2" using h1(1) h2(1) Cons by (simp add: insertBefore_def)
  have "seg (nxt h2) (prv h2) (y # ys) = seg (nxt h) (prv h) (y # ys)"
  proof (rule seg_cong)
    fix a assume "a \<in> set (butlast (y # ys))"
    from in_set_butlastD [OF this] have "a \<noteq> x" using assms(2,3) Cons by auto
    then show "nxt h2 a = nxt h a" by (simp add: h2 h1 nx)
  qed (use assms(1-3) Cons in \<open>auto simp: h2 h1 nx dll_def\<close>)
  moreover have "last (y # ys) \<noteq> x" "x \<notin> set (y # ys)" using assms(2,3) Cons last_in_set [of "y # ys"] by blast+
  ultimately have "dll (nxt h2) (prv h2) (x # xs)"
    using assms(1) Cons y by (auto simp: dll_def h2 h1 nx)
  moreover have "prv h2 x = None" using y(2) by (simp add: h2 h1 nx)
  moreover have "node_data h2 = (node_data h)(x \<mapsto> (nvalue nd, nmatch nd, nid nd))"
    using sd by (auto simp: same_data_def fun_eq_iff node_data_def)
  moreover have "dom h2 = insert x (dom h)" using same_data_dom [OF sd] by simp
  ultimately show ?thesis using that ins by blast
qed

lemma list_length_ok:
  assumes "dll (nxt h) (prv h) xs" "set xs \<subseteq> dom h"
  shows "list_length h (first_of xs) = Some (length xs)"
  using assms
proof (induction xs)
  case (Cons x xs)
  then obtain n where n: "h x = Some n" by auto
  have "nxt h x = first_of xs" using Cons.prems(1) by (cases xs) (simp_all add: dll_def)
  moreover have "dll (nxt h) (prv h) xs" using Cons.prems(1) by (cases xs) (simp_all add: dll_def)
  then have "list_length h (first_of xs) = Some (length xs)" using Cons by simp
  ultimately show ?case using n nxt_SomeD [of x h] by (simp add: list_length.simps [of h "Some x"] domI)
qed (simp add: list_length.simps)

text \<open>The return that \<^verbatim>\<open>match\<close> holds for an operation when the entries from position \<open>k\<close> on have been linked.\<close>

definition return_from :: "'v entry list \<Rightarrow> nat \<Rightarrow> int \<Rightarrow> nat option" where
  "return_from es k i = find (\<lambda>p. kind (es ! p) = returnEntry \<and> eid (es ! p) = i) [k..<length es]"

definition node_of :: "'v entry list \<Rightarrow> nat \<Rightarrow> 'v option \<times> nat option \<times> int" where
  "node_of es p =
     (Some (evalue (es ! p)), if kind (es ! p) = returnEntry then None else return_from es (Suc p) (eid (es ! p)), eid (es ! p))"

lemma return_from_step:
  assumes "k < length es"
  shows "return_from es k = (if kind (es ! k) = returnEntry then (return_from es (Suc k))(eid (es ! k) \<mapsto> k) else return_from es (Suc k))"
proof -
  have "[k..<length es] = k # [Suc k..<length es]" using assms by (simp add: upt_conv_Cons)
  then show ?thesis by (auto simp: return_from_def fun_eq_iff)
qed

lemma link_entries_ok:
  assumes "k \<le> length es" "dll (nxt h) (prv h) [k..<length es]" "dom h = {k..<length es}" "prv h k = None"
    and "\<And>p. k \<le> p \<Longrightarrow> p < length es \<Longrightarrow> node_data h p = Some (node_of es p)"
  shows "\<exists>h'. link_entries es k h (first_of [k..<length es]) (return_from es k) = Some (h', first_of [0..<length es]) \<and>
    dll (nxt h') (prv h') [0..<length es] \<and> dom h' = {0..<length es} \<and> prv h' 0 = None \<and>
    (\<forall>p < length es. node_data h' p = Some (node_of es p))"
  using assms
proof (induction k arbitrary: h)
  case (Suc i)
  let ?nd = "\<lparr>nvalue = Some (evalue (es ! i)), nmatch = (if kind (es ! i) = returnEntry then None else return_from es (Suc i) (eid (es ! i))),
    nid = eid (es ! i), nnext = None, nprev = None\<rparr>"
  have up: "[i..<length es] = i # [Suc i..<length es]" using Suc.prems(1) by (simp add: upt_conv_Cons)
  obtain h' where h': "insertBefore i (first_of [Suc i..<length es]) (h(i \<mapsto> ?nd)) = Some h'"
    "dll (nxt h') (prv h') (i # [Suc i..<length es])" "prv h' i = None"
    "node_data h' = (node_data h)(i \<mapsto> (nvalue ?nd, nmatch ?nd, nid ?nd))" "dom h' = insert i (dom h)"
    by (rule insertBefore_ok [OF Suc.prems(2), of i ?nd]) (use Suc.prems in auto)
  have "node_data h' p = Some (node_of es p)" if "i \<le> p" "p < length es" for p
    using that Suc.prems(5) [of p] by (cases "p = i") (auto simp: h' node_of_def)
  moreover have "dom h' = {i..<length es}" using h'(5) Suc.prems(1,3) by auto
  ultimately have "\<exists>h2. link_entries es i h' (first_of [i..<length es]) (return_from es i) = Some (h2, first_of [0..<length es]) \<and>
      dll (nxt h2) (prv h2) [0..<length es] \<and> dom h2 = {0..<length es} \<and> prv h2 0 = None \<and>
      (\<forall>p < length es. node_data h2 p = Some (node_of es p))"
    using Suc.prems(1) h'(2,3) up by (intro Suc.IH) auto
  moreover have "link_entries es (Suc i) h (first_of [Suc i..<length es]) (return_from es (Suc i)) =
      link_entries es i h' (first_of [i..<length es]) (return_from es i)"
    using h'(1) Suc.prems(1) return_from_step [of i es] up by (cases "kind (es ! i)") simp_all
  ultimately show ?case by simp
qed auto

lemma makeLinkedEntries_ok:
  "\<exists>h. makeLinkedEntries es = Some (h, first_of [0..<length es]) \<and> dll (nxt h) (prv h) [0..<length es] \<and>
     dom h = {0..<length es} \<and> (es \<noteq> [] \<longrightarrow> prv h 0 = None) \<and> (\<forall>p < length es. node_data h p = Some (node_of es p))"
proof -
  have "return_from es (length es) = Map.empty" by (simp add: return_from_def fun_eq_iff)
  with link_entries_ok [of "length es" es Map.empty] show ?thesis
    by (auto simp: makeLinkedEntries_def dll_def prv_def nxt_def)
qed

end
