(* ===== verification/Porcupine_Bits.thy ===== *)
theory Porcupine_Bits
  imports Porcupine
begin

text \<open>
  The bit sets of the checker represent finite sets of numbers: setting and clearing a bit adds and removes a
  number, and bit sets of the same length are equal exactly if their sets are.
\<close>

definition bits :: "bitset \<Rightarrow> nat set" where
  "bits b = {i. i < 64 * length b \<and> bit (b ! (i div 64)) (i mod 64)}"

lemma div_64_less: "i < 64 * n \<Longrightarrow> i div 64 < (n :: nat)"
  by (simp add: div_less_iff_less_mult mult.commute)

lemma bit_update:
  assumes "pos < 64 * length b" "i < 64 * length b"
    and "\<And>n. n < 64 \<Longrightarrow> bit w' n = (if n = pos mod 64 then v else bit (b ! (pos div 64)) n)"
  shows "bit (b[pos div 64 := w'] ! (i div 64)) (i mod 64) = (if i = pos then v else bit (b ! (i div 64)) (i mod 64))"
proof (cases "i div 64 = pos div 64")
  case True
  moreover have "i = pos \<longleftrightarrow> i mod 64 = pos mod 64" using True div_mult_mod_eq [of i 64] div_mult_mod_eq [of pos 64] by metis
  ultimately show ?thesis using assms(3) [of "i mod 64"] div_64_less [OF assms(1)] by simp
next
  case False
  then show ?thesis by auto
qed

lemma bits_update:
  assumes "pos < 64 * length b" "\<And>n. n < 64 \<Longrightarrow> bit w' n = (if n = pos mod 64 then v else bit (b ! (pos div 64)) n)"
  shows "bits (b[pos div 64 := w']) = (if v then insert pos (bits b) else bits b - {pos})"
proof (rule set_eqI)
  fix i
  show "i \<in> bits (b[pos div 64 := w']) \<longleftrightarrow> i \<in> (if v then insert pos (bits b) else bits b - {pos})"
  proof (cases "i < 64 * length b")
    case True
    from bit_update [OF assms(1) this assms(2)] True show ?thesis by (simp add: bits_def del: nth_list_update)
  next
    case False
    with assms(1) show ?thesis by (auto simp: bits_def)
  qed
qed

lemma bitset_set_ok:
  assumes "pos < 64 * length b"
  obtains b' where "bitset_set pos b = Some b'" "length b' = length b" "bits b' = insert pos (bits b)"
proof -
  let ?w = "b ! (pos div 64) OR push_bit (pos mod 64) 1" and ?k = "pos div 64"
  have eq: "bitset_set pos b = Some (b[?k := ?w])"
    using div_64_less [OF assms] by (simp add: bitset_set_def go_index_def go_update_def go_len_def)
  have "bit ?w n = (if n = pos mod 64 then True else bit (b ! ?k) n)" if "n < 64" for n
    using that by (auto simp: bit_simps)
  from bits_update [OF assms this] have "bits (b[?k := ?w]) = insert pos (bits b)" by (simp only: if_True)
  with that eq show ?thesis by simp
qed

lemma bitset_clear_ok:
  assumes "pos < 64 * length b"
  obtains b' where "bitset_clear pos b = Some b'" "length b' = length b" "bits b' = bits b - {pos}"
proof -
  let ?w = "b ! (pos div 64) AND NOT (push_bit (pos mod 64) 1)" and ?k = "pos div 64"
  have eq: "bitset_clear pos b = Some (b[?k := ?w])"
    using div_64_less [OF assms] by (simp add: bitset_clear_def go_index_def go_update_def go_len_def)
  have "bit ?w n = (if n = pos mod 64 then False else bit (b ! ?k) n)" if "n < 64" for n
    using that by (auto simp: bit_simps)
  from bits_update [OF assms this] have "bits (b[?k := ?w]) = bits b - {pos}" by (simp only: if_False)
  with that eq show ?thesis by simp
qed

lemma newBitset_ok: "bits (newBitset n) = {}" "n \<le> 64 * length (newBitset n)"
proof -
  show "bits (newBitset n) = {}" by (auto simp: bits_def newBitset_def Let_def div_64_less)
  show "n \<le> 64 * length (newBitset n)"
    using div_mult_mod_eq [of n 64] mod_less_divisor [of 64 n] by (auto simp: newBitset_def Let_def)
qed

lemma bitset_equals_iff [simp]: "bitset_equals b c \<longleftrightarrow> b = c"
  by (induction b c rule: bitset_equals.induct) auto

lemma bits_inject:
  assumes "length b = length c" "bits b = bits c"
  shows "b = c"
proof (rule nth_equalityI)
  fix k assume k: "k < length b"
  show "b ! k = c ! k"
  proof (rule bit_word_eqI)
    fix n assume n: "n < LENGTH(64)"
    let ?i = "64 * k + n"
    have "?i < 64 * length b" "?i div 64 = k" "?i mod 64 = n" using k n by auto
    moreover have "?i \<in> bits b \<longleftrightarrow> ?i \<in> bits c" using assms(2) by simp
    ultimately show "bit (b ! k) n = bit (c ! k) n" using assms(1) by (simp add: bits_def)
  qed
qed (rule assms(1))

end
