(* ===== verification/Porcupine_Lin.thy ===== *)
theory Porcupine_Lin
  imports Porcupine
begin

text \<open>
  Linearizability of a history of calls and returns, what the checker decides, and the steps by which a search
  for a linearization can go: at any point some operation that no remaining one precedes comes next.
\<close>

section \<open>Linearizations\<close>

definition pos :: "'v entry list \<Rightarrow> entryKind \<Rightarrow> int \<Rightarrow> nat" where
  "pos es k i = the (find (\<lambda>p. kind (es ! p) = k \<and> eid (es ! p) = i) [0..<length es])"

definition ids :: "'v entry list \<Rightarrow> int set" where
  "ids es = {0..<int (length es div 2)}"

text \<open>One operation precedes another if it returns before the other is called.\<close>

definition precedes :: "'v entry list \<Rightarrow> int \<Rightarrow> int \<Rightarrow> bool" where
  "precedes es i j \<longleftrightarrow> pos es returnEntry i < pos es callEntry j"

definition step_of :: "('s, 'v) Model \<Rightarrow> 'v entry list \<Rightarrow> 's \<Rightarrow> int \<Rightarrow> bool \<times> 's" where
  "step_of model es s i = the (Step model s (evalue (es ! pos es callEntry i)) (evalue (es ! pos es returnEntry i)))"

text \<open>The model does not panic on the values of the history.\<close>

definition accepted_by :: "('s, 'v) Model \<Rightarrow> 'v entry list \<Rightarrow> bool" where
  "accepted_by model es \<longleftrightarrow>
     (\<forall>s. \<forall>i \<in> ids es. Step model s (evalue (es ! pos es callEntry i)) (evalue (es ! pos es returnEntry i)) \<noteq> None)"

fun legal :: "('s, 'v) Model \<Rightarrow> 'v entry list \<Rightarrow> 's \<Rightarrow> int list \<Rightarrow> bool" where
  "legal model es s [] \<longleftrightarrow> True"
| "legal model es s (i # is) \<longleftrightarrow> fst (step_of model es s i) \<and> legal model es (snd (step_of model es s i)) is"

definition in_order :: "'v entry list \<Rightarrow> int list \<Rightarrow> bool" where
  "in_order es = sorted_wrt (\<lambda>i j. \<not> precedes es j i)"

text \<open>An order of all operations that the model accepts and that respects precedence.\<close>

definition linearization :: "('s, 'v) Model \<Rightarrow> 'v entry list \<Rightarrow> int list \<Rightarrow> bool" where
  "linearization model es order \<longleftrightarrow>
     distinct order \<and> set order = ids es \<and> in_order es order \<and> legal model es (Init model) order"

text \<open>The start of a linearization: nothing that is left out precedes something in it.\<close>

definition lin_prefix :: "('s, 'v) Model \<Rightarrow> 'v entry list \<Rightarrow> int list \<Rightarrow> bool" where
  "lin_prefix model es order \<longleftrightarrow>
     distinct order \<and> set order \<subseteq> ids es \<and> in_order es order \<and> legal model es (Init model) order \<and>
     (\<forall>i \<in> set order. \<forall>j \<in> ids es - set order. \<not> precedes es j i)"

text \<open>Histories as \<^verbatim>\<open>makeEntries\<close> makes them: operations are numbered from 0, each has one call and one later return.\<close>

definition wf_history :: "'v entry list \<Rightarrow> bool" where
  "wf_history es \<longleftrightarrow>
     distinct (map (\<lambda>e. (kind e, eid e)) es) \<and>
     (\<forall>p < length es. eid (es ! p) \<in> ids es) \<and>
     (\<forall>i \<in> ids es. \<exists>p q. p < q \<and> q < length es \<and> kind (es ! p) = callEntry \<and> eid (es ! p) = i \<and>
        kind (es ! q) = returnEntry \<and> eid (es ! q) = i)"

lemma accepted_step:
  assumes "accepted_by model es" "i \<in> ids es"
  shows "Step model s (evalue (es ! pos es callEntry i)) (evalue (es ! pos es returnEntry i)) = Some (step_of model es s i)"
  using assms by (fastforce simp: accepted_by_def step_of_def)

lemma wf_pos:
  assumes "wf_history es" "p < length es"
  shows "pos es (kind (es ! p)) (eid (es ! p)) = p"
proof -
  let ?P = "\<lambda>q. kind (es ! q) = kind (es ! p) \<and> eid (es ! q) = eid (es ! p)"
  have uniq: "q = p" if "q < length es" "?P q" for q
    using that assms nth_eq_iff_index_eq [of "map (\<lambda>e. (kind e, eid e)) es" q p] by (simp add: wf_history_def)
  have "find ?P [0..<length es] \<noteq> None" using assms(2) by (auto simp: find_None_iff)
  then obtain q where q: "find ?P [0..<length es] = Some q" by auto
  then have "q < length es" "?P q" by (auto simp: find_Some_iff)
  with uniq q show ?thesis by (simp add: pos_def)
qed

lemma wf_ids:
  assumes "wf_history es" "i \<in> ids es"
  shows "pos es callEntry i < pos es returnEntry i" "pos es returnEntry i < length es"
    "kind (es ! pos es k i) = k" "eid (es ! pos es k i) = i" "pos es k i < length es"
proof -
  from assms obtain p q where "p < q" "q < length es" "kind (es ! p) = callEntry" "eid (es ! p) = i"
    "kind (es ! q) = returnEntry" "eid (es ! q) = i" by (auto simp: wf_history_def)
  moreover from this have "pos es callEntry i = p" "pos es returnEntry i = q"
    using wf_pos [OF assms(1), of p] wf_pos [OF assms(1), of q] by auto
  ultimately show "pos es callEntry i < pos es returnEntry i" "pos es returnEntry i < length es"
    "kind (es ! pos es k i) = k" "eid (es ! pos es k i) = i" "pos es k i < length es" by (cases k; simp)+
qed

lemma wf_eid: "wf_history es \<Longrightarrow> p < length es \<Longrightarrow> eid (es ! p) \<in> ids es"
  by (simp add: wf_history_def)

lemma finite_ids [simp]: "finite (ids es)"
  by (simp add: ids_def)

section \<open>Searching\<close>

text \<open>The operations in \<open>S\<close> have been linearized, with state \<open>s\<close>; the rest can be.\<close>

definition completes :: "('s, 'v) Model \<Rightarrow> 'v entry list \<Rightarrow> int set \<Rightarrow> 's \<Rightarrow> bool" where
  "completes model es S s \<longleftrightarrow>
     (\<exists>order. distinct order \<and> set order = ids es - S \<and> in_order es order \<and> legal model es s order)"

definition minimal :: "'v entry list \<Rightarrow> int set \<Rightarrow> int \<Rightarrow> bool" where
  "minimal es S i \<longleftrightarrow> i \<in> ids es - S \<and> (\<forall>j \<in> ids es - S. \<not> precedes es j i)"

lemma completes_start: "completes model es {} (Init model) \<longleftrightarrow> (\<exists>order. linearization model es order)"
  by (simp add: completes_def linearization_def)

lemma not_precedes_self: "wf_history es \<Longrightarrow> i \<in> ids es \<Longrightarrow> \<not> precedes es i i"
  using wf_ids(1) [of es i] by (simp add: precedes_def)

lemma completes_iff_step:
  assumes "ids es - S \<noteq> {}" "wf_history es"
  shows "completes model es S s \<longleftrightarrow>
    (\<exists>i. minimal es S i \<and> fst (step_of model es s i) \<and> completes model es (insert i S) (snd (step_of model es s i)))"
    (is "?A \<longleftrightarrow> ?B")
proof
  assume ?A
  then obtain order where order: "distinct order" "set order = ids es - S" "in_order es order" "legal model es s order"
    by (auto simp: completes_def)
  with assms(1) obtain i rest where o: "order = i # rest" by (cases order) auto
  have "set rest = ids es - insert i S" using order(1,2) by (auto simp: o)
  then have "completes model es (insert i S) (snd (step_of model es s i))"
    using order by (auto simp: completes_def o in_order_def)
  moreover have "minimal es S i"
  proof -
    have "\<not> precedes es j i" if "j \<in> set order" for j
      using that order(2,3) not_precedes_self [OF assms(2), of i] by (auto simp: o in_order_def)
    then show ?thesis using order(2) by (auto simp: o minimal_def)
  qed
  ultimately show ?B using order(4) by (auto simp: o)
next
  assume ?B
  then obtain i rest where i: "minimal es S i" "fst (step_of model es s i)"
    and rest: "distinct rest" "set rest = ids es - insert i S" "in_order es rest" "legal model es (snd (step_of model es s i)) rest"
    by (auto simp: completes_def)
  then have "distinct (i # rest)" "set (i # rest) = ids es - S" "in_order es (i # rest)" "legal model es s (i # rest)"
    by (auto simp: minimal_def in_order_def)
  then show ?A unfolding completes_def by blast
qed

section \<open>What is left of a history\<close>

definition remaining :: "'v entry list \<Rightarrow> int set \<Rightarrow> nat list" where
  "remaining es S = filter (\<lambda>p. eid (es ! p) \<notin> S) [0..<length es]"

lemma remaining_less: "p \<in> set (remaining es S) \<Longrightarrow> p < length es"
  by (simp add: remaining_def)

lemma set_remaining: "set (remaining es S) = {p. p < length es \<and> eid (es ! p) \<notin> S}"
  by (auto simp: remaining_def)

lemma sorted_remaining: "sorted_wrt (<) (remaining es S)"
  unfolding remaining_def by (intro sorted_wrt_filter) simp

lemma remaining_Nil:
  assumes "wf_history es"
  shows "remaining es S = [] \<longleftrightarrow> ids es \<subseteq> S"
proof -
  have "remaining es S = [] \<longleftrightarrow> (\<forall>p < length es. eid (es ! p) \<in> S)" by (auto simp: remaining_def filter_empty_conv)
  also have "\<dots> \<longleftrightarrow> ids es \<subseteq> S"
  proof
    assume *: "\<forall>p < length es. eid (es ! p) \<in> S"
    show "ids es \<subseteq> S"
    proof
      fix i assume "i \<in> ids es"
      from wf_ids(4,5) [OF assms this, of callEntry] * show "i \<in> S" by metis
    qed
  qed (use wf_eid [OF assms] in blast)
  finally show ?thesis .
qed

lemma remaining_before:
  assumes "remaining es S = us @ a # vs" "p < length es" "eid (es ! p) \<notin> S"
  shows "p \<in> set us \<longleftrightarrow> p < a"
proof -
  have "p \<in> set (us @ a # vs)" using assms set_remaining [of es S] by auto
  moreover have "\<forall>x\<in>set us. x < a" "\<forall>x\<in>set vs. a < x" using sorted_remaining [of es S] assms(1) by (auto simp: sorted_wrt_append)
  ultimately show ?thesis by fastforce
qed

text \<open>The calls before the first return that is left are the operations that can come next.\<close>

lemma minimal_call:
  assumes "wf_history es" "remaining es S = us @ a # vs" "\<forall>u\<in>set us. kind (es ! u) = callEntry" "kind (es ! a) = callEntry"
  shows "minimal es S (eid (es ! a))"
proof -
  have a: "a < length es" "eid (es ! a) \<notin> S" using set_remaining [of es S] assms(2) by auto
  have "pos es callEntry (eid (es ! a)) = a" using wf_pos [OF assms(1) a(1)] assms(4) by simp
  moreover have "\<not> pos es returnEntry j < a" if "j \<in> ids es - S" for j
    using remaining_before [OF assms(2), of "pos es returnEntry j"] wf_ids(3-5) [OF assms(1), of j returnEntry] that assms(3) by auto
  ultimately show ?thesis using a wf_eid [OF assms(1) a(1)] by (simp add: minimal_def precedes_def)
qed

lemma minimal_before_return:
  assumes "wf_history es" "remaining es S = us @ a # vs" "kind (es ! a) = returnEntry" "minimal es S i"
  shows "pos es callEntry i \<in> set us"
proof -
  have a: "a < length es" "eid (es ! a) \<notin> S" using set_remaining [of es S] assms(2) by auto
  have "pos es returnEntry (eid (es ! a)) = a" using wf_pos [OF assms(1) a(1)] assms(3) by simp
  with assms(4) a wf_eid [OF assms(1) a(1)] have "\<not> a < pos es callEntry i"
    unfolding minimal_def precedes_def by (metis DiffI)
  moreover have i: "i \<in> ids es" "i \<notin> S" using assms(4) by (auto simp: minimal_def)
  moreover have "a \<noteq> pos es callEntry i" using wf_ids(3) [OF assms(1) i(1), of callEntry] assms(3) by auto
  ultimately show ?thesis
    using remaining_before [OF assms(2), of "pos es callEntry i"] wf_ids(4,5) [OF assms(1) i(1), of callEntry] by auto
qed

lemma remaining_insert:
  assumes "wf_history es" "i \<in> ids es" "i \<notin> S" "remaining es S = us @ pos es callEntry i # vs"
  obtains ws zs where "vs = ws @ pos es returnEntry i # zs" "remaining es (insert i S) = us @ ws @ zs"
proof -
  note w = wf_ids [OF assms(1,2)]
  have "pos es returnEntry i \<in> set (remaining es S)" using w(2,4) assms(3) by (simp add: set_remaining)
  moreover have "pos es returnEntry i \<notin> set us"
    using remaining_before [OF assms(4), of "pos es returnEntry i"] w(1,2,4) assms(3) by auto
  ultimately have "pos es returnEntry i \<in> set vs" using w(1) assms(4) by auto
  then obtain ws zs where vs: "vs = ws @ pos es returnEntry i # zs" by (auto simp: in_set_conv_decomp)
  have d: "distinct (us @ pos es callEntry i # ws @ pos es returnEntry i # zs)"
    using strict_sorted_imp_sorted strict_sorted_iff sorted_remaining [of es S] assms(4) by (metis vs)
  have mem: "p \<in> set (us @ ws @ zs) \<Longrightarrow> eid (es ! p) \<noteq> i" for p
  proof
    assume p: "p \<in> set (us @ ws @ zs)" "eid (es ! p) = i"
    then have "p < length es" using set_remaining [of es S] assms(4) by (auto simp: vs)
    from wf_pos [OF assms(1) this] p(2) have "p = pos es callEntry i \<or> p = pos es returnEntry i"
      by (cases "kind (es ! p)") auto
    with p(1) d show False by auto
  qed
  have "remaining es (insert i S) = filter (\<lambda>p. eid (es ! p) \<noteq> i) (remaining es S)"
    by (simp add: remaining_def conj_commute)
  also have "\<dots> = us @ ws @ zs"
    using mem w(4) by (auto simp: assms(4) vs filter_id_conv)
  finally show ?thesis using that vs by blast
qed

end
