(* ===== verification/Porcupine_Search.thy ===== *)
theory Porcupine_Search
  imports Porcupine_List Porcupine_Bits Porcupine_Lin
begin

text \<open>
  The search of \<^verbatim>\<open>checkSingle\<close> finds a linearization exactly if there is one, and it ends: each configuration
  (the operations linearized and the state) enters the cache once, and one that has left the stack
  cannot be completed.
\<close>

section \<open>Configurations\<close>

fun exec_ids :: "('s, 'v) Model \<Rightarrow> 'v entry list \<Rightarrow> 's \<Rightarrow> int list \<Rightarrow> 's option" where
  "exec_ids model es s [] = Some s"
| "exec_ids model es s (i # is) =
     (if fst (step_of model es s i) then exec_ids model es (snd (step_of model es s i)) is else None)"

lemma exec_ids_snoc:
  "exec_ids model es s is = Some t \<Longrightarrow> step_of model es t i = (True, u) \<Longrightarrow> exec_ids model es s (is @ [i]) = Some u"
  by (induction "is" arbitrary: s) (auto split: if_splits)

lemma exec_ids_legal: "legal model es s is \<longleftrightarrow> exec_ids model es s is \<noteq> None"
  by (induction "is" arbitrary: s) auto

definition reached :: "('s, 'v) Model \<Rightarrow> 'v entry list \<Rightarrow> (int set \<times> 's) set" where
  "reached model es =
     {(set order, the (exec_ids model es (Init model) order)) |order. distinct order \<and> set order \<subseteq> ids es}"

lemma finite_reached: "finite (reached model es)"
proof -
  have "{order. distinct order \<and> set order \<subseteq> ids es} \<subseteq> {order. set order \<subseteq> ids es \<and> length order \<le> card (ids es)}"
    by (auto intro!: card_mono simp flip: distinct_card)
  then have "finite {order. distinct order \<and> set order \<subseteq> ids es}"
    by (rule finite_subset) (rule finite_lists_length_le [OF finite_ids])
  moreover have "reached model es =
      (\<lambda>order. (set order, the (exec_ids model es (Init model) order))) ` {order. distinct order \<and> set order \<subseteq> ids es}"
    by (auto simp: reached_def)
  ultimately show ?thesis by simp
qed

text \<open>The operations at \<open>us\<close> have been tried next, in vain.\<close>

definition tried :: "('s, 'v) Model \<Rightarrow> 'v entry list \<Rightarrow> int set \<Rightarrow> 's \<Rightarrow> nat list \<Rightarrow> bool" where
  "tried model es S s us \<longleftrightarrow>
     (\<forall>u \<in> set us. kind (es ! u) = callEntry \<and>
        (fst (step_of model es s (eid (es ! u))) \<longrightarrow>
         \<not> completes model es (insert (eid (es ! u)) S) (snd (step_of model es s (eid (es ! u))))))"

text \<open>A stack of calls (the last one first) that leads to a configuration.\<close>

fun path :: "('s, 'v) Model \<Rightarrow> 'v entry list \<Rightarrow> (nat \<times> 's) list \<Rightarrow> int set \<Rightarrow> 's \<Rightarrow> bool" where
  "path model es [] S s \<longleftrightarrow> S = {} \<and> s = Init model"
| "path model es ((a, r) # calls) S s \<longleftrightarrow>
     (let i = eid (es ! a); R = S - {i}
      in i \<in> S \<and> kind (es ! a) = callEntry \<and> step_of model es r i = (True, s) \<and>
         (\<exists>us vs. remaining es R = us @ a # vs \<and> tried model es R r us) \<and> path model es calls R r)"

fun on_path :: "'v entry list \<Rightarrow> (nat \<times> 's) list \<Rightarrow> int set \<Rightarrow> 's \<Rightarrow> (int set \<times> 's) set" where
  "on_path es [] S s = {}"
| "on_path es ((a, r) # calls) S s = insert (S, s) (on_path es calls (S - {eid (es ! a)}) r)"

lemma on_path_subset: "(T, t) \<in> on_path es calls S s \<Longrightarrow> T \<subseteq> S"
  by (induction es calls S s rule: on_path.induct) auto

definition ids_of :: "'v entry list \<Rightarrow> (nat \<times> 's) list \<Rightarrow> int list" where
  "ids_of es = map (\<lambda>(a, r). eid (es ! a))"

lemma ids_of_simps [simp]: "ids_of es [] = []" "ids_of es ((a, r) # calls) = eid (es ! a) # ids_of es calls"
  "ids_of es (xs @ ys) = ids_of es xs @ ids_of es ys" "ids_of es (rev xs) = rev (ids_of es xs)"
  by (simp_all add: ids_of_def rev_map)

lemma tried_calls: "tried model es S s us \<Longrightarrow> \<forall>u \<in> set us. kind (es ! u) = callEntry"
  by (simp add: tried_def)

lemma path_order:
  assumes "wf_history es" "path model es calls S s"
  shows "distinct (ids_of es calls)" "set (ids_of es calls) = S" "S \<subseteq> ids es"
    "exec_ids model es (Init model) (rev (ids_of es calls)) = Some s"
    "in_order es (rev (ids_of es calls))" "\<forall>i \<in> S. \<forall>j \<in> ids es - S. \<not> precedes es j i"
proof -
  have "distinct (ids_of es calls) \<and> set (ids_of es calls) = S \<and> S \<subseteq> ids es \<and>
    exec_ids model es (Init model) (rev (ids_of es calls)) = Some s \<and>
    in_order es (rev (ids_of es calls)) \<and> (\<forall>i \<in> S. \<forall>j \<in> ids es - S. \<not> precedes es j i)"
    using assms(2)
  proof (induction calls arbitrary: S s)
    case (Cons c calls)
    obtain a r where c: "c = (a, r)" by fastforce
    let ?i = "eid (es ! a)" and ?R = "S - {eid (es ! a)}"
    from Cons.prems c have p: "?i \<in> S" "step_of model es r ?i = (True, s)" "path model es calls ?R r" "kind (es ! a) = callEntry"
      and u: "\<exists>us vs. remaining es ?R = us @ a # vs \<and> tried model es ?R r us" by (auto simp: Let_def)
    from u obtain us vs where us: "remaining es ?R = us @ a # vs" "tried model es ?R r us" by blast
    have m: "minimal es ?R ?i" by (rule minimal_call [OF assms(1) us(1) tried_calls [OF us(2)] p(4)])
    note IH = Cons.IH [OF p(3)]
    have "?i \<in> ids es" using m by (simp add: minimal_def)
    moreover have "in_order es (rev (ids_of es calls) @ [?i])"
      using IH calculation by (auto simp: in_order_def sorted_wrt_append)
    moreover have "exec_ids model es (Init model) (rev (ids_of es calls) @ [?i]) = Some s"
      using exec_ids_snoc [OF _ p(2)] IH by simp
    moreover have "\<forall>i \<in> S. \<forall>j \<in> ids es - S. \<not> precedes es j i" using IH m by (auto simp: minimal_def)
    ultimately show ?case using IH p(1) c by auto
  qed (simp add: in_order_def)
  then show "distinct (ids_of es calls)" "set (ids_of es calls) = S" "S \<subseteq> ids es"
    "exec_ids model es (Init model) (rev (ids_of es calls)) = Some s"
    "in_order es (rev (ids_of es calls))" "\<forall>i \<in> S. \<forall>j \<in> ids es - S. \<not> precedes es j i" by simp_all
qed

lemma path_reached:
  assumes "wf_history es" "path model es calls S s"
  shows "(S, s) \<in> reached model es"
  using path_order [OF assms] unfolding reached_def
  by (auto intro!: exI [of _ "rev (ids_of es calls)"])

lemma path_prefix:
  assumes "wf_history es" "path model es calls S s"
  shows "lin_prefix model es (rev (ids_of es calls))"
  using path_order [OF assms] by (simp add: lin_prefix_def exec_ids_legal)

lemma path_linearization:
  assumes "wf_history es" "path model es calls S s" "remaining es S = []"
  shows "linearization model es (rev (ids_of es calls))"
proof -
  have "S = ids es" using path_order(3) [OF assms(1,2)] remaining_Nil [OF assms(1)] assms(3) by blast
  then show ?thesis using path_order [OF assms(1,2)] by (simp add: linearization_def exec_ids_legal)
qed

text \<open>When a return comes first and everything before it was tried, the configuration is lost.\<close>

lemma tried_dead:
  assumes "wf_history es" "remaining es S = us @ a # vs" "tried model es S s us" "kind (es ! a) = returnEntry"
  shows "\<not> completes model es S s"
proof
  assume c: "completes model es S s"
  have "ids es - S \<noteq> {}" using remaining_Nil [OF assms(1), of S] assms(2) by auto
  from c [unfolded completes_iff_step [OF this assms(1)]] obtain i where
    i: "minimal es S i" "fst (step_of model es s i)" "completes model es (insert i S) (snd (step_of model es s i))" by blast
  have "pos es callEntry i \<in> set us" by (rule minimal_before_return [OF assms(1,2,4) i(1)])
  moreover have "eid (es ! pos es callEntry i) = i" using wf_ids(4) [OF assms(1)] i(1) by (simp add: minimal_def)
  ultimately show False using assms(3) i by (force simp: tried_def)
qed

section \<open>The cache\<close>

definition config :: "bitset \<times> 's \<Rightarrow> int set \<times> 's" where
  "config c = (int ` bits (fst c), snd c)"

definition cached :: "'s cache \<Rightarrow> (int set \<times> 's) set" where
  "cached cache = config ` (\<Union>k. set (cache k))"

definition hashed :: "nat \<Rightarrow> 's cache \<Rightarrow> bool" where
  "hashed len cache \<longleftrightarrow> (\<forall>k. \<forall>c \<in> set (cache k). k = bitset_hash (fst c) \<and> length (fst c) = len)"

lemma cacheContains_iff:
  assumes "hashed len cache" "length b = len" "\<And>s t. Equal model s t \<longleftrightarrow> s = t"
  shows "cacheContains model cache (b, s) \<longleftrightarrow> config (b, s) \<in> cached cache"
proof
  assume "cacheContains model cache (b, s)"
  then have "(b, s) \<in> set (cache (bitset_hash b))" using assms(3) by (auto simp: cacheContains_def list_ex_iff)
  then show "config (b, s) \<in> cached cache" by (auto simp: cached_def)
next
  assume "config (b, s) \<in> cached cache"
  then obtain c k where c: "c \<in> set (cache k)" "config c = config (b, s)" by (auto simp: cached_def)
  then have "bits (fst c) = bits b" "snd c = s" by (auto simp: config_def inj_image_eq_iff)
  moreover have "length (fst c) = length b" "k = bitset_hash (fst c)" using c(1) assms(1,2) by (auto simp: hashed_def)
  ultimately have "fst c = b" by (metis bits_inject)
  with c(1) \<open>snd c = s\<close> \<open>k = _\<close> show "cacheContains model cache (b, s)"
    using assms(3) by (force simp: cacheContains_def list_ex_iff)
qed

lemma cached_insert:
  assumes "hash = bitset_hash (fst c)" "hashed len cache" "length (fst c) = len"
  shows "cached (cache(hash := cache hash @ [c])) = insert (config c) (cached cache)"
    "hashed len (cache(hash := cache hash @ [c]))"
proof -
  show "hashed len (cache(hash := cache hash @ [c]))" using assms by (auto simp: hashed_def)
  show "cached (cache(hash := cache hash @ [c])) = insert (config c) (cached cache)"
  proof -
    have "(\<Union>k. set ((cache(hash := cache hash @ [c])) k)) = insert c (\<Union>k. set (cache k))" by (auto split: if_splits)
    then show ?thesis by (simp only: cached_def image_insert)
  qed
qed

section \<open>The invariant of the loop\<close>

definition pairs :: "'v entry list \<Rightarrow> (nat \<times> 's) list \<Rightarrow> (nat \<times> nat) list" where
  "pairs es = map (\<lambda>(a, r). (a, pos es returnEntry (eid (es ! a))))"

lemma pairs_simps [simp]: "pairs es [] = []" "pairs es ((a, r) # calls) = (a, pos es returnEntry (eid (es ! a))) # pairs es calls"
  by (simp_all add: pairs_def)

text \<open>The partial linearizations found: each position holds one that contains its operation.\<close>

definition longest_ok :: "('s, 'v) Model \<Rightarrow> 'v entry list \<Rightarrow> int list option list \<Rightarrow> bool" where
  "longest_ok model es longest \<longleftrightarrow>
     length longest = length es div 2 \<and>
     (\<forall>i < length longest. \<forall>seq. longest ! i = Some seq \<longrightarrow> int i \<in> set seq \<and> lin_prefix model es seq)"

text \<open>\<open>us\<close> are the entries from the head of the list up to \<^verbatim>\<open>entry\<close>, \<open>vs\<close> those from it on.\<close>

definition search_inv :: "('s, 'v) Model \<Rightarrow> 'v entry list \<Rightarrow> int set \<Rightarrow> nat list \<Rightarrow> nat list \<Rightarrow> ('s, 'v) search \<Rightarrow> bool" where
  "search_inv model es S us vs s \<longleftrightarrow>
     holds (sheap s) (length es # [0..<length es]) (pairs es (rev (scalls s))) (length es # remaining es S) \<and>
     (\<forall>p < length es. node_data (sheap s) p = Some (node_of es p)) \<and>
     int ` bits (slinearized s) = S \<and> length es div 2 \<le> 64 * length (slinearized s) \<and>
     path model es (rev (scalls s)) S (sstate s) \<and>
     remaining es S = us @ vs \<and> tried model es S (sstate s) us \<and> sentry s = first_of vs \<and>
     hashed (length (slinearized s)) (scache s) \<and> cached (scache s) \<subseteq> reached model es \<and>
     (\<forall>(T, t) \<in> cached (scache s). (T, t) \<in> on_path es (rev (scalls s)) S (sstate s) \<or> \<not> completes model es T t) \<and>
     longest_ok model es (slongest s)"

lemma search_invD:
  assumes "search_inv model es S us vs s"
  shows "holds (sheap s) (length es # [0..<length es]) (pairs es (rev (scalls s))) (length es # remaining es S)"
    "\<And>p. p < length es \<Longrightarrow> node_data (sheap s) p = Some (node_of es p)"
    "int ` bits (slinearized s) = S" "length es div 2 \<le> 64 * length (slinearized s)"
    "path model es (rev (scalls s)) S (sstate s)"
    "remaining es S = us @ vs" "tried model es S (sstate s) us" "sentry s = first_of vs"
    "hashed (length (slinearized s)) (scache s)" "cached (scache s) \<subseteq> reached model es"
    "\<And>T t. (T, t) \<in> cached (scache s) \<Longrightarrow> (T, t) \<in> on_path es (rev (scalls s)) S (sstate s) \<or> \<not> completes model es T t"
    "longest_ok model es (slongest s)"
  using assms by (auto simp: search_inv_def)

lemma return_from_call:
  assumes "wf_history es" "p < length es" "kind (es ! p) = callEntry"
  shows "return_from es (Suc p) (eid (es ! p)) = Some (pos es returnEntry (eid (es ! p)))"
proof -
  let ?i = "eid (es ! p)"
  have i: "?i \<in> ids es" by (rule wf_eid [OF assms(1,2)])
  note w = wf_ids [OF assms(1) i]
  have "p = pos es callEntry ?i" using wf_pos [OF assms(1,2)] assms(3) by simp
  then have "pos es returnEntry ?i \<in> set [Suc p..<length es]" using w(1,2) by simp
  then have "return_from es (Suc p) ?i \<noteq> None"
    using w(3,4) [of returnEntry] unfolding return_from_def find_None_iff by blast
  then obtain q where q: "return_from es (Suc p) ?i = Some q" by auto
  then have "q < length es" "kind (es ! q) = returnEntry" "eid (es ! q) = ?i"
    unfolding return_from_def by (auto simp: find_Some_iff)
  with wf_pos [OF assms(1), of q] q show ?thesis by simp
qed

text \<open>The node of an entry.\<close>

lemma search_node:
  assumes "wf_history es" "search_inv model es S us vs s" "p < length es"
  obtains n where "sheap s p = Some n" "nvalue n = Some (evalue (es ! p))" "nid n = eid (es ! p)"
    "nmatch n = (if kind (es ! p) = returnEntry then None else Some (pos es returnEntry (eid (es ! p))))"
proof -
  obtain n where n: "sheap s p = Some n" "(nvalue n, nmatch n, nid n) = node_of es p"
    using search_invD(2) [OF assms(2,3)] by (auto simp: node_data_def)
  moreover have "kind (es ! p) \<noteq> returnEntry \<Longrightarrow> kind (es ! p) = callEntry" by (cases "kind (es ! p)") simp_all
  ultimately show ?thesis using that [of n] return_from_call [OF assms(1,3)] by (auto simp: node_of_def split: if_splits)
qed

text \<open>The entry the loop is at exists: the last entry left is a return.\<close>

lemma entry_exists:
  assumes "wf_history es" "remaining es S = us @ vs" "tried model es S s us" "remaining es S \<noteq> []"
  shows "vs \<noteq> []"
proof
  assume vs: "vs = []"
  let ?u = "last us" and ?q = "pos es returnEntry (eid (es ! last us))"
  have us: "remaining es S = butlast us @ [?u]" "us \<noteq> []" using assms(2,4) vs by (cases us rule: rev_cases; simp)+
  then have "?u \<in> set (remaining es S)" by simp
  then have u: "?u < length es" "eid (es ! ?u) \<notin> S" by (auto simp: set_remaining)
  have k: "kind (es ! ?u) = callEntry" using tried_calls [OF assms(3)] us(2) by (metis last_in_set)
  note w = wf_ids [OF assms(1) wf_eid [OF assms(1) u(1)]]
  have "?u < ?q" using w(1) wf_pos [OF assms(1) u(1)] k by simp
  moreover have "?q \<in> set (remaining es S)" using w(4,5) u(2) by (simp add: set_remaining)
  moreover have "x \<le> ?u" if "x \<in> set (remaining es S)" for x
    using that sorted_remaining [of es S] unfolding us(1) by (auto simp: sorted_wrt_append)
  ultimately show False by fastforce
qed

section \<open>A call\<close>

text \<open>The entry at hand: its node, its return, and where it is in the list.\<close>

lemma search_entry:
  assumes "wf_history es" "search_inv model es S us (a # vs) s"
  shows "a < length es" "eid (es ! a) \<in> ids es" "eid (es ! a) \<notin> S" "nat (eid (es ! a)) < 64 * length (slinearized s)"
proof -
  have "a \<in> set (remaining es S)" using search_invD(6) [OF assms(2)] by simp
  then show a: "a < length es" "eid (es ! a) \<notin> S" by (auto simp: set_remaining)
  show "eid (es ! a) \<in> ids es" by (rule wf_eid [OF assms(1) a(1)])
  then show "nat (eid (es ! a)) < 64 * length (slinearized s)"
    using search_invD(4) [OF assms(2)] by (simp only: ids_def atLeastLessThan_iff nat_less_iff) linarith
qed

lemma search_next:
  assumes "search_inv model es S us (a # vs) s" "sheap s a = Some n"
  shows "nnext n = first_of vs"
proof -
  have "holds (sheap s) (length es # [0..<length es]) (pairs es (rev (scalls s))) ((length es # us) @ a # vs)"
    using search_invD(1,6) [OF assms(1)] by simp
  from holds_nxt [OF this] assms(2) show ?thesis by auto
qed

lemma call_skip:
  assumes "search_inv model es S us (a # vs) s" "kind (es ! a) = callEntry"
    and "fst (step_of model es (sstate s) (eid (es ! a))) \<Longrightarrow>
      \<not> completes model es (insert (eid (es ! a)) S) (snd (step_of model es (sstate s) (eid (es ! a))))"
  shows "search_inv model es S (us @ [a]) vs (s\<lparr>sentry := first_of vs\<rparr>)"
  using assms by (auto simp: search_inv_def tried_def)

lemma call_push:
  assumes "wf_history es" "search_inv model es S us (a # vs) s" "kind (es ! a) = callEntry" "i = eid (es ! a)"
    and "step_of model es (sstate s) i = (True, t)" "bits b = insert (nat i) (bits (slinearized s))"
    and "length b = length (slinearized s)" "config (b, t) \<notin> cached (scache s)" "hash = bitset_hash b"
  obtains h hd where "lift_entry a (sheap s) = Some h" "h (length es) = Some hd"
    "search_inv model es (insert i S) [] (remaining es (insert i S))
       (s\<lparr>scache := (scache s)(hash := scache s hash @ [(b, t)]), scalls := scalls s @ [(a, sstate s)], sstate := t,
          slinearized := b, sheap := h, sentry := nnext hd\<rparr>)"
proof -
  note inv = search_invD [OF assms(2)]
  note en = search_entry [OF assms(1,2), folded assms(4)]
  have a: "a = pos es callEntry i" using wf_pos [OF assms(1) en(1)] assms(3,4) by simp
  let ?m = "pos es returnEntry i"
  obtain ws zs where vs: "vs = ws @ ?m # zs" "remaining es (insert i S) = us @ ws @ zs"
    using remaining_insert [OF assms(1) en(2,3)] inv(6) a by metis
  obtain n where n: "sheap s a = Some n" "nmatch n = Some ?m"
    using search_node [OF assms(1,2) en(1)] assms(3,4) by (metis entryKind.distinct(1))
  have "holds (sheap s) (length es # [0..<length es]) (pairs es (rev (scalls s))) ((length es # us) @ a # ws @ ?m # zs)"
    using inv(1,6) by (simp add: vs(1))
  from holds_lift [OF this _ n] obtain h where h: "lift_entry a (sheap s) = Some h" "same_data (sheap s) h"
    "holds h (length es # [0..<length es]) ((a, ?m) # pairs es (rev (scalls s))) ((length es # us) @ ws @ zs)" by auto
  from h(3) have holds: "holds h (length es # [0..<length es]) ((a, ?m) # pairs es (rev (scalls s))) (length es # remaining es (insert i S))"
    by (simp add: vs(2))
  from holds_head [OF holds] obtain hd where hd: "h (length es) = Some hd" "nnext hd = first_of (remaining es (insert i S))" .
  have S: "int ` bits b = insert i S" "insert i S - {i} = S" using inv(3) assms(6) en(2,3) by (auto simp: ids_def)
  then have cfg: "config (b, t) = (insert i S, t)" by (simp add: config_def)
  have path: "path model es ((a, sstate s) # rev (scalls s)) (insert i S) t"
    using inv(5,6,7) assms(3,4,5) S(2) by (auto simp: Let_def)
  note ins = cached_insert [of hash "(b, t)", OF _ inv(9)]
  have "search_inv model es (insert i S) [] (remaining es (insert i S))
       (s\<lparr>scache := (scache s)(hash := scache s hash @ [(b, t)]), scalls := scalls s @ [(a, sstate s)], sstate := t,
          slinearized := b, sheap := h, sentry := nnext hd\<rparr>)"
    unfolding search_inv_def
    using inv(2,4,10,11,12) holds hd(2) h(2) S path path_reached [OF assms(1) path] ins assms(4,7,9) cfg
    by (auto simp: same_data_def tried_def)
  with that h(1) hd(1) show ?thesis by blast
qed

lemma call_step:
  assumes "wf_history es" "\<And>s t. Equal model s t \<longleftrightarrow> s = t" "search_inv model es S us (a # vs) s"
    and "kind (es ! a) = callEntry" "sheap s a = Some n" "nmatch n = Some m" "accepted_by model es"
  obtains s' S' us' vs' where "at_call model (length es) a n m s = Some s'" "search_inv model es S' us' vs' s'"
    "cached (scache s) \<subset> cached (scache s') \<or> cached (scache s') = cached (scache s) \<and> length (scalls s') = length (scalls s) \<and> vs' = vs"
proof -
  note en = search_entry [OF assms(1,3)]
  let ?i = "eid (es ! a)" and ?skip = "s\<lparr>sentry := first_of vs\<rparr>"
  obtain n' where n': "sheap s a = Some n'" "nvalue n' = Some (evalue (es ! a))" "nid n' = ?i"
    "nmatch n' = Some (pos es returnEntry ?i)"
    using search_node [OF assms(1,3) en(1)] assms(4) by (metis entryKind.distinct(1))
  with assms(5,6) have n: "nvalue n = Some (evalue (es ! a))" "nid n = ?i" "m = pos es returnEntry ?i" by auto
  have a: "pos es callEntry ?i = a" using wf_pos [OF assms(1) en(1)] assms(4) by simp
  obtain mn where mn: "sheap s m = Some mn" "nvalue mn = Some (evalue (es ! m))"
    using search_node [OF assms(1,3) wf_ids(5) [OF assms(1) en(2), of returnEntry]] n(3) by metis
  obtain ok t where st: "step_of model es (sstate s) ?i = (ok, t)" by fastforce
  then have st': "Step model (sstate s) (evalue (es ! a)) (evalue (es ! m)) = Some (ok, t)"
    using accepted_step [OF assms(7) en(2)] by (simp add: a n(3))
  obtain b where b: "bitset_set (nat ?i) (slinearized s) = Some b" "length b = length (slinearized s)"
    "bits b = insert (nat ?i) (bits (slinearized s))" using bitset_set_ok [OF en(4)] .
  have contains: "cacheContains model (scache s) (b, t) \<longleftrightarrow> config (b, t) \<in> cached (scache s)"
    by (rule cacheContains_iff [OF search_invD(9) [OF assms(3)] b(2) assms(2)])
  have cfg: "config (b, t) = (insert ?i S, t)"
    using search_invD(3) [OF assms(3)] b(3) en(2) by (auto simp: config_def ids_def)
  show ?thesis
  proof (cases "ok \<and> config (b, t) \<notin> cached (scache s)")
    case True
    then have st1: "step_of model es (sstate s) ?i = (True, t)" using st by simp
    obtain h hd where h: "lift_entry a (sheap s) = Some h" "h (length es) = Some hd"
      and inv: "search_inv model es (insert ?i S) [] (remaining es (insert ?i S))
       (s\<lparr>scache := (scache s)(bitset_hash b := scache s (bitset_hash b) @ [(b, t)]), scalls := scalls s @ [(a, sstate s)], sstate := t,
          slinearized := b, sheap := h, sentry := nnext hd\<rparr>)"
      using call_push [OF assms(1,3,4) refl st1 b(3,2) conjunct2 [OF True] refl] .
    let ?s = "s\<lparr>scache := (scache s)(bitset_hash b := scache s (bitset_hash b) @ [(b, t)]), scalls := scalls s @ [(a, sstate s)], sstate := t,
          slinearized := b, sheap := h, sentry := nnext hd\<rparr>"
    have "at_call model (length es) a n m s = Some ?s"
      using mn n st' b(1) contains True h by (simp add: at_call_def Let_def)
    moreover have "cached (scache s) \<subset> cached (scache ?s)"
      using cached_insert(1) [of "bitset_hash b" "(b, t)", OF _ search_invD(9) [OF assms(3)]] b(2) True by auto
    ultimately show ?thesis using that inv by blast
  next
    case False
    have "search_inv model es S (us @ [a]) vs ?skip"
    proof (rule call_skip [OF assms(3,4)])
      assume "fst (step_of model es (sstate s) ?i)"
      with False st cfg have "(insert ?i S, t) \<in> cached (scache s)" by auto
      with search_invD(11) [OF assms(3)] on_path_subset en(3) st
      show "\<not> completes model es (insert ?i S) (snd (step_of model es (sstate s) ?i))" by fastforce
    qed
    moreover have "at_call model (length es) a n m s = Some ?skip"
      using mn n st' b(1) contains False search_next [OF assms(3,5)] by (auto simp: at_call_def Let_def)
    ultimately show ?thesis using that [of ?skip S "us @ [a]" vs] by simp
  qed
qed

section \<open>A return\<close>

lemma path_calls:
  assumes "wf_history es" "path model es calls S s" "(a, r) \<in> set calls"
  shows "a < length es \<and> kind (es ! a) = callEntry"
  using assms(2,3)
proof (induction calls arbitrary: S s)
  case (Cons c calls)
  obtain a' r' where c: "c = (a', r')" by fastforce
  let ?R = "S - {eid (es ! a')}"
  from Cons.prems(1) c obtain us vs where "remaining es ?R = us @ a' # vs" "kind (es ! a') = callEntry" "path model es calls ?R r'"
    by (auto simp: Let_def)
  moreover from this(1) have "a' \<in> set (remaining es ?R)" by simp
  from remaining_less [OF this] have "a' < length es" .
  ultimately show ?case using Cons.IH Cons.prems(2) c by auto
qed simp

lemma nodes_of_pairs:
  assumes "wf_history es" "path model es calls S s"
  shows "nodes_of (pairs es calls) = {p. p < length es \<and> eid (es ! p) \<in> S}"
proof (intro set_eqI iffI)
  fix p assume "p \<in> nodes_of (pairs es calls)"
  then obtain a r where a: "(a, r) \<in> set calls" "p = a \<or> p = pos es returnEntry (eid (es ! a))"
    by (auto simp: nodes_of_def pairs_def)
  have "a < length es" using path_calls [OF assms a(1)] by simp
  moreover from this have "eid (es ! a) \<in> ids es" by (rule wf_eid [OF assms(1)])
  moreover have "eid (es ! a) \<in> S" using path_order(2) [OF assms] a(1) by (force simp: ids_of_def)
  ultimately show "p \<in> {p. p < length es \<and> eid (es ! p) \<in> S}" using a(2) wf_ids(4,5) [OF assms(1), of _ returnEntry] by auto
next
  fix p assume "p \<in> {p. p < length es \<and> eid (es ! p) \<in> S}"
  then have p: "p < length es" "eid (es ! p) \<in> S" by simp_all
  then obtain a r where a: "(a, r) \<in> set calls" "eid (es ! a) = eid (es ! p)"
    using path_order(2) [OF assms] by (auto simp: ids_of_def)
  have "pos es callEntry (eid (es ! a)) = a" using path_calls [OF assms a(1)] wf_pos [OF assms(1)] by force
  with a wf_pos [OF assms(1) p(1)] show "p \<in> nodes_of (pairs es calls)"
    by (cases "kind (es ! p)") (force simp: nodes_of_def pairs_def)+
qed

lemma holds_remaining:
  assumes "wf_history es" "path model es calls S s" "holds h (length es # [0..<length es]) (pairs es calls) xs"
  shows "xs = length es # remaining es S"
proof -
  have "xs = filter (\<lambda>a. a \<notin> nodes_of (pairs es calls)) (length es # [0..<length es])"
    by (rule lifted_filter [of "nxt h" "prv h"]) (use assms(3) in \<open>simp_all add: holds_def\<close>)
  also have "\<dots> = length es # remaining es S"
    unfolding nodes_of_pairs [OF assms(1,2)] by (auto simp: remaining_def intro!: filter_cong)
  finally show ?thesis .
qed

lemma call_ids_ok:
  assumes "wf_history es" "search_inv model es S us vs s"
  shows "call_ids (sheap s) (scalls s) = Some (ids_of es (scalls s))"
proof -
  have "call_ids (sheap s) calls = Some (ids_of es calls)" if "set calls \<subseteq> set (scalls s)" for calls
    using that
  proof (induction calls)
    case (Cons c calls)
    obtain a r where c: "c = (a, r)" by fastforce
    have "a < length es" using path_calls [OF assms(1) search_invD(5) [OF assms(2)], of a r] Cons.prems c by auto
    then obtain n where "sheap s a = Some n" "nid n = eid (es ! a)" by (rule search_node [OF assms])
    with Cons c show ?case by simp
  qed simp
  then show ?thesis by simp
qed

lemma update_longest_ok:
  assumes "longest_ok model es longest" "lin_prefix model es seq" "set is \<subseteq> set seq"
  obtains l where "update_longest seq is longest = Some l" "longest_ok model es l"
  using assms(1,3)
proof (induction "is" arbitrary: longest thesis)
  case (Cons i "is")
  have i: "0 \<le> i" "i < int (length longest)" "i \<in> set seq"
    using Cons.prems(2,3) assms(2) by (auto simp: longest_ok_def lin_prefix_def ids_def)
  then obtain x where x: "go_index longest i = Some x" by (auto simp: go_index_def go_len_def)
  have upd: "go_update longest i v = Some (longest[nat i := v])" for v
    using i by (auto simp: go_update_def go_len_def)
  show ?case
  proof (cases "x = None \<or> go_len seq > go_len (the x)")
    case True
    have "longest_ok model es (longest[nat i := Some seq])"
      using Cons.prems(2) assms(2) i by (auto simp: longest_ok_def nth_list_update)
    with Cons.IH Cons.prems(3) obtain l where "update_longest seq is (longest[nat i := Some seq]) = Some l" "longest_ok model es l"
      by (metis list.set_intros(2) subset_code(1))
    with True x upd Cons.prems(1) show ?thesis by (cases x) auto
  next
    case False
    obtain l where "update_longest seq is longest = Some l" "longest_ok model es l"
      using Cons.IH [of longest] Cons.prems(2,3) by auto
    with False x Cons.prems(1) show ?thesis by (cases x) auto
  qed
qed simp

lemma return_step:
  assumes "wf_history es" "search_inv model es S us (a # vs) s" "kind (es ! a) = returnEntry" "scalls s \<noteq> []"
  obtains s' S' us' vs' where "at_return partial s = Some s'" "search_inv model es S' us' vs' s'"
    "cached (scache s') = cached (scache s)" "length (scalls s') < length (scalls s)"
proof -
  note inv = search_invD [OF assms(2)]
  obtain c r where l: "last (scalls s) = (c, r)" by fastforce
  have rev: "rev (scalls s) = (c, r) # rev (butlast (scalls s))" using assms(4) l by (metis append_butlast_last_id rev_eq_Cons_iff rev_rev_ident)
  let ?i = "eid (es ! c)" and ?cs = "rev (butlast (scalls s))" and ?R = "S - {eid (es ! c)}" and ?m = "pos es returnEntry (eid (es ! c))"
  from inv(5) obtain ws zs where p: "?i \<in> S" "kind (es ! c) = callEntry" "step_of model es r ?i = (True, sstate s)"
    "remaining es ?R = ws @ c # zs" "tried model es ?R r ws" "path model es ?cs ?R r" by (auto simp: rev Let_def)
  have c: "c < length es" using path_calls [OF assms(1) inv(5)] rev by auto
  have i: "?i \<in> ids es" by (rule wf_eid [OF assms(1) c])
  obtain n where n: "sheap s c = Some n" "nid n = ?i" "nmatch n = Some ?m"
    using search_node [OF assms(1,2) c] p(2) by (metis entryKind.distinct(1))
  have dead: "\<not> completes model es S (sstate s)"
    by (rule tried_dead [OF assms(1) inv(6,7) assms(3)])
  have "nat ?i < 64 * length (slinearized s)"
    using inv(4) i by (simp only: ids_def atLeastLessThan_iff nat_less_iff) linarith
  then obtain b where b: "bitset_clear (nat ?i) (slinearized s) = Some b" "length b = length (slinearized s)"
    "bits b = bits (slinearized s) - {nat ?i}" by (rule bitset_clear_ok)
  have S: "int ` bits b = ?R"
    unfolding b(3) inv(3) [symmetric] using i by (simp add: image_set_diff ids_def)
  have "holds (sheap s) (length es # [0..<length es]) ((c, ?m) # pairs es ?cs) (length es # remaining es S)"
    using inv(1) by (simp add: rev)
  from holds_unlift [OF this n(1,3)] obtain h xs where h: "unlift_entry c (sheap s) = Some h" "same_data (sheap s) h"
    "holds h (length es # [0..<length es]) (pairs es ?cs) xs" by metis
  have xs: "xs = (length es # ws) @ c # zs" using holds_remaining [OF assms(1) p(6) h(3)] p(4) by simp
  obtain n' where n': "h c = Some n'" "nnext n' = first_of zs" using holds_nxt [OF h(3) [unfolded xs]] by auto
  obtain l' where l': "update_longest (ids_of es (scalls s)) (ids_of es (scalls s)) (slongest s) = Some l'" "longest_ok model es l'"
    using update_longest_ok [OF inv(12) path_prefix [OF assms(1) inv(5)] order.refl] by auto
  define longest where "longest = (if partial then l' else slongest s)"
  have longest: "(if partial then do { ids \<leftarrow> call_ids (sheap s) (scalls s); update_longest ids ids (slongest s) }
    else Some (slongest s)) = Some longest" "longest_ok model es longest"
    using l' call_ids_ok [OF assms(1,2)] inv(12) by (simp_all add: longest_def)
  let ?s = "s\<lparr>sentry := nnext n', sstate := r, slinearized := b, scalls := butlast (scalls s), sheap := h, slongest := longest\<rparr>"
  have "at_return partial s = Some ?s" using longest(1) l n b(1) h(1) n'(1) by (simp add: at_return_def)
  moreover have "tried model es ?R r (ws @ [c])"
    using p(1,2,3,5) dead by (auto simp: tried_def insert_absorb)
  then have "search_inv model es ?R (ws @ [c]) zs ?s"
    unfolding search_inv_def
    using inv(2,4,9,10,11,12) h(2,3) xs p(4,6) S b(2) longest(2) n'(2) dead
    by (auto simp: same_data_def rev split: prod.splits)
  moreover have "length (scalls ?s) < length (scalls s)" using assms(4) by simp
  ultimately show ?thesis using that [of ?s] by simp
qed

section \<open>The loop\<close>

definition verdict :: "('s, 'v) Model \<Rightarrow> 'v entry list \<Rightarrow> (nat \<Rightarrow> bool) \<Rightarrow> bool \<times> int list option list \<Rightarrow> bool" where
  "verdict model es kill res \<longleftrightarrow>
     longest_ok model es (snd res) \<and>
     (if fst res
      then \<exists>order. linearization model es order \<and> snd res = replicate (length es div 2) (Some order)
      else (\<exists>k. kill k) \<or> \<not> (\<exists>order. linearization model es order))"

lemma longest_ok_all:
  assumes "linearization model es order"
  shows "longest_ok model es (replicate (length es div 2) (Some order))"
  using assms by (auto simp: longest_ok_def linearization_def lin_prefix_def ids_def)

definition rank :: "('s, 'v) Model \<Rightarrow> 'v entry list \<Rightarrow> ('s, 'v) search \<Rightarrow> nat list \<Rightarrow> nat \<times> nat \<times> nat" where
  "rank model es s vs = (card (reached model es - cached (scache s)), length (scalls s), length vs)"

definition below :: "((nat \<times> nat \<times> nat) \<times> (nat \<times> nat \<times> nat)) set" where
  "below = less_than <*lex*> less_than <*lex*> less_than"

lemma wf_below: "wf below"
  by (simp add: below_def wf_lex_prod)

lemma rank_cached:
  assumes "cached (scache s) \<subset> cached (scache s')" "cached (scache s') \<subseteq> reached model es"
  shows "(rank model es s' vs', rank model es s vs) \<in> below"
proof -
  have "card (reached model es - cached (scache s')) < card (reached model es - cached (scache s))"
    using assms by (intro psubset_card_mono finite_Diff finite_reached) auto
  then show ?thesis by (simp add: rank_def below_def)
qed

text \<open>An iteration that does not end the loop leads to a state of lower rank.\<close>

lemma loop_step:
  assumes "wf_history es" "\<And>s t. Equal model s t \<longleftrightarrow> s = t" "search_inv model es S us (a # vs) s"
    and "kind (es ! a) = returnEntry \<Longrightarrow> scalls s \<noteq> []" "accepted_by model es"
  obtains s' S' us' vs' where "search_inv model es S' us' vs' s'" "(rank model es s' vs', rank model es s (a # vs)) \<in> below"
    "check_loop model partial kill (length es) k s =
       (if kill k then Some (False, slongest s) else check_loop model partial kill (length es) (Suc k) s')"
proof -
  note inv = search_invD [OF assms(3)]
  obtain hd where hd: "sheap s (length es) = Some hd" "nnext hd = first_of (us @ a # vs)"
    using holds_head [OF inv(1)] inv(6) by metis
  have more: "nnext hd \<noteq> None" by (cases us) (simp_all add: hd(2))
  obtain n where n: "sheap s a = Some n"
    "nmatch n = (if kind (es ! a) = returnEntry then None else Some (pos es returnEntry (eid (es ! a))))"
    using search_node [OF assms(1,3) search_entry(1) [OF assms(1,3)]] by metis
  note unfold = check_loop.simps [of model partial kill "length es" k s]
  show ?thesis
  proof (cases "kind (es ! a)")
    case callEntry
    then have m: "nmatch n = Some (pos es returnEntry (eid (es ! a)))" using n(2) by simp
    obtain s' S' us' vs' where s': "at_call model (length es) a n (pos es returnEntry (eid (es ! a))) s = Some s'"
      "search_inv model es S' us' vs' s'" and dec: "cached (scache s) \<subset> cached (scache s') \<or>
        cached (scache s') = cached (scache s) \<and> length (scalls s') = length (scalls s) \<and> vs' = vs"
      using call_step [OF assms(1-3) callEntry n(1) m assms(5)] by metis
    from dec have "(rank model es s' vs', rank model es s (a # vs)) \<in> below"
    proof
      assume "cached (scache s) \<subset> cached (scache s')"
      then show ?thesis using search_invD(10) [OF s'(2)] by (rule rank_cached)
    qed (simp add: rank_def below_def)
    then show ?thesis using that s' more hd(1) inv(8) n(1) m by (simp add: unfold)
  next
    case returnEntry
    then have m: "nmatch n = None" using n(2) by simp
    obtain s' S' us' vs' where s': "at_return partial s = Some s'" "search_inv model es S' us' vs' s'"
      and dec: "cached (scache s') = cached (scache s)" "length (scalls s') < length (scalls s)"
      using return_step [OF assms(1,3) returnEntry assms(4) [OF returnEntry]] .
    from dec have "(rank model es s' vs', rank model es s (a # vs)) \<in> below" by (simp add: rank_def below_def)
    then show ?thesis using that s' more hd(1) inv(8) n(1) m assms(4) [OF returnEntry] by (simp add: unfold)
  qed
qed

lemma check_loop_correct:
  assumes "wf_history es" "\<And>s t. Equal model s t \<longleftrightarrow> s = t" "search_inv model es S us vs s" "accepted_by model es"
  shows "returns (check_loop model partial kill (length es) k s) (verdict model es kill)"
  using assms(3)
proof (induction "rank model es s vs" arbitrary: S us vs s k rule: wf_induct_rule [OF wf_below])
  case (1 vs s S us k)
  note inv = search_invD [OF 1(2)]
  obtain hd where hd: "sheap s (length es) = Some hd" "nnext hd = first_of (remaining es S)" using holds_head [OF inv(1)] .
  note unfold = check_loop.simps [of model partial kill "length es" k s]
  show ?case
  proof (cases "remaining es S = []")
    case True
    have "linearization model es (ids_of es (scalls s))"
      using path_linearization [OF assms(1) inv(5) True] by simp
    moreover from longest_ok_all [OF this] have "longest_ok model es (map (\<lambda>_. Some (ids_of es (scalls s))) (slongest s))"
      using inv(12) by (simp add: longest_ok_def map_replicate_const)
    ultimately show ?thesis
      using True hd call_ids_ok [OF assms(1) 1(2)] inv(12)
      by (auto simp: unfold verdict_def longest_ok_def map_replicate_const)
  next
    case False
    then obtain a vs' where vs: "vs = a # vs'" using entry_exists [OF assms(1) inv(6,7)] by (cases vs) auto
    have more: "nnext hd \<noteq> None" using False by (cases "remaining es S") (simp_all add: hd(2))
    note inv' = 1(2) [unfolded vs]
    show ?thesis
    proof (cases "kind (es ! a) = returnEntry \<and> scalls s = []")
      case True
      have "\<not> (\<exists>order. linearization model es order)"
        using tried_dead [OF assms(1) inv(6) [unfolded vs] inv(7)] inv(5) True by (simp add: completes_start)
      moreover obtain n where "sheap s a = Some n" "nmatch n = None"
        using search_node [OF assms(1) inv' search_entry(1) [OF assms(1) inv']] True by metis
      ultimately show ?thesis using hd(1) more inv(8,12) vs True by (auto simp: unfold verdict_def)
    next
      case False
      obtain s' S' us' vs2 where s': "search_inv model es S' us' vs2 s'" "(rank model es s' vs2, rank model es s (a # vs')) \<in> below"
        "check_loop model partial kill (length es) k s =
           (if kill k then Some (False, slongest s) else check_loop model partial kill (length es) (Suc k) s')"
        by (rule loop_step [OF assms(1,2) inv' _ assms(4)]) (use False in auto)
      from 1(1) [OF s'(2) [folded vs] s'(1)] show ?thesis using inv(12) by (auto simp: s'(3) verdict_def)
    qed
  qed
qed

lemma checkSingle_verdict:
  assumes "wf_history es" "\<And>s t. Equal model s t \<longleftrightarrow> s = t" "accepted_by model es"
  shows "returns (checkSingle model es partial kill) (verdict model es kill)"
proof -
  let ?N = "length es"
  obtain h where h: "makeLinkedEntries es = Some (h, first_of [0..<?N])" "dll (nxt h) (prv h) [0..<?N]" "dom h = {0..<?N}"
    "es \<noteq> [] \<Longrightarrow> prv h 0 = None" "\<forall>p < ?N. node_data h p = Some (node_of es p)"
    using makeLinkedEntries_ok [of es] by blast
  let ?nd = "\<lparr>nvalue = None, nmatch = None, nid = -1, nnext = None, nprev = None\<rparr>"
  obtain h' where h': "insertBefore ?N (first_of [0..<?N]) (h(?N \<mapsto> ?nd)) = Some h'" "dll (nxt h') (prv h') (?N # [0..<?N])"
    "node_data h' = (node_data h)(?N \<mapsto> (nvalue ?nd, nmatch ?nd, nid ?nd))" "dom h' = insert ?N (dom h)"
    by (rule insertBefore_ok [OF h(2), of ?N ?nd]) (use h(3,4) in auto)
  have len: "list_length h (first_of [0..<?N]) = Some ?N"
    using list_length_ok [OF h(2)] h(3) by simp
  let ?s = "\<lparr>sheap = h', sentry = first_of [0..<?N], sstate = Init model, slinearized = newBitset (?N div 2), scache = \<lambda>_. [], scalls = [],
             slongest = replicate (?N div 2) None\<rparr>"
  have rem: "remaining es {} = [0..<?N]" by (simp add: remaining_def)
  have "search_inv model es {} [] [0..<?N] ?s"
    unfolding search_inv_def using h' h(3,5) newBitset_ok [of "?N div 2"]
    by (auto simp: rem holds_def tried_def hashed_def cached_def longest_ok_def)
  from check_loop_correct [OF assms(1,2) this assms(3), of partial kill 0] show ?thesis
    using h(1) len h'(1) by (simp add: checkSingle_def)
qed

end
