(* ===== verification/Porcupine_Check.thy ===== *)
theory Porcupine_Check
  imports Porcupine_Search "HOL-Library.Product_Lexorder"
begin

text \<open>
  \<^verbatim>\<open>checkParallel\<close> and the functions the tests call, \<^verbatim>\<open>porcupine/porcupine.go\<close>, with the models of \<^verbatim>\<open>src/models/kv.go\<close>. The
  verdict is right however the goroutines of the parts are scheduled and whenever the timeout comes.
\<close>

section \<open>Checking the parts\<close>

datatype CheckResult = Unknown | Ok | Illegal

record 'v linearizationInfo =
  info_history :: "'v entry list list"
  partialLinearizations :: "int list list list"

text \<open>The loop that receives: \<open>Some i\<close> is the result of part \<open>i\<close>, \<open>None\<close> the timeout. It gives \<^verbatim>\<open>ok\<close> and \<^verbatim>\<open>timedOut\<close>, and
  nothing if it waits forever.\<close>

fun collect :: "bool \<Rightarrow> nat \<Rightarrow> (nat \<Rightarrow> bool) \<Rightarrow> nat \<Rightarrow> bool \<Rightarrow> nat option list \<Rightarrow> (bool \<times> bool) option" where
  "collect computeInfo n result c ok [] = None"
| "collect computeInfo n result c ok (None # arrivals) = Some (ok, True)"
| "collect computeInfo n result c ok (Some i # arrivals) =
     (let c = c + 1; ok = ok \<and> result i in
      if \<not> ok \<and> \<not> computeInfo then Some (ok, False)
      else if c \<ge> n then Some (ok, False)
      else collect computeInfo n result c ok arrivals)"

text \<open>The set of the slices in \<^verbatim>\<open>longest\<close>, ranged over in the order \<open>range_order\<close>. Different slices have different
  contents: a stack of calls that was left does not come back.\<close>

definition partials :: "(int list list \<Rightarrow> int list list) \<Rightarrow> int list option list \<Rightarrow> int list list" where
  "partials range_order longest = range_order (remdups (List.map_filter (\<lambda>v. v) longest))"

text \<open>\<open>kills i\<close> says in which iterations goroutine \<open>i\<close> reads the kill flag as set.\<close>

definition checkParallel ::
  "(nat \<Rightarrow> nat \<Rightarrow> bool) \<Rightarrow> nat option list \<Rightarrow> (int list list \<Rightarrow> int list list) \<Rightarrow> ('s, 'v) Model \<Rightarrow> 'v entry list list \<Rightarrow> bool \<Rightarrow>
   (CheckResult \<times> 'v linearizationInfo) option" where
  "checkParallel kills arrivals range_order model history computeInfo =
     do { results \<leftarrow> those (map (\<lambda>i. checkSingle model (history ! i) computeInfo (kills i)) [0..<length history]);
          (ok, timedOut) \<leftarrow> collect computeInfo (length history) (\<lambda>i. fst (results ! i)) 0 True arrivals;
          let info = (if computeInfo
                      then \<lparr>info_history = history, partialLinearizations = map (\<lambda>r. partials range_order (snd r)) results\<rparr>
                      else \<lparr>info_history = [], partialLinearizations = []\<rparr>);
          Some (if \<not> ok then Illegal else if timedOut then Unknown else Ok, info) }"

definition checkOperations where
  "checkOperations Sort kills arrivals range_order model history verbose =
     do { let model = fillDefault model;
          partitions \<leftarrow> Partition model history;
          checkParallel kills arrivals range_order model (map (makeEntries Sort) partitions) verbose }"

definition checkEvents where
  "checkEvents kills arrivals range_order model history verbose =
     do { let model = fillDefault model;
          partitions \<leftarrow> PartitionEvent model history;
          checkParallel kills arrivals range_order model (map (convertEntries \<circ> renumber) partitions) verbose }"

definition CheckOperations where
  "CheckOperations Sort kills arrivals model history =
     do { (res, _) \<leftarrow> checkOperations Sort kills arrivals (\<lambda>xs. xs) model history False; Some (res = Ok) }"

definition CheckOperationsTimeout where
  "CheckOperationsTimeout Sort kills arrivals model history =
     do { (res, _) \<leftarrow> checkOperations Sort kills arrivals (\<lambda>xs. xs) model history False; Some res }"

definition CheckOperationsVerbose where
  "CheckOperationsVerbose Sort kills arrivals range_order model history =
     checkOperations Sort kills arrivals range_order model history True"

definition CheckEvents where
  "CheckEvents kills arrivals model history =
     do { (res, _) \<leftarrow> checkEvents kills arrivals (\<lambda>xs. xs) model history False; Some (res = Ok) }"

definition CheckEventsTimeout where
  "CheckEventsTimeout kills arrivals model history =
     do { (res, _) \<leftarrow> checkEvents kills arrivals (\<lambda>xs. xs) model history False; Some res }"

definition CheckEventsVerbose where
  "CheckEventsVerbose kills arrivals range_order model history =
     checkEvents kills arrivals range_order model history True"

section \<open>The key/value model\<close>

record KvInput =
  kvOp :: nat
  kvKey :: string
  kvValue :: string

record KvOutput =
  kvOut :: string

text \<open>What \<^verbatim>\<open>interface{}\<close> can hold here.\<close>

datatype kv_any = AnyInput KvInput | AnyOutput KvOutput | AnyOther

fun kv_key :: "kv_any Operation \<Rightarrow> string option" where
  "kv_key v = (case op_Input v of AnyInput i \<Rightarrow> Some (kvKey i) | _ \<Rightarrow> None)"

definition KvModel_Partition :: "kv_any Operation list \<Rightarrow> kv_any Operation list list option" where
  "KvModel_Partition history =
     do { keyed \<leftarrow> those (map (\<lambda>v. map_option (\<lambda>k. (k, v)) (kv_key v)) history);
          let m = fold (\<lambda>(key, v). AList.map_default key [v] (\<lambda>vs. vs @ [v])) keyed [];
          let keys = sort (map fst m);
          Some (map (\<lambda>k. the (map_of m k)) keys) }"

fun KvModel_Step :: "string \<Rightarrow> kv_any \<Rightarrow> kv_any \<Rightarrow> (bool \<times> string) option" where
  "KvModel_Step st (AnyInput inp) (AnyOutput out) =
     (if kvOp inp = 0 then Some (kvOut out = st, st)
      else if kvOp inp = 1 then Some (True, kvValue inp)
      else if kvOp inp = 2 then Some (True, st @ kvValue inp)
      else Some (kvOut out = st, st @ kvValue inp))"
| "KvModel_Step st _ _ = None"

definition KvModel :: "(string, kv_any) ModelArg" where
  "KvModel = \<lparr>arg_Partition = Some KvModel_Partition, arg_PartitionEvent = None, arg_Init = '''', arg_Step = KvModel_Step, arg_Equal = None\<rparr>"

section \<open>Histories of operations\<close>

fun legal_ops :: "('s, 'v) Model \<Rightarrow> 's \<Rightarrow> 'v Operation list \<Rightarrow> bool" where
  "legal_ops model s [] \<longleftrightarrow> True"
| "legal_ops model s (v # ops) \<longleftrightarrow>
     (case Step model s (op_Input v) (op_Output v) of None \<Rightarrow> False | Some (ok, t) \<Rightarrow> ok \<and> legal_ops model t ops)"

text \<open>A history is linearizable if its operations can be put in an order that the model accepts and in which
  no operation comes after one that was called only after it had returned.\<close>

definition linearizable :: "('s, 'v) Model \<Rightarrow> 'v Operation list \<Rightarrow> bool" where
  "linearizable model ops \<longleftrightarrow>
     (\<exists>order. mset order = mset [0..<length ops] \<and>
        sorted_wrt (\<lambda>i j. \<not> op_Return (ops ! j) < op_Call (ops ! i)) order \<and>
        legal_ops model (Init model) (map (\<lambda>i. ops ! i) order))"

text \<open>\<^verbatim>\<open>sort.Sort\<close> gives a permutation in which no entry is less than an earlier one.\<close>

definition sorts :: "('v entry list \<Rightarrow> 'v entry list) \<Rightarrow> bool" where
  "sorts Sort \<longleftrightarrow> (\<forall>es. mset (Sort es) = mset es \<and> sorted_wrt (\<lambda>a b. \<not> byTime_Less b a) (Sort es))"

section \<open>From operations to entries\<close>

abbreviation call_entry :: "int \<Rightarrow> 'v Operation \<Rightarrow> 'v entry" where
  "call_entry i v \<equiv> \<lparr>kind = callEntry, evalue = op_Input v, eid = i, etime = op_Call v, eclientId = op_ClientId v\<rparr>"

abbreviation return_entry :: "int \<Rightarrow> 'v Operation \<Rightarrow> 'v entry" where
  "return_entry i v \<equiv> \<lparr>kind = returnEntry, evalue = op_Output v, eid = i, etime = op_Return v, eclientId = op_ClientId v\<rparr>"

lemma entries_of_nth:
  assumes "i < length ops"
  shows "call_entry (j + int i) (ops ! i)
      \<in> set (entries_of j ops)"
    "return_entry (j + int i) (ops ! i)
      \<in> set (entries_of j ops)"
proof -
  have "call_entry (j + int i) (ops ! i) \<in> set (entries_of j ops) \<and> return_entry (j + int i) (ops ! i) \<in> set (entries_of j ops)"
    using assms
  proof (induction j ops arbitrary: i rule: entries_of.induct)
    case (2 j v ops)
    show ?case
    proof (cases i)
      case (Suc k)
      from 2 Suc have "call_entry (j + 1 + int k) (ops ! k) \<in> set (entries_of (j + 1) ops) \<and>
          return_entry (j + 1 + int k) (ops ! k) \<in> set (entries_of (j + 1) ops)" by simp
      with Suc show ?thesis by (simp add: ac_simps)
    qed simp
  qed simp
  then show "call_entry (j + int i) (ops ! i) \<in> set (entries_of j ops)" "return_entry (j + int i) (ops ! i) \<in> set (entries_of j ops)"
    by simp_all
qed

lemma entries_of_eid: "e \<in> set (entries_of j ops) \<Longrightarrow> j \<le> eid e \<and> eid e < j + int (length ops)"
  by (induction j ops rule: entries_of.induct) auto

lemma distinct_entries_of: "distinct (map (\<lambda>e. (kind e, eid e)) (entries_of j ops))"
  by (induction j ops rule: entries_of.induct) (auto dest: entries_of_eid)

lemma length_entries_of [simp]: "length (entries_of j ops) = 2 * length ops"
  by (induction j ops rule: entries_of.induct) auto

lemma makeEntries_facts:
  assumes "sorts Sort"
  shows "mset (makeEntries Sort ops) = mset (entries_of 0 ops)" "set (makeEntries Sort ops) = set (entries_of 0 ops)"
    "length (makeEntries Sort ops) = 2 * length ops" "ids (makeEntries Sort ops) = {0..<int (length ops)}"
    "distinct (map (\<lambda>e. (kind e, eid e)) (makeEntries Sort ops))"
    "\<And>p q. p < q \<Longrightarrow> q < 2 * length ops \<Longrightarrow> \<not> byTime_Less (makeEntries Sort ops ! q) (makeEntries Sort ops ! p)"
proof -
  let ?es = "makeEntries Sort ops"
  show m: "mset ?es = mset (entries_of 0 ops)" using assms by (simp add: sorts_def makeEntries_def)
  show "set ?es = set (entries_of 0 ops)" by (rule mset_eq_setD [OF m])
  show l: "length ?es = 2 * length ops" using mset_eq_length [OF m] by simp
  then show "ids ?es = {0..<int (length ops)}" by (simp add: ids_def)
  have "mset (map (\<lambda>e. (kind e, eid e)) ?es) = mset (map (\<lambda>e. (kind e, eid e)) (entries_of 0 ops))" using m by simp
  from mset_eq_imp_distinct_iff [OF this] show "distinct (map (\<lambda>e. (kind e, eid e)) ?es)" by (simp add: distinct_entries_of)
  show "\<not> byTime_Less (?es ! q) (?es ! p)" if "p < q" "q < 2 * length ops" for p q
    using assms that l by (auto simp: sorts_def makeEntries_def sorted_wrt_iff_nth_less)
qed

text \<open>Where the call and the return of operation \<open>i\<close> are.\<close>

lemma makeEntries_at:
  assumes "sorts Sort" "i < length ops" "op_Call (ops ! i) \<le> op_Return (ops ! i)"
  obtains p q where "p < q" "q < length (makeEntries Sort ops)"
    "makeEntries Sort ops ! p = call_entry (int i) (ops ! i)"
    "makeEntries Sort ops ! q = return_entry (int i) (ops ! i)"
proof -
  let ?es = "makeEntries Sort ops"
  note f = makeEntries_facts [OF assms(1), where ops = ops]
  obtain p where p: "p < length ?es"
    "?es ! p = call_entry (int i) (ops ! i)"
    using entries_of_nth(1) [OF assms(2), of 0] unfolding f(2) [symmetric] by (auto simp: in_set_conv_nth)
  obtain q where q: "q < length ?es"
    "?es ! q = return_entry (int i) (ops ! i)"
    using entries_of_nth(2) [OF assms(2), of 0] unfolding f(2) [symmetric] by (auto simp: in_set_conv_nth)
  have "\<not> q < p" using f(3) f(6) [of q p] p q assms(3) by (auto simp: byTime_Less_def split: if_splits)
  moreover have "p \<noteq> q" using p(2) q(2) by auto
  ultimately show ?thesis using that p q by (simp add: nat_neq_iff)
qed

lemma makeEntries_wf:
  assumes "sorts Sort" "\<forall>v \<in> set ops. op_Call v \<le> op_Return v"
  shows "wf_history (makeEntries Sort ops)"
proof -
  let ?es = "makeEntries Sort ops"
  note f = makeEntries_facts [OF assms(1), where ops = ops]
  have "eid (?es ! p) \<in> ids ?es" if "p < length ?es" for p
    using entries_of_eid [of "?es ! p" 0 ops] nth_mem [OF that] f(2,4) by simp
  moreover have "\<exists>p q. p < q \<and> q < length ?es \<and> kind (?es ! p) = callEntry \<and> eid (?es ! p) = i \<and>
      kind (?es ! q) = returnEntry \<and> eid (?es ! q) = i" if "i \<in> ids ?es" for i
  proof -
    have i: "nat i < length ops" "int (nat i) = i" using that f(4) by auto
    obtain p q where "p < q" "q < length ?es" "?es ! p = call_entry (int (nat i)) (ops ! nat i)"
      "?es ! q = return_entry (int (nat i)) (ops ! nat i)"
      using makeEntries_at [OF assms(1) i(1)] assms(2) i(1) by (metis nth_mem)
    then show ?thesis using i(2) by (metis entry.select_convs(1,3))
  qed
  ultimately show ?thesis using f(5) by (simp add: wf_history_def)
qed

lemma makeEntries_pos:
  assumes "sorts Sort" "\<forall>v \<in> set ops. op_Call v \<le> op_Return v" "i < length ops"
  defines "es \<equiv> makeEntries Sort ops"
  shows "es ! pos es callEntry (int i) = call_entry (int i) (ops ! i)"
    and "es ! pos es returnEntry (int i) = return_entry (int i) (ops ! i)"
proof -
  obtain p q where pq: "p < q" "q < length es"
    "es ! p = call_entry (int i) (ops ! i)"
    "es ! q = return_entry (int i) (ops ! i)"
    using makeEntries_at [OF assms(1,3)] assms(2,3) unfolding es_def by (metis nth_mem)
  moreover note wf_pos [OF makeEntries_wf [OF assms(1,2), folded es_def], of p] wf_pos [OF makeEntries_wf [OF assms(1,2), folded es_def], of q]
  ultimately show "es ! pos es callEntry (int i) = call_entry (int i) (ops ! i)"
    "es ! pos es returnEntry (int i) = return_entry (int i) (ops ! i)"
    by simp_all
qed

lemma makeEntries_precedes:
  assumes "sorts Sort" "\<forall>v \<in> set ops. op_Call v \<le> op_Return v" "i < length ops" "j < length ops"
  shows "precedes (makeEntries Sort ops) (int i) (int j) \<longleftrightarrow> op_Return (ops ! i) < op_Call (ops ! j)"
proof -
  let ?es = "makeEntries Sort ops"
  let ?r = "pos ?es returnEntry (int i)" and ?c = "pos ?es callEntry (int j)"
  note f = makeEntries_facts [OF assms(1), where ops = ops] and wf = makeEntries_wf [OF assms(1,2)]
  have ids: "int i \<in> ids ?es" "int j \<in> ids ?es" using assms(3,4) f(4) by auto
  have at: "?es ! ?r = return_entry (int i) (ops ! i)"
    "?es ! ?c = call_entry (int j) (ops ! j)"
    using makeEntries_pos [OF assms(1,2)] assms(3,4) by simp_all
  have len: "?r < 2 * length ops" "?c < 2 * length ops" using wf_ids(5) [OF wf] ids f(3) by auto
  have "?r < ?c \<or> ?c < ?r" using at by (metis entry.select_convs(1) entryKind.distinct(1) nat_neq_iff)
  then show ?thesis
    using f(6) [of ?r ?c] f(6) [of ?c ?r] len at by (auto simp: precedes_def byTime_Less_def split: if_splits)
qed

lemma linearization_ops:
  assumes "sorts Sort" "\<forall>v \<in> set ops. op_Call v \<le> op_Return v" "accepted_by model (makeEntries Sort ops)"
  shows "(\<exists>order. linearization model (makeEntries Sort ops) order) \<longleftrightarrow> linearizable model ops"
proof -
  let ?es = "makeEntries Sort ops"
  note f = makeEntries_facts [OF assms(1), where ops = ops]
  have step: "Step model s (op_Input (ops ! i)) (op_Output (ops ! i)) = Some (step_of model ?es s (int i))" if "i < length ops" for s i
    using accepted_step [OF assms(3), of "int i" s] makeEntries_pos [OF assms(1,2) that] that f(4) by simp
  have legal: "legal model ?es s (map int order) \<longleftrightarrow> legal_ops model s (map (\<lambda>i. ops ! i) order)"
    if "set order \<subseteq> {..<length ops}" for s order
    using that by (induction order arbitrary: s) (auto simp: step split: prod.splits)
  have ordered: "in_order ?es (map int order) \<longleftrightarrow> sorted_wrt (\<lambda>i j. \<not> op_Return (ops ! j) < op_Call (ops ! i)) order"
    if "set order \<subseteq> {..<length ops}" for order
    using that by (induction order) (auto simp: in_order_def makeEntries_precedes [OF assms(1,2)] subset_iff)
  have perm: "linearization model ?es (map int order) \<longleftrightarrow> mset order = mset [0..<length ops] \<and>
      sorted_wrt (\<lambda>i j. \<not> op_Return (ops ! j) < op_Call (ops ! i)) order \<and> legal_ops model (Init model) (map (\<lambda>i. ops ! i) order)" for order
  proof -
    have "ids ?es = int ` {..<length ops}" by (simp add: f(4) lessThan_atLeast0 image_int_atLeastLessThan)
    then have "distinct (map int order) \<and> set (map int order) = ids ?es \<longleftrightarrow> distinct order \<and> set order = {..<length ops}"
      by (simp add: distinct_map inj_on_def inj_image_eq_iff)
    also have "\<dots> \<longleftrightarrow> mset order = mset [0..<length ops]"
      using set_eq_iff_mset_eq_distinct [of order "[0..<length ops]"] mset_eq_imp_distinct_iff [of order "[0..<length ops]"]
      by (auto simp: lessThan_atLeast0)
    finally have 1: "distinct (map int order) \<and> set (map int order) = ids ?es \<longleftrightarrow> mset order = mset [0..<length ops]" .
    have sub: "set order \<subseteq> {..<length ops}" if "mset order = mset [0..<length ops]" using mset_eq_setD [OF that] by auto
    show ?thesis unfolding linearization_def using 1 legal [OF sub] ordered [OF sub] by blast
  qed
  have "order = map int (map nat order)" if "linearization model ?es order" for order
    using that by (auto simp: linearization_def f(4) intro!: map_idI [symmetric])
  then show ?thesis unfolding linearizable_def perm [symmetric] by metis
qed

section \<open>Verdicts\<close>

text \<open>The loop of \<^verbatim>\<open>checkParallel\<close>: a verdict other than \<open>Unknown\<close> is right, and \<open>Unknown\<close> comes from the timeout.\<close>

lemma collect_sound:
  assumes "collect computeInfo n result c ok arrivals = Some (ok', timedOut)" "ok \<longleftrightarrow> (\<forall>i \<in> R. result i)"
    and "c = card R" "finite R" "R \<subseteq> {..<n}" "{i. Some i \<in> set arrivals} \<subseteq> {..<n} - R" "distinct arrivals"
  shows "(timedOut \<longrightarrow> None \<in> set arrivals) \<and> (ok' \<and> \<not> timedOut \<longrightarrow> (\<forall>i<n. result i)) \<and>
    (\<not> ok' \<longrightarrow> (\<exists>i \<in> R \<union> {i. Some i \<in> set arrivals}. \<not> result i))"
  using assms
proof (induction arrivals arbitrary: c ok R)
  case (Cons x arrivals)
  show ?case
  proof (cases x)
    case None
    with Cons.prems show ?thesis by auto
  next
    case (Some i)
    have R: "i \<notin> R" "i < n" "{j. Some j \<in> set arrivals} \<subseteq> {..<n} - insert i R" using Cons.prems(6,7) Some by auto
    have all: "{..<n} = insert i R" if "n \<le> Suc c"
      using that R(1,2) Cons.prems(3-5) card_seteq [of "{..<n}" "insert i R"] by auto
    have rest: "(timedOut \<longrightarrow> None \<in> set arrivals) \<and> (ok' \<and> \<not> timedOut \<longrightarrow> (\<forall>i<n. result i)) \<and>
        (\<not> ok' \<longrightarrow> (\<exists>j \<in> insert i R \<union> {j. Some j \<in> set arrivals}. \<not> result j))"
      if "collect computeInfo n result (Suc c) (ok \<and> result i) arrivals = Some (ok', timedOut)"
      by (rule Cons.IH [OF that]) (use Cons.prems(2-7) R in auto)
    show ?thesis
    proof (cases "(ok \<and> result i \<or> computeInfo) \<and> \<not> n \<le> Suc c")
      case True
      with Cons.prems(1) Some have "collect computeInfo n result (Suc c) (ok \<and> result i) arrivals = Some (ok', timedOut)"
        by (auto simp: Let_def split: if_splits)
      from rest [OF this] Some show ?thesis by auto
    next
      case False
      with Cons.prems(1) Some have fin: "ok' = (ok \<and> result i)" "\<not> timedOut" "ok' \<longrightarrow> n \<le> Suc c"
        by (auto simp: Let_def split: if_splits)
      have "\<forall>j<n. result j" if ok'
      proof -
        have "j = i \<or> j \<in> R" if "j < n" for j using all fin(3) \<open>ok'\<close> that by auto
        with fin(1) \<open>ok'\<close> Cons.prems(2) show ?thesis by auto
      qed
      moreover have "\<exists>j \<in> insert i R. \<not> result j" if "\<not> ok'" using that fin(1) Cons.prems(2) by auto
      ultimately show ?thesis using fin(2) Some by auto
    qed
  qed
qed simp

lemma collect_returns:
  assumes "None \<in> set arrivals \<or> n \<le> c + length arrivals" "arrivals \<noteq> []"
  shows "collect computeInfo n result c ok arrivals \<noteq> None"
  using assms
proof (induction arrivals arbitrary: c ok)
  case (Cons x arrivals)
  then show ?case by (cases x; cases arrivals) (auto simp: Let_def)
qed simp

text \<open>What the loop receives: each part at most once, from goroutines that never read the kill flag as set (it is set when
  the loop is left), and then all of them or the timeout.\<close>

definition schedule_ok :: "nat \<Rightarrow> (nat \<Rightarrow> nat \<Rightarrow> bool) \<Rightarrow> nat option list \<Rightarrow> bool" where
  "schedule_ok n kills arrivals \<longleftrightarrow>
     distinct arrivals \<and> list_all (\<lambda>a. case a of None \<Rightarrow> True | Some i \<Rightarrow> i < n \<and> kills i = (\<lambda>_. False)) arrivals \<and>
     (None \<in> set arrivals \<or> 0 < n \<and> length arrivals = n)"

lemma those_map:
  assumes "\<And>x. x \<in> set xs \<Longrightarrow> returns (f x) (P x)"
  obtains ys where "those (map f xs) = Some ys" "length ys = length xs" "\<And>i. i < length xs \<Longrightarrow> P (xs ! i) (ys ! i)"
  using assms
proof (induction xs arbitrary: thesis)
  case (Cons x xs)
  obtain y where y: "f x = Some y" "P x y" using Cons.prems(2) [of x] by (auto elim: returnsE)
  obtain ys where ys: "those (map f xs) = Some ys" "length ys = length xs" "\<And>i. i < length xs \<Longrightarrow> P (xs ! i) (ys ! i)"
    using Cons.IH Cons.prems(2) by (metis list.set_intros(2))
  have "P ((x # xs) ! i) ((y # ys) ! i)" if "i < length (x # xs)" for i using that y(2) ys(3) by (cases i) auto
  with y(1) ys(1,2) Cons.prems(1) [of "y # ys"] show ?case by simp
qed simp

lemma checkParallel_verdict:
  assumes "\<And>h. h \<in> set history \<Longrightarrow> wf_history h" "\<And>h. h \<in> set history \<Longrightarrow> accepted_by model h"
    and "\<And>s t. Equal model s t \<longleftrightarrow> s = t" "schedule_ok (length history) kills arrivals" "\<And>xs. set (range_order xs) = set xs"
  shows "returns (checkParallel kills arrivals range_order model history computeInfo) (\<lambda>(res, info).
    (res = Ok \<longrightarrow> (\<forall>h \<in> set history. \<exists>order. linearization model h order)) \<and>
    (res = Illegal \<longrightarrow> (\<exists>h \<in> set history. \<not> (\<exists>order. linearization model h order))) \<and>
    (res = Unknown \<longrightarrow> None \<in> set arrivals) \<and>
    (computeInfo \<longrightarrow> list_all2 (\<lambda>h seqs. \<forall>seq \<in> set seqs. lin_prefix model h seq) history (partialLinearizations info)))"
proof -
  let ?n = "length history"
  have single: "returns (checkSingle model (history ! i) computeInfo (kills i)) (verdict model (history ! i) (kills i))" if "i < ?n" for i
    using checkSingle_verdict [OF assms(1,3,2)] nth_mem [OF that] by blast
  obtain results where r: "those (map (\<lambda>i. checkSingle model (history ! i) computeInfo (kills i)) [0..<?n]) = Some results"
    "length results = ?n" "\<And>i. i < ?n \<Longrightarrow> verdict model (history ! i) (kills i) (results ! i)"
    by (rule those_map [of "[0..<?n]" _ "\<lambda>i. verdict model (history ! i) (kills i)"])
      (use single in auto)
  have arr: "i < ?n" "kills i = (\<lambda>_. False)" if "Some i \<in> set arrivals" for i
    using assms(4) that by (auto simp: schedule_ok_def list_all_iff)
  have "None \<in> set arrivals \<or> ?n \<le> 0 + length arrivals" "arrivals \<noteq> []" "distinct arrivals"
    using assms(4) by (auto simp: schedule_ok_def)
  from collect_returns [OF this(1,2), of computeInfo "\<lambda>i. fst (results ! i)" True] obtain ok timedOut where
    c: "collect computeInfo ?n (\<lambda>i. fst (results ! i)) 0 True arrivals = Some (ok, timedOut)" by auto
  from collect_sound [OF c, of "{}"] arr(1) \<open>distinct arrivals\<close>
  have snd: "timedOut \<longrightarrow> None \<in> set arrivals" "ok \<and> \<not> timedOut \<longrightarrow> (\<forall>i < ?n. fst (results ! i))"
    "\<not> ok \<longrightarrow> (\<exists>i. Some i \<in> set arrivals \<and> \<not> fst (results ! i))" by auto
  have "\<forall>h \<in> set history. \<exists>order. linearization model h order" if "ok" "\<not> timedOut"
    using that snd(2) r(3) by (fastforce simp: in_set_conv_nth verdict_def)
  moreover have "\<exists>h \<in> set history. \<not> (\<exists>order. linearization model h order)" if "\<not> ok"
  proof -
    from snd(3) that obtain i where i: "Some i \<in> set arrivals" "\<not> fst (results ! i)" by blast
    from arr [OF i(1)] r(3) [of i] i(2) have "\<not> (\<exists>order. linearization model (history ! i) order)" by (simp add: verdict_def)
    with arr(1) [OF i(1)] nth_mem show ?thesis by blast
  qed
  moreover have "lin_prefix model (history ! i) seq" if "i < ?n" "seq \<in> set (partials range_order (snd (results ! i)))" for i seq
  proof -
    have "Some seq \<in> set (snd (results ! i))" using that(2) assms(5) by (auto simp: partials_def List.map_filter_def)
    then obtain k where "k < length (snd (results ! i))" "snd (results ! i) ! k = Some seq" by (auto simp: in_set_conv_nth)
    with r(3) [OF that(1)] show ?thesis by (auto simp: verdict_def longest_ok_def)
  qed
  then have "list_all2 (\<lambda>h seqs. \<forall>seq \<in> set seqs. lin_prefix model h seq) history (map (\<lambda>r. partials range_order (snd r)) results)"
    using r(2) by (auto simp: list_all2_conv_all_nth)
  ultimately show ?thesis using snd(1) by (auto simp: checkParallel_def r(1) c)
qed

lemma makeEntries_accepted:
  assumes "sorts Sort" "\<forall>v \<in> set ops. op_Call v \<le> op_Return v" "\<And>s v. v \<in> set ops \<Longrightarrow> Step model s (op_Input v) (op_Output v) \<noteq> None"
  shows "accepted_by model (makeEntries Sort ops)"
  unfolding accepted_by_def
proof (intro allI ballI)
  fix s i assume "i \<in> ids (makeEntries Sort ops)"
  then have i: "nat i < length ops" "int (nat i) = i" using makeEntries_facts(4) [OF assms(1), of ops] by auto
  show "Step model s (evalue (makeEntries Sort ops ! pos (makeEntries Sort ops) callEntry i))
      (evalue (makeEntries Sort ops ! pos (makeEntries Sort ops) returnEntry i)) \<noteq> None"
    using makeEntries_pos [OF assms(1,2) i(1), unfolded i(2)] assms(3) [OF nth_mem [OF i(1)]] by simp
qed

text \<open>C4. The search decides linearizability. On a history in which every operation has one call and one later return,
  \<^verbatim>\<open>checkSingle\<close> ends without a panic. It returns true exactly with a linearization of all operations, which
  \<^verbatim>\<open>longest\<close> then holds everywhere, and false only if there is none or the kill flag was set. In
  both cases a slice in \<^verbatim>\<open>longest\<close> is the start of a linearization and contains the operation it is stored for.\<close>

theorem checkSingle_correct:
  assumes "wf_history es" "\<And>s t. Equal model s t \<longleftrightarrow> s = t" "accepted_by model es"
  shows "returns (checkSingle model es computePartial kill) (\<lambda>(ok, longest).
    (ok \<longrightarrow> (\<exists>order. linearization model es order \<and> longest = replicate (length es div 2) (Some order))) \<and>
    (\<not> ok \<longrightarrow> (\<exists>k. kill k) \<or> \<not> (\<exists>order. linearization model es order)) \<and>
    (\<forall>i < length longest. \<forall>seq. longest ! i = Some seq \<longrightarrow> int i \<in> set seq \<and> lin_prefix model es seq))"
  by (rule returns_mono [OF checkSingle_verdict [OF assms]]) (auto simp: verdict_def longest_ok_def split: if_splits)

text \<open>C11. The verdict on a history of operations is right for every schedule of the goroutines and any timeout: \<^verbatim>\<open>Ok\<close> means
  that every part of the history is linearizable, \<^verbatim>\<open>Illegal\<close> that some part is not, and \<^verbatim>\<open>Unknown\<close> is only given after
  the timeout. There is a verdict if the results of all parts arrive and there is a part, or if the timeout comes. Partial
  linearizations in the answer are starts of linearizations.\<close>

theorem checkOperations_verdict:
  assumes "sorts Sort" "Partition (fillDefault model) history = Some parts"
    and "\<And>h v. h \<in> set parts \<Longrightarrow> v \<in> set h \<Longrightarrow> op_Call v \<le> op_Return v"
    and "\<And>h v s. h \<in> set parts \<Longrightarrow> v \<in> set h \<Longrightarrow> Step (fillDefault model) s (op_Input v) (op_Output v) \<noteq> None"
    and "\<And>s t. Equal (fillDefault model) s t \<longleftrightarrow> s = t"
    and "schedule_ok (length parts) kills arrivals" "\<And>xs. set (range_order xs) = set xs"
  shows "returns (checkOperations Sort kills arrivals range_order model history verbose) (\<lambda>(res, info).
    (res = Ok \<longrightarrow> (\<forall>h \<in> set parts. linearizable (fillDefault model) h)) \<and>
    (res = Illegal \<longrightarrow> (\<exists>h \<in> set parts. \<not> linearizable (fillDefault model) h)) \<and>
    (res = Unknown \<longrightarrow> None \<in> set arrivals) \<and>
    (verbose \<longrightarrow> list_all2 (\<lambda>h seqs. \<forall>seq \<in> set seqs. lin_prefix (fillDefault model) (makeEntries Sort h) seq)
       parts (partialLinearizations info)))"
proof -
  let ?m = "fillDefault model"
  have acc: "accepted_by ?m (makeEntries Sort h)" and wf: "wf_history (makeEntries Sort h)"
    and lin: "(\<exists>order. linearization ?m (makeEntries Sort h) order) \<longleftrightarrow> linearizable ?m h" if "h \<in> set parts" for h
  proof -
    have times: "\<forall>v \<in> set h. op_Call v \<le> op_Return v" using assms(3) that by blast
    show a: "accepted_by ?m (makeEntries Sort h)" by (rule makeEntries_accepted [OF assms(1) times assms(4) [OF that]])
    show "wf_history (makeEntries Sort h)" by (rule makeEntries_wf [OF assms(1) times])
    show "(\<exists>order. linearization ?m (makeEntries Sort h) order) \<longleftrightarrow> linearizable ?m h" by (rule linearization_ops [OF assms(1) times a])
  qed
  have "returns (checkParallel kills arrivals range_order ?m (map (makeEntries Sort) parts) verbose) (\<lambda>(res, info).
    (res = Ok \<longrightarrow> (\<forall>h \<in> set (map (makeEntries Sort) parts). \<exists>order. linearization ?m h order)) \<and>
    (res = Illegal \<longrightarrow> (\<exists>h \<in> set (map (makeEntries Sort) parts). \<not> (\<exists>order. linearization ?m h order))) \<and>
    (res = Unknown \<longrightarrow> None \<in> set arrivals) \<and>
    (verbose \<longrightarrow> list_all2 (\<lambda>h seqs. \<forall>seq \<in> set seqs. lin_prefix ?m h seq) (map (makeEntries Sort) parts) (partialLinearizations info)))"
    by (rule checkParallel_verdict) (use acc wf assms(5-7) in auto)
  moreover have "(\<forall>h \<in> set (map (makeEntries Sort) parts). \<exists>order. linearization ?m h order) \<longleftrightarrow> (\<forall>h \<in> set parts. linearizable ?m h)"
    "(\<exists>h \<in> set (map (makeEntries Sort) parts). \<not> (\<exists>order. linearization ?m h order)) \<longleftrightarrow> (\<exists>h \<in> set parts. \<not> linearizable ?m h)"
    using lin by auto
  ultimately show ?thesis by (simp only: checkOperations_def assms(2) list_all2_map1 bind.bind_lunit Let_def)
qed

section \<open>Examples\<close>

text \<open>A sort by time, with calls first.\<close>

definition time_sort :: "'v entry list \<Rightarrow> 'v entry list" where
  "time_sort = sort_key (\<lambda>e. (etime e, kind e = returnEntry))"

lemma sorts_time_sort: "sorts (time_sort :: 'v entry list \<Rightarrow> 'v entry list)"
proof -
  have "sorted_wrt (\<lambda>a b. \<not> byTime_Less b a) (time_sort es)" for es :: "'v entry list"
  proof (rule sorted_wrt_mono_rel)
    show "sorted_wrt (\<lambda>a b. (etime a, kind a = returnEntry) \<le> (etime b, kind b = returnEntry)) (time_sort es)"
      using sorted_sort_key [of "\<lambda>e. (etime e, kind e = returnEntry)" es] by (simp add: time_sort_def sorted_map)
  qed (auto simp: byTime_Less_def)
  then show ?thesis by (simp add: sorts_def time_sort_def)
qed

text \<open>A Put of one client while another one appends and reads.\<close>

definition sample_ops :: "kv_any Operation list" where
  "sample_ops =
     [\<lparr>op_ClientId = 0, op_Input = AnyInput \<lparr>kvOp = 1, kvKey = ''x'', kvValue = ''a''\<rparr>, op_Call = 0, op_Output = AnyOutput \<lparr>kvOut = ''''\<rparr>, op_Return = 5\<rparr>,
      \<lparr>op_ClientId = 1, op_Input = AnyInput \<lparr>kvOp = 3, kvKey = ''x'', kvValue = ''b''\<rparr>, op_Call = 1, op_Output = AnyOutput \<lparr>kvOut = ''a''\<rparr>, op_Return = 2\<rparr>,
      \<lparr>op_ClientId = 1, op_Input = AnyInput \<lparr>kvOp = 0, kvKey = ''x'', kvValue = ''''\<rparr>, op_Call = 2, op_Output = AnyOutput \<lparr>kvOut = ''ab''\<rparr>, op_Return = 4\<rparr>]"

lemma sample_ops_ok:
  "\<forall>v \<in> set sample_ops. op_Call v \<le> op_Return v"
  "v \<in> set sample_ops \<Longrightarrow> Step (fillDefault KvModel) s (op_Input v) (op_Output v) \<noteq> None"
  "Equal (fillDefault KvModel) s t \<longleftrightarrow> s = t"
  by (auto simp: sample_ops_def fillDefault_def KvModel_def ShallowEqual_def)

lemma sample_partition: "Partition (fillDefault KvModel) sample_ops = Some [sample_ops]"
  by (simp add: sample_ops_def fillDefault_def KvModel_def KvModel_Partition_def)

theorem checkSingle_correct_witness:
  "returns (checkSingle (fillDefault KvModel) (makeEntries time_sort sample_ops) True (\<lambda>_. False)) (\<lambda>(ok, longest).
    (ok \<longrightarrow> (\<exists>order. linearization (fillDefault KvModel) (makeEntries time_sort sample_ops) order)) \<and>
    (\<not> ok \<longrightarrow> \<not> (\<exists>order. linearization (fillDefault KvModel) (makeEntries time_sort sample_ops) order)))"
  using checkSingle_correct [OF makeEntries_wf [OF sorts_time_sort sample_ops_ok(1)] sample_ops_ok(3)
      makeEntries_accepted [OF sorts_time_sort sample_ops_ok(1,2)], of True "\<lambda>_. False"]
  by (rule returns_mono) auto

theorem checkOperations_verdict_witness:
  "returns (checkOperations time_sort (\<lambda>_ _. False) [Some 0] (\<lambda>xs. xs) KvModel sample_ops True) (\<lambda>(res, info).
    res \<noteq> Unknown \<and> (res = Ok \<longrightarrow> linearizable (fillDefault KvModel) sample_ops) \<and>
    (res = Illegal \<longrightarrow> \<not> linearizable (fillDefault KvModel) sample_ops))"
  using checkOperations_verdict [OF sorts_time_sort sample_partition, of "\<lambda>_ _. False" "[Some 0]" "\<lambda>xs. xs" True] sample_ops_ok
  by (auto simp: schedule_ok_def elim!: returns_mono)

end
