(* ===== verification/Spec2Isabelle.thy ===== *)
theory Spec2Isabelle
  imports Raft_Replication Raft_Cluster LabRPC KV_Service KVClerk RSM_Counter ShardSys MR_Apps KVSrv Porcupine_Check
begin

text \<open>
  A verification library for the labs of MIT 6.5840 in this repository: Raft, the replicated and the sharded
  key/value service built on it, the single-server key/value service, MapReduce, and what the tests rest on:
  the simulated network and the linearizability checker. Paths are relative to \<^verbatim>\<open>src/\<close>.

  \<^bold>\<open>The program and its parts.\<close>

  \<^item> \<^verbatim>\<open>lec-2025/src/raft1/raft.go\<close> is a Raft peer. It keeps its state on the \<^verbatim>\<open>Persister\<close> of
    \<^verbatim>\<open>lec-2025/src/tester1/persister.go\<close> and sends committed commands to the service above it.
  \<^item> \<^verbatim>\<open>lec-2025/src/kvraft1/rsm/rsm.go\<close> turns a peer and a state machine into a replicated server: \<^verbatim>\<open>Submit\<close> puts a
    request in the log and waits, \<^verbatim>\<open>reader\<close> executes what comes back. \<^verbatim>\<open>kvraft1/server.go\<close> is the
    versioned key/value state machine, \<^verbatim>\<open>kvraft1/client.go\<close> its clerk.
  \<^item> \<^verbatim>\<open>lec-2025/src/shardkv1\<close> is the sharded service: \<^verbatim>\<open>shardcfg\<close> computes configurations, each shard group is a
    server on \<^verbatim>\<open>rsm\<close>, the controller \<^verbatim>\<open>shardctrler\<close> moves shards between groups and keeps configurations in
    a key/value service, and the clerks find the group of a key.
  \<^item> \<^verbatim>\<open>src/mr\<close>, \<^verbatim>\<open>src/mrapps\<close> and \<^verbatim>\<open>src/main/mrsequential.go\<close> are MapReduce: a coordinator that gives out
    tasks, workers that share a directory, applications, and the sequential program they are compared with.
  \<^item> \<^verbatim>\<open>src/kvsrv\<close> is the single-server key/value service with clerks that repeat calls.
  \<^item> \<^verbatim>\<open>lec-2025/src/labrpc/labrpc.go\<close> is the network that carries all calls: it delays and drops them, and the tester
    connects, disables and replaces servers while calls are on their way.
  \<^item> \<^verbatim>\<open>src/porcupine\<close> decides whether a recorded history is linearizable; \<^verbatim>\<open>src/models/kv.go\<close> is the sequential
    model it uses for \<^verbatim>\<open>kvsrv\<close>.

  \<^bold>\<open>How Go is modelled.\<close> Theory \<open>Prelude\<close> has the conventions. A struct is a record, and the critical
  section of a method (from \<^verbatim>\<open>Lock\<close> to \<^verbatim>\<open>Unlock\<close>, or one message of a goroutine that serves a channel) is a
  function on it. Code that can panic or call \<^verbatim>\<open>log.Fatalf\<close> has an \<open>option\<close> result, so "no panic" is a theorem and
  never an assumption: \<open>returns m P\<close> says that \<open>m\<close> gives a value and that \<open>P\<close> holds of it. \<^verbatim>\<open>int\<close> is \<open>int\<close>;
  versions, hashes and bit sets are words, with their wrap-around. Theory \<open>Machine\<close> composes critical
  sections: \<open>run\<close> executes any sequence of events, \<open>admissible\<close> says what the environment owes, and the locale
  \<open>machine\<close> carries an invariant along every run. Each server interprets it, so interleavings, crashes, lost,
  late and repeated messages are all sequences of events. Clerks and the controller, which loop on
  remote calls, are functions of the answers they get, or programs whose constructors are their calls.

  \<^bold>\<open>The theories.\<close>

  \<^item> \<open>Persister\<close>, \<open>Raft\<close>: every operation of the persister and the peer. \<open>Raft_Inv\<close>: the well-formedness of a
    peer, what is on its disk, and that each operation keeps both. \<open>Raft_Peer\<close>: the peer as a machine with
    crashes. \<open>Raft_Props\<close>: no panic over any run, crash recovery, votes, and what \<^verbatim>\<open>AppendEntries\<close> and
    \<^verbatim>\<open>RequestVote\<close> do on every branch. \<open>Raft_Replication\<close>: a broadcast handled by a follower, the commit
    rule as a majority, the applier, compaction. \<open>Raft_Cluster\<close>: peers that exchange calls; a term has one leader
    unless a vote is asked for after a heartbeat of its term, and a run in which it has two.
  \<^item> \<open>KV_RPC\<close>: the types of the calls and the sequential model of \<^verbatim>\<open>models1/kv.go\<close>. \<open>RSM\<close>: \<^verbatim>\<open>rsm.go\<close> over any
    state machine, as a locale, with the theorem that a call gets its own result. \<open>RSM_Recovery\<close>:
    equal commands give equal states, and snapshots bring a crashed server back. \<open>KVServer\<close>: the state
    machine refines the sequential model. \<open>KV_Service\<close>: \<^verbatim>\<open>kvraft1\<close> as an instance of the two. \<open>KVClerk\<close>: the clerk's
    loops end exactly on an answer, and a Put takes effect at most once. \<open>RSM_Counter\<close>: the counter
    of the tests as a second instance.
  \<^item> \<open>ShardCfg\<close>: \<^verbatim>\<open>Rebalance\<close> terminates and balances; joins and leaves give valid configurations. \<open>ShardGrp\<close>: the
    group server, that freezing hands a shard over, that old numbers are refused. \<open>ShardGrp_Clerk\<close>: both clerks.
    \<open>ShardCtrler\<close>: the controller as a program of calls, with \<open>Strconv\<close> for its number strings. \<open>ShardSys\<close>: all of
    them together, with the main result that clients see one key/value store.
  \<^item> \<open>MR_Coordinator\<close>, \<open>MR_Worker\<close>: the two sides of MapReduce. \<open>MR_System\<close>: any number of workers on a shared
    directory and the invariant of their runs, as a locale for jobs whose reduce function ignores the order of values.
    \<open>MR_Apps\<close>: four applications as instances, and the equivalence with the sequential program.
  \<^item> \<open>KVSrv\<close>: the single-server service on a network that loses, delays and repeats, and that each call is
    executed exactly once.
  \<^item> \<open>LabRPC\<close>: the network, with a call as a sequence of stages; handlers run at most once, and replies of servers
    that were deleted are not delivered. \<open>Raft_Cluster\<close> takes its calls to behave this way.
  \<^item> \<open>Porcupine\<close>: every function of the checker, with the linked list of entries as a heap. \<open>Porcupine_List\<close> and
    \<open>Porcupine_Bits\<close>: lifting and unlifting entries, and bit sets, as operations on lists and sets. \<open>Porcupine_Lin\<close>:
    linearizations. \<open>Porcupine_Search\<close>: the invariant of the search. \<open>Porcupine_Check\<close>: its verdicts are right, also
    over parts checked in parallel, and the model of \<^verbatim>\<open>kvsrv\<close>.

  \<^bold>\<open>Bounds and fuel.\<close> No model has fuel. Loops over data are structural recursion or have a termination proof
  (\<^verbatim>\<open>Rebalance\<close> by the sum of squared loads). The search of the checker is \<open>partial_function (option)\<close> and is
  proved to end, by the configurations its cache does not have yet. Loops that may run forever, the clerks' retries and the applier, are
  \<open>partial_function (option)\<close>, and the theorems about them say when they return.

  \<^bold>\<open>Parameters.\<close> The network is a function of the attempt or part of the sequence of events. The order in
  which Go ranges over a map, the order \<^verbatim>\<open>sort.Sort\<close> gives equal elements, random numbers and clocks
  are arguments or events. What \<^verbatim>\<open>labgob\<close> and \<^verbatim>\<open>encoding/json\<close> write is a datatype of the items written, so
  decoding what was encoded gives it back and anything else does not decode.

  \<^bold>\<open>Not modelled.\<close> Election timers and sleeps have no effect but the order of events. Test harnesses (\<^verbatim>\<open>tester1\<close>
  but for \<^verbatim>\<open>Persister\<close> and server names, \<^verbatim>\<open>kvtest1\<close>, \<^verbatim>\<open>raft1/test.go\<close> and \<^verbatim>\<open>server.go\<close>, the \<^verbatim>\<open>config.go\<close> files and the
  like) only drive the code above. \<^verbatim>\<open>labgob\<close> wraps \<^verbatim>\<open>encoding/gob\<close>. \<^verbatim>\<open>src/labrpc\<close> is an older copy of the network. The
  directories \<^verbatim>\<open>src/raft\<close>, \<^verbatim>\<open>src/kvraft\<close>, \<^verbatim>\<open>src/shardctrler\<close>, \<^verbatim>\<open>src/shardkv\<close>, \<^verbatim>\<open>lec-2025/src/mr\<close> and \<^verbatim>\<open>lec-2025/src/kvsrv1\<close>
  hold skeletons of the labs without an implementation. The programs in \<^verbatim>\<open>main\<close> other than \<^verbatim>\<open>mrsequential.go\<close> parse
  arguments and call the modelled functions. \<^verbatim>\<open>porcupine/visualization.go\<close> lays out an HTML page. Of the MapReduce
  applications, those that crash, sleep or count processes are left out.
\<close>

end
